(* ===== verification/Prelude.thy ===== *)
theory Prelude
  imports Main "HOL-Library.Word"
begin

text \<open>
  Shared ground of the development: results as sums, the checked and saturating
  arithmetic of Rust's unsigned integers, byte ranges, and the list facts the
  component theories use.

  Integers that are only compared, or whose arithmetic is checked by the code, are
  \<^typ>\<open>nat\<close> with the width written out at each operation that can leave it
  (\<open>checked_add\<close>, \<open>saturating_add\<close>, \<open>try_into\<close>, \<open>wrap\<close>); where the code multiplies or
  adds without a check they are \<open>'n word\<close>, whose operations wrap. A \<open>usize\<close> has 64 bits.
\<close>

subsection \<open>Widths\<close>

definition u32_max :: nat where "u32_max = 4294967295"
definition u64_max :: nat where "u64_max = 18446744073709551615"
definition u128_max :: nat where "u128_max = 340282366920938463463374607431768211455"

abbreviation (input) usize_max :: nat where "usize_max \<equiv> u64_max"

lemma u32_le_u64: "n \<le> u32_max \<Longrightarrow> n \<le> u64_max"
  by (simp add: u32_max_def u64_max_def)

text \<open>\<open>wrap m n\<close> is the value of an unchecked cast or operation in a type with greatest value \<open>m\<close>.\<close>

definition wrap :: "nat \<Rightarrow> nat \<Rightarrow> nat" where
  "wrap m n = n mod Suc m"

lemma wrap_id [simp]: "n \<le> m \<Longrightarrow> wrap m n = n"
  by (simp add: wrap_def)

lemma wrap_le [simp]: "wrap m n \<le> m"
  using mod_less_divisor [of "Suc m" n] by (simp add: wrap_def less_Suc_eq_le del: mod_less_divisor)

definition checked_add :: "nat \<Rightarrow> nat \<Rightarrow> nat \<Rightarrow> nat option" where
  "checked_add m a b = (if a + b \<le> m then Some (a + b) else None)"

definition checked_sub :: "nat \<Rightarrow> nat \<Rightarrow> nat option" where
  "checked_sub a b = (if b \<le> a then Some (a - b) else None)"

definition checked_mul :: "nat \<Rightarrow> nat \<Rightarrow> nat \<Rightarrow> nat option" where
  "checked_mul m a b = (if a * b \<le> m then Some (a * b) else None)"

definition saturating_add :: "nat \<Rightarrow> nat \<Rightarrow> nat \<Rightarrow> nat" where
  "saturating_add m a b = min m (a + b)"

definition saturating_mul :: "nat \<Rightarrow> nat \<Rightarrow> nat \<Rightarrow> nat" where
  "saturating_mul m a b = min m (a * b)"

definition try_into :: "nat \<Rightarrow> nat \<Rightarrow> nat option" where
  "try_into m n = (if n \<le> m then Some n else None)"

text \<open>What evaluates the width arithmetic on numerals; not for proofs about variables.\<close>

named_theorems width_eval

declare u32_max_def [width_eval] u64_max_def [width_eval] u128_max_def [width_eval]
  checked_add_def [width_eval] checked_sub_def [width_eval] checked_mul_def [width_eval]
  saturating_add_def [width_eval] saturating_mul_def [width_eval] try_into_def [width_eval]

lemma checked_add_Some [simp]: "checked_add m a b = Some c \<longleftrightarrow> c = a + b \<and> a + b \<le> m"
  by (auto simp: checked_add_def)

lemma checked_add_None [simp]: "checked_add m a b = None \<longleftrightarrow> m < a + b"
  by (auto simp: checked_add_def)

lemma checked_sub_Some [simp]: "checked_sub a b = Some c \<longleftrightarrow> b \<le> a \<and> c = a - b"
  by (auto simp: checked_sub_def)

lemma checked_sub_None [simp]: "checked_sub a b = None \<longleftrightarrow> a < b"
  by (auto simp: checked_sub_def)

lemma checked_mul_Some [simp]: "checked_mul m a b = Some c \<longleftrightarrow> c = a * b \<and> a * b \<le> m"
  by (auto simp: checked_mul_def)

lemma checked_mul_None [simp]: "checked_mul m a b = None \<longleftrightarrow> m < a * b"
  by (auto simp: checked_mul_def)

lemma try_into_Some [simp]: "try_into m n = Some c \<longleftrightarrow> c = n \<and> n \<le> m"
  by (auto simp: try_into_def)

lemma try_into_None [simp]: "try_into m n = None \<longleftrightarrow> m < n"
  by (auto simp: try_into_def)

type_synonym byte = "8 word"

subsection \<open>Results\<close>

abbreviation Ok :: "'a \<Rightarrow> 'e + 'a" where "Ok \<equiv> Inr"
abbreviation Err :: "'e \<Rightarrow> 'e + 'a" where "Err \<equiv> Inl"

text \<open>\<open>and_then r f\<close> is the \<open>?\<close> operator: continue with the value, return the error.\<close>

definition and_then :: "'e + 'a \<Rightarrow> ('a \<Rightarrow> 'e + 'b) \<Rightarrow> 'e + 'b" where
  "and_then r f = (case r of Inl e \<Rightarrow> Inl e | Inr x \<Rightarrow> f x)"

definition ok_or :: "'e \<Rightarrow> 'a option \<Rightarrow> 'e + 'a" where
  "ok_or e x = (case x of None \<Rightarrow> Inl e | Some y \<Rightarrow> Inr y)"

definition is_ok :: "'e + 'a \<Rightarrow> bool" where
  "is_ok r = (case r of Inl _ \<Rightarrow> False | Inr _ \<Rightarrow> True)"

lemma and_then_simps [simp]:
  "and_then (Inl e) f = Inl e"
  "and_then (Inr x) f = f x"
  by (simp_all add: and_then_def)

lemma and_then_Ok [simp]: "and_then r f = Inr y \<longleftrightarrow> (\<exists>x. r = Inr x \<and> f x = Inr y)"
  by (cases r) simp_all

lemma and_then_Err:
  "and_then r f = Inl e \<longleftrightarrow> r = Inl e \<or> (\<exists>x. r = Inr x \<and> f x = Inl e)"
  by (cases r) auto

lemma ok_or_simps [simp]:
  "ok_or e None = Inl e"
  "ok_or e (Some x) = Inr x"
  by (simp_all add: ok_or_def)

lemma ok_or_Ok [simp]: "ok_or e x = Inr y \<longleftrightarrow> x = Some y"
  by (cases x) simp_all

lemma ok_or_Err [simp]: "ok_or e x = Inl e' \<longleftrightarrow> x = None \<and> e' = e"
  by (cases x) auto

lemma is_ok_simps [simp]: "is_ok (Inl e) = False" "is_ok (Inr x) = True"
  by (simp_all add: is_ok_def)

end
