(* ===== verification/Resource_Limits.thy ===== *)
theory Resource_Limits
  imports Prelude
begin

text \<open>
  \<open>src/src/limits.rs\<close> and the parts of \<open>src/src/info.rs\<close> and \<open>src/src/cost.rs\<close> its checks
  read: the threading policy, the resource limits with their builders, and every
  \<open>check_*\<close> method. Integers keep their width here, since the checks multiply without
  checking for overflow. The lemmas say exactly when each check accepts.
\<close>

type_synonym u16 = "16 word"
type_synonym u32 = "32 word"
type_synonym u64 = "64 word"

subsection \<open>Threading policy\<close>

datatype threading_policy =
    SingleThread
  | LimitOrSingle u16
  | LimitOrAny u16
  | Balanced
  | Unlimited
  | Sequential
  | Parallel

fun is_parallel :: "threading_policy \<Rightarrow> bool" where
  "is_parallel Sequential = False"
| "is_parallel SingleThread = False"
| "is_parallel (LimitOrSingle max_threads) = (\<not> max_threads \<le> 1)"
| "is_parallel _ = True"

fun resolve_thread_count :: "threading_policy \<Rightarrow> u32" where
  "resolve_thread_count Sequential = 1"
| "resolve_thread_count SingleThread = 1"
| "resolve_thread_count (LimitOrSingle max_threads) = (if max_threads \<le> 1 then 1 else 0)"
| "resolve_thread_count _ = 0"

datatype alloc_preference = CodecDefault | Fallible | Infallible

subsection \<open>Limits and their builders\<close>

record resource_limits =
  max_pixels :: "u64 option"
  max_memory_bytes :: "u64 option"
  max_output_bytes :: "u64 option"
  max_width :: "u32 option"
  max_height :: "u32 option"
  max_input_bytes :: "u64 option"
  max_frames :: "u32 option"
  max_animation_ms :: "u64 option"
  max_total_pixels :: "u64 option"
  threading :: threading_policy
  prefer_fallible_allocations :: alloc_preference

definition limits_none :: resource_limits where
  "limits_none = \<lparr> max_pixels = None, max_memory_bytes = None, max_output_bytes = None,
     max_width = None, max_height = None, max_input_bytes = None, max_frames = None,
     max_animation_ms = None, max_total_pixels = None, threading = Parallel,
     prefer_fallible_allocations = CodecDefault \<rparr>"

definition for_untrusted_input :: resource_limits where
  "for_untrusted_input = \<lparr> max_pixels = Some 120000000, max_memory_bytes = Some (1024 * 1024 * 1024),
     max_output_bytes = None, max_width = Some 16384, max_height = Some 16384,
     max_input_bytes = Some (256 * 1024 * 1024), max_frames = Some 65536,
     max_animation_ms = Some (60 * 60 * 1000), max_total_pixels = Some 200000000,
     threading = Parallel, prefer_fallible_allocations = Fallible \<rparr>"

definition with_max_pixels :: "u64 \<Rightarrow> resource_limits \<Rightarrow> resource_limits" where
  "with_max_pixels m l = l\<lparr>max_pixels := Some m\<rparr>"

definition with_max_memory :: "u64 \<Rightarrow> resource_limits \<Rightarrow> resource_limits" where
  "with_max_memory b l = l\<lparr>max_memory_bytes := Some b\<rparr>"

definition with_prefer_fallible_allocations ::
    "alloc_preference \<Rightarrow> resource_limits \<Rightarrow> resource_limits" where
  "with_prefer_fallible_allocations p l = l\<lparr>prefer_fallible_allocations := p\<rparr>"

definition with_max_output :: "u64 \<Rightarrow> resource_limits \<Rightarrow> resource_limits" where
  "with_max_output b l = l\<lparr>max_output_bytes := Some b\<rparr>"

definition with_max_width :: "u32 \<Rightarrow> resource_limits \<Rightarrow> resource_limits" where
  "with_max_width w l = l\<lparr>max_width := Some w\<rparr>"

definition with_max_height :: "u32 \<Rightarrow> resource_limits \<Rightarrow> resource_limits" where
  "with_max_height h l = l\<lparr>max_height := Some h\<rparr>"

definition with_max_input_bytes :: "u64 \<Rightarrow> resource_limits \<Rightarrow> resource_limits" where
  "with_max_input_bytes b l = l\<lparr>max_input_bytes := Some b\<rparr>"

definition with_max_frames :: "u32 \<Rightarrow> resource_limits \<Rightarrow> resource_limits" where
  "with_max_frames n l = l\<lparr>max_frames := Some n\<rparr>"

definition with_max_animation_ms :: "u64 \<Rightarrow> resource_limits \<Rightarrow> resource_limits" where
  "with_max_animation_ms ms l = l\<lparr>max_animation_ms := Some ms\<rparr>"

definition with_max_total_pixels :: "u64 \<Rightarrow> resource_limits \<Rightarrow> resource_limits" where
  "with_max_total_pixels m l = l\<lparr>max_total_pixels := Some m\<rparr>"

definition with_threading :: "threading_policy \<Rightarrow> resource_limits \<Rightarrow> resource_limits" where
  "with_threading p l = l\<lparr>threading := p\<rparr>"

definition has_any :: "resource_limits \<Rightarrow> bool" where
  "has_any l \<longleftrightarrow> max_pixels l \<noteq> None \<or> max_memory_bytes l \<noteq> None \<or> max_output_bytes l \<noteq> None
     \<or> max_width l \<noteq> None \<or> max_height l \<noteq> None \<or> max_input_bytes l \<noteq> None
     \<or> max_frames l \<noteq> None \<or> max_animation_ms l \<noteq> None \<or> max_total_pixels l \<noteq> None
     \<or> threading l \<noteq> Parallel"

subsection \<open>What was exceeded\<close>

datatype limit_exceeded =
    LWidth u32 u32
  | LHeight u32 u32
  | LPixels u64 u64
  | LMemory u64 u64
  | LInputSize u64 u64
  | LOutputSize u64 u64
  | LFrames u32 u32
  | LDuration u64 u64
  | LTotalPixels u64 u64

datatype limit_kind =
    KWidth | KHeight | KPixels | KMemory | KInputSize | KOutputSize | KFrames | KDuration
  | KTotalPixels | KScans | KDecompressionRatio | KInventoryParts | KMetadataSize
  | KMetadataRewriteSize | KMetadataCarriers | KMetadataEntries | KPacketBytes | KTracks
  | KHeaderBytes | KTableEntries | KQueueDepth

fun limit_kind_of :: "limit_exceeded \<Rightarrow> limit_kind" where
  "limit_kind_of (LWidth _ _) = KWidth"
| "limit_kind_of (LHeight _ _) = KHeight"
| "limit_kind_of (LPixels _ _) = KPixels"
| "limit_kind_of (LMemory _ _) = KMemory"
| "limit_kind_of (LInputSize _ _) = KInputSize"
| "limit_kind_of (LOutputSize _ _) = KOutputSize"
| "limit_kind_of (LFrames _ _) = KFrames"
| "limit_kind_of (LDuration _ _) = KDuration"
| "limit_kind_of (LTotalPixels _ _) = KTotalPixels"

subsection \<open>The probed facts the checks read\<close>

datatype image_sequence =
    Single
  | Animation (frame_count: "u32 option") (loop_count: "u32 option") (anim_random_access: bool)
  | Multi (image_count: "u32 option") (multi_random_access: bool)

fun sequence_count :: "image_sequence \<Rightarrow> u32 option" where
  "sequence_count Single = Some 1"
| "sequence_count (Animation n _ _) = n"
| "sequence_count (Multi n _) = n"

fun sequence_random_access :: "image_sequence \<Rightarrow> bool" where
  "sequence_random_access Single = True"
| "sequence_random_access (Animation _ _ r) = r"
| "sequence_random_access (Multi _ r) = r"

text \<open>The fields of \<open>ImageInfo\<close> and \<open>OutputInfo\<close> that the checks read.\<close>

record probe_info =
  pi_width :: u32
  pi_height :: u32
  pi_sequence :: image_sequence

definition probe_frame_count :: "probe_info \<Rightarrow> u32 option" where
  "probe_frame_count i = sequence_count (pi_sequence i)"

record output_dims =
  od_width :: u32
  od_height :: u32

subsection \<open>The checks\<close>

text \<open>One cap: \<open>if let Some(max) = cap && actual > max { return Err(..) }\<close>.\<close>

definition check_cap ::
    "('n::linorder \<Rightarrow> 'n \<Rightarrow> limit_exceeded) \<Rightarrow> 'n option \<Rightarrow> 'n \<Rightarrow> limit_exceeded + unit" where
  "check_cap mk cap actual = (case cap of None \<Rightarrow> Ok ()
     | Some m \<Rightarrow> if actual > m then Err (mk actual m) else Ok ())"

text \<open>\<open>width as u64 * height as u64\<close>: the product wraps at 64 bits.\<close>

definition pixel_count :: "u32 \<Rightarrow> u32 \<Rightarrow> u64" where
  "pixel_count w h = ucast w * ucast h"

definition check_dimensions :: "resource_limits \<Rightarrow> u32 \<Rightarrow> u32 \<Rightarrow> limit_exceeded + unit" where
  "check_dimensions l w h =
     and_then (check_cap LWidth (max_width l) w) (\<lambda>_.
     and_then (check_cap LHeight (max_height l) h) (\<lambda>_.
     check_cap LPixels (max_pixels l) (pixel_count w h)))"

definition check_memory :: "resource_limits \<Rightarrow> u64 \<Rightarrow> limit_exceeded + unit" where
  "check_memory l n = check_cap LMemory (max_memory_bytes l) n"

definition check_input_size :: "resource_limits \<Rightarrow> u64 \<Rightarrow> limit_exceeded + unit" where
  "check_input_size l n = check_cap LInputSize (max_input_bytes l) n"

definition check_output_size :: "resource_limits \<Rightarrow> u64 \<Rightarrow> limit_exceeded + unit" where
  "check_output_size l n = check_cap LOutputSize (max_output_bytes l) n"

definition check_frames :: "resource_limits \<Rightarrow> u32 \<Rightarrow> limit_exceeded + unit" where
  "check_frames l n = check_cap LFrames (max_frames l) n"

definition check_animation_ms :: "resource_limits \<Rightarrow> u64 \<Rightarrow> limit_exceeded + unit" where
  "check_animation_ms l ms = check_cap LDuration (max_animation_ms l) ms"

definition check_total_pixels :: "resource_limits \<Rightarrow> u64 \<Rightarrow> limit_exceeded + unit" where
  "check_total_pixels l n = check_cap LTotalPixels (max_total_pixels l) n"

text \<open>
  \<open>let total = info.width as u64 * info.height as u64 * count as u64\<close>: two unchecked
  products. A release build wraps; a build with overflow checks panics where this wraps.
\<close>

definition total_pixel_count :: "u32 \<Rightarrow> u32 \<Rightarrow> u32 \<Rightarrow> u64" where
  "total_pixel_count w h n = pixel_count w h * ucast n"

definition check_image_info :: "resource_limits \<Rightarrow> probe_info \<Rightarrow> limit_exceeded + unit" where
  "check_image_info l i =
     and_then (check_dimensions l (pi_width i) (pi_height i)) (\<lambda>_.
     case probe_frame_count i of
       None \<Rightarrow> Ok ()
     | Some n \<Rightarrow>
         and_then (check_cap LFrames (max_frames l) n) (\<lambda>_.
         check_cap LTotalPixels (max_total_pixels l)
           (total_pixel_count (pi_width i) (pi_height i) n)))"

definition check_output_info :: "resource_limits \<Rightarrow> output_dims \<Rightarrow> limit_exceeded + unit" where
  "check_output_info l i = check_dimensions l (od_width i) (od_height i)"

subsection \<open>Arithmetic of the products\<close>

lemma u32_bound: "unat (w::u32) < 2 ^ 32"
  using unsigned_less [of w, where ?'a = nat] by simp

lemma unat_ucast_32_64 [simp]: "unat (ucast (w::u32) :: u64) = unat w"
proof -
  have "unat w < 2 ^ 32" by (rule u32_bound)
  then show ?thesis by (simp add: unsigned_ucast_eq take_bit_nat_eq_self)
qed

lemma unat_pixel_count: "unat (pixel_count w h) = unat w * unat h"
proof -
  have "unat w < 2 ^ 32" "unat h < 2 ^ 32" by (rule u32_bound)+
  then have "unat w * unat h < 2 ^ 32 * 2 ^ 32" by (rule mult_strict_mono) simp_all
  then show ?thesis by (simp add: pixel_count_def unat_word_ariths)
qed

lemma unat_total_pixel_count:
  "unat (total_pixel_count w h n) = (unat w * unat h * unat n) mod 2 ^ 64"
  by (simp add: total_pixel_count_def unat_word_ariths unat_pixel_count)

subsection \<open>When each check accepts\<close>

definition within :: "'n::len word option \<Rightarrow> nat \<Rightarrow> bool" where
  "within cap n \<longleftrightarrow> (\<forall>m. cap = Some m \<longrightarrow> n \<le> unat m)"

lemma within_simps [simp]: "within None n" "within (Some m) n \<longleftrightarrow> n \<le> unat m"
  by (auto simp: within_def)

lemma check_cap_Ok: "check_cap mk cap n = Ok () \<longleftrightarrow> within cap (unat n)" for n :: "'n::len word"
  by (auto simp: check_cap_def word_less_nat_alt split: option.splits)

lemma check_cap_Err:
  "check_cap mk cap n = Err e \<longleftrightarrow> (\<exists>m. cap = Some m \<and> m < n \<and> e = mk n m)"
  by (auto simp: check_cap_def split: option.splits if_splits)

lemma unit_result: "r = Ok () \<or> (\<exists>e. r = Err e)" for r :: "'e + unit"
  by (cases r) auto

lemma check_dimensions_Ok:
  "check_dimensions l w h = Ok () \<longleftrightarrow>
     within (max_width l) (unat w) \<and> within (max_height l) (unat h)
     \<and> within (max_pixels l) (unat w * unat h)"
  by (simp add: check_dimensions_def check_cap_Ok unat_pixel_count)

lemma check_image_info_Ok:
  "check_image_info l i = Ok () \<longleftrightarrow>
     check_dimensions l (pi_width i) (pi_height i) = Ok ()
     \<and> (\<forall>n. probe_frame_count i = Some n \<longrightarrow> within (max_frames l) (unat n)
          \<and> within (max_total_pixels l)
              ((unat (pi_width i) * unat (pi_height i) * unat n) mod 2 ^ 64))"
  by (auto simp: check_image_info_def check_cap_Ok unat_total_pixel_count split: option.splits)

text \<open>The frames of a probed image, when they are known.\<close>

definition total_pixels_of :: "probe_info \<Rightarrow> u32 \<Rightarrow> nat" where
  "total_pixels_of i n = unat (pi_width i) * unat (pi_height i) * unat n"

text \<open>What accepting a probed image should mean: no cap is exceeded, over the naturals.\<close>

definition image_within :: "resource_limits \<Rightarrow> probe_info \<Rightarrow> bool" where
  "image_within l i \<longleftrightarrow>
     within (max_width l) (unat (pi_width i)) \<and> within (max_height l) (unat (pi_height i))
     \<and> within (max_pixels l) (unat (pi_width i) * unat (pi_height i))
     \<and> (\<forall>n. probe_frame_count i = Some n \<longrightarrow>
          within (max_frames l) (unat n) \<and> within (max_total_pixels l) (total_pixels_of i n))"

lemma total_pixels_fit:
  assumes "unat (pi_width i) * unat (pi_height i) \<le> p" and "unat n \<le> f" and "p * f < 2 ^ 64"
  shows "total_pixels_of i n < 2 ^ 64"
proof -
  have "total_pixels_of i n \<le> p * f"
    unfolding total_pixels_of_def using assms(1,2) by (rule mult_le_mono)
  with assms(3) show ?thesis by simp
qed

text \<open>
  with per-frame and frame-count caps whose product fits 64 bits, the check accepts
  exactly the images that exceed no cap: the wrapping product cannot be reached.
\<close>

theorem check_image_info_exact:
  assumes "max_pixels l = Some p" and "max_frames l = Some f" and "unat p * unat f < 2 ^ 64"
  shows "check_image_info l i = Ok () \<longleftrightarrow> image_within l i"
proof (cases "unat (pi_width i) * unat (pi_height i) \<le> unat p")
  case False
  with assms show ?thesis
    by (simp add: check_image_info_Ok image_within_def check_dimensions_Ok)
next
  case True
  have "total_pixels_of i n mod 2 ^ 64 = total_pixels_of i n" if "unat n \<le> unat f" for n
    using total_pixels_fit [OF True that assms(3)] by (rule mod_less)
  then show ?thesis using assms
    by (auto simp: check_image_info_Ok image_within_def check_dimensions_Ok total_pixels_of_def)
qed

theorem check_image_info_exact_witness:
  "check_image_info for_untrusted_input
     \<lparr> pi_width = 4000, pi_height = 3000, pi_sequence = Animation (Some 10) None True \<rparr> = Ok ()
   \<longleftrightarrow> image_within for_untrusted_input
     \<lparr> pi_width = 4000, pi_height = 3000, pi_sequence = Animation (Some 10) None True \<rparr>"
  by (rule check_image_info_exact [where p = 120000000 and f = 65536])
    (simp_all add: for_untrusted_input_def)

text \<open>
  the preset for untrusted input. An image it accepts has sides of at most 16384, at most
  120 million pixels a frame and, when its frame count is known, at most 65536 frames and
  200 million pixels over all frames, with the products taken over the naturals.
\<close>

theorem untrusted_preset_bounds:
  assumes "check_image_info for_untrusted_input i = Ok ()"
  shows "unat (pi_width i) \<le> 16384 \<and> unat (pi_height i) \<le> 16384
    \<and> unat (pi_width i) * unat (pi_height i) \<le> 120000000
    \<and> (\<forall>n. probe_frame_count i = Some n \<longrightarrow> unat n \<le> 65536 \<and> total_pixels_of i n \<le> 200000000)"
proof -
  have fit: "total_pixels_of i n < 2 ^ 64"
    if "unat (pi_width i) * unat (pi_height i) \<le> 120000000" "unat n \<le> 65536" for n
    using that by (rule total_pixels_fit) simp
  show ?thesis using assms fit
    by (auto simp: check_image_info_Ok check_dimensions_Ok for_untrusted_input_def total_pixels_of_def)
qed

theorem untrusted_preset_bounds_witness:
  "check_image_info for_untrusted_input
     \<lparr> pi_width = 12000, pi_height = 9000, pi_sequence = Single \<rparr> = Ok ()
   \<and> unat (12000 :: u32) * unat (9000 :: u32) \<le> 120000000"
proof -
  have ok: "check_image_info for_untrusted_input
      \<lparr> pi_width = 12000, pi_height = 9000, pi_sequence = Single \<rparr> = Ok ()"
    by (simp add: check_image_info_Ok check_dimensions_Ok for_untrusted_input_def probe_frame_count_def)
  with untrusted_preset_bounds [OF ok] show ?thesis by simp
qed

text \<open>
  C38: \<open>check_image_info\<close> never refuses an image that exceeds no cap, and it accepts an image that
  exceeds one in exactly one situation: only \<open>max_total_pixels\<close> is exceeded, and the 64-bit product
  of width, height and frames wraps to a value that does not exceed it (limits.rs:609-625, compiled
  without overflow checks). The witness is an animation of \<open>2^64\<close> pixels in four frames.
\<close>

theorem total_pixels_check_wraps:
  "(image_within l i \<longrightarrow> check_image_info l i = Ok ())
   \<and> (check_image_info l i = Ok () \<and> \<not> image_within l i \<longleftrightarrow>
        image_within (l\<lparr>max_total_pixels := None\<rparr>) i
        \<and> (\<exists>n m. probe_frame_count i = Some n \<and> max_total_pixels l = Some m
             \<and> 2 ^ 64 \<le> total_pixels_of i n \<and> total_pixels_of i n mod 2 ^ 64 \<le> unat m))"
proof -
  have cap: "unat m < 2 ^ 64" for m :: u64
    using unsigned_less [of m, where ?'a = nat] by simp
  have fits: "within (max_total_pixels l) (k mod 2 ^ 64)" if "within (max_total_pixels l) k" for k
    using that by (auto simp: within_def intro: order_trans [OF mod_less_eq_dividend])
  have wraps: "within (max_total_pixels l) (k mod 2 ^ 64) \<and> \<not> within (max_total_pixels l) k \<longleftrightarrow>
      (\<exists>m. max_total_pixels l = Some m \<and> 2 ^ 64 \<le> k \<and> k mod 2 ^ 64 \<le> unat m)" for k
  proof -
    have "\<not> k \<le> unat m" if "2 ^ 64 \<le> k" for m :: u64 using that cap [of m] by linarith
    moreover have "2 ^ 64 \<le> k" if "k mod 2 ^ 64 \<le> unat m" "\<not> k \<le> unat m" for m :: u64
      using that by (metis mod_less not_le)
    ultimately show ?thesis by (auto simp: within_def)
  qed
  show ?thesis
  proof (cases "probe_frame_count i")
    case None
    then show ?thesis by (simp add: check_image_info_Ok image_within_def check_dimensions_Ok)
  next
    case (Some n)
    show ?thesis
      using fits [of "total_pixels_of i n"] wraps [of "total_pixels_of i n"] Some
      by (auto simp: check_image_info_Ok image_within_def check_dimensions_Ok total_pixels_of_def)
  qed
qed

theorem total_pixels_check_wraps_witness:
  "check_image_info (with_max_total_pixels 1000 limits_none)
     \<lparr> pi_width = 2147483648, pi_height = 2147483648, pi_sequence = Animation (Some 4) None False \<rparr> = Ok ()
   \<and> \<not> image_within (with_max_total_pixels 1000 limits_none)
     \<lparr> pi_width = 2147483648, pi_height = 2147483648, pi_sequence = Animation (Some 4) None False \<rparr>"
proof -
  let ?l = "with_max_total_pixels 1000 limits_none"
  let ?i = "\<lparr> pi_width = 2147483648, pi_height = 2147483648, pi_sequence = Animation (Some 4) None False \<rparr>"
  have "image_within (?l\<lparr>max_total_pixels := None\<rparr>) ?i"
    "probe_frame_count ?i = Some 4" "max_total_pixels ?l = Some 1000"
    by (simp_all add: image_within_def with_max_total_pixels_def limits_none_def probe_frame_count_def)
  moreover have "2 ^ 64 \<le> total_pixels_of ?i 4" "total_pixels_of ?i 4 mod 2 ^ 64 \<le> unat (1000 :: u64)"
    by (simp_all add: total_pixels_of_def)
  ultimately show ?thesis using total_pixels_check_wraps [of ?l ?i] by blast
qed

text \<open>What a rejection reports: the cap it names is set, the value is the image's, and is above it.\<close>

fun reports :: "resource_limits \<Rightarrow> probe_info \<Rightarrow> limit_exceeded \<Rightarrow> bool" where
  "reports l i (LWidth a m) \<longleftrightarrow> max_width l = Some m \<and> a = pi_width i \<and> m < a"
| "reports l i (LHeight a m) \<longleftrightarrow> max_height l = Some m \<and> a = pi_height i \<and> m < a"
| "reports l i (LPixels a m) \<longleftrightarrow> max_pixels l = Some m
     \<and> unat a = unat (pi_width i) * unat (pi_height i) \<and> m < a"
| "reports l i (LFrames a m) \<longleftrightarrow> max_frames l = Some m \<and> probe_frame_count i = Some a \<and> m < a"
| "reports l i (LTotalPixels a m) \<longleftrightarrow> max_total_pixels l = Some m \<and> m < a
     \<and> (\<exists>n. probe_frame_count i = Some n \<and> unat a = total_pixels_of i n mod 2 ^ 64)"
| "reports l i _ \<longleftrightarrow> False"

lemma check_dimensions_Err:
  "check_dimensions l (pi_width i) (pi_height i) = Err e \<Longrightarrow> reports l i e"
  by (auto simp: check_dimensions_def and_then_Err check_cap_Err unat_pixel_count)

text \<open>
  a rejected image is rejected for a reason that holds of it: the error names a cap that
  is set and carries the image's own value, above that cap; no error of another kind
  (memory, input, output, duration) comes out of this check.
\<close>

theorem check_image_info_error_reports:
  assumes "check_image_info l i = Err e"
  shows "reports l i e"
proof -
  from assms consider "check_dimensions l (pi_width i) (pi_height i) = Err e"
    | n where "probe_frame_count i = Some n" "check_cap LFrames (max_frames l) n = Err e"
    | n where "probe_frame_count i = Some n"
      "check_cap LTotalPixels (max_total_pixels l)
         (total_pixel_count (pi_width i) (pi_height i) n) = Err e"
    by (auto simp: check_image_info_def and_then_Err split: option.splits)
  then show ?thesis
    by cases (auto simp: check_dimensions_Err check_cap_Err unat_total_pixel_count total_pixels_of_def)
qed

theorem check_image_info_error_reports_witness:
  "reports for_untrusted_input \<lparr> pi_width = 20000, pi_height = 10, pi_sequence = Single \<rparr>
     (LWidth 20000 16384)"
  by (rule check_image_info_error_reports)
    (simp add: check_image_info_def check_dimensions_def check_cap_def for_untrusted_input_def)

end
