(* ===== verification/Timing.thy ===== *)
theory Timing
  imports Prelude Complex_Main
begin

text \<open>
  Exact media time: \<open>FrameDuration\<close> of \<open>src/src/animation.rs\<close> and \<open>TimeBase\<close>, \<open>Timestamp\<close>
  and the conversions of \<open>src/src/time.rs\<close>. Tick counts and cross products are \<^typ>\<open>nat\<close>
  and \<^typ>\<open>int\<close> with the width checked or wrapped where the code does; \<open>seconds\<close> and
  \<open>instant\<close> give each value its rational meaning, and the lemmas relate every operation
  to that meaning.
\<close>

datatype timing_error = ZeroDenominator | Inexact | Overflow | Negative

subsection \<open>Euclid's loop\<close>

text \<open>The loop \<open>while b != 0 { (a, b) = (b, a % b) }\<close>, written four times in the two files.\<close>

fun euclid :: "nat \<Rightarrow> nat \<Rightarrow> nat" where
  "euclid a b = (if b \<noteq> 0 then euclid b (a mod b) else a)"

declare euclid.simps [simp del]

lemma euclid_gcd [simp]: "euclid a b = gcd a b"
proof (induction a b rule: euclid.induct)
  case (1 a b)
  then show ?case
    by (cases "b = 0") (simp_all add: euclid.simps [of a] gcd_red_nat [of a b])
qed

subsection \<open>Frame durations\<close>

record frame_duration =
  fd_num :: nat
  fd_den :: nat

definition frame_duration_new :: "nat \<Rightarrow> nat \<Rightarrow> timing_error + frame_duration" where
  "frame_duration_new n d =
     (if d = 0 then Err ZeroDenominator
      else let a = euclid n d in
        Ok \<lparr> fd_num = n div a, fd_den = wrap u32_max (d div a) \<rparr>)"

definition from_millis :: "nat \<Rightarrow> timing_error + frame_duration" where
  "from_millis ms = frame_duration_new ms 1000"

definition ticks_at :: "frame_duration \<Rightarrow> nat \<Rightarrow> timing_error + nat" where
  "ticks_at d hz =
     (if hz = 0 then Err ZeroDenominator
      else let scaled = fd_num d * hz; divisor = fd_den d in
        if \<not> divisor dvd scaled then Err Inexact
        else ok_or Overflow (try_into u64_max (scaled div divisor)))"

definition legacy_millis :: "frame_duration \<Rightarrow> nat" where
  "legacy_millis d = min (fd_num d * 1000 div fd_den d) u32_max"

text \<open>What \<open>FrameDuration\<close> values satisfy: reduced, positive denominator, in range.\<close>

definition wf_duration :: "frame_duration \<Rightarrow> bool" where
  "wf_duration d \<longleftrightarrow> 0 < fd_den d \<and> coprime (fd_num d) (fd_den d)
     \<and> fd_num d \<le> u64_max \<and> fd_den d \<le> u32_max"

definition seconds :: "frame_duration \<Rightarrow> rat" where
  "seconds d = of_nat (fd_num d) / of_nat (fd_den d)"

subsection \<open>Time bases and timestamps\<close>

record time_base =
  tb_num :: nat
  tb_den :: nat

definition time_base_new :: "nat \<Rightarrow> nat \<Rightarrow> timing_error + time_base" where
  "time_base_new n d =
     (if n = 0 \<or> d = 0 then Err ZeroDenominator
      else let g = euclid n d in
        if n div g \<noteq> 0 \<and> d div g \<noteq> 0 then Ok \<lparr> tb_num = n div g, tb_den = d div g \<rparr>
        else Err ZeroDenominator)"

definition time_base_hz :: "nat \<Rightarrow> timing_error + time_base" where
  "time_base_hz n = time_base_new 1 n"

definition millis_base :: time_base where
  "millis_base = \<lparr> tb_num = 1, tb_den = 1000 \<rparr>"

definition seconds_base :: time_base where
  "seconds_base = \<lparr> tb_num = 1, tb_den = 1 \<rparr>"

datatype rounding = Floor | Ceil | Nearest

record timestamp =
  ts_ticks :: int
  ts_base :: time_base

datatype ordering = Less | Equal | Greater

definition cmp_int :: "int \<Rightarrow> int \<Rightarrow> ordering" where
  "cmp_int a b = (if a < b then Less else if a = b then Equal else Greater)"

text \<open>
  \<open>i128\<close> arithmetic wraps in a release build (and panics where it would wrap in a build with
  overflow checks); \<open>i64::try_from\<close> is checked.
\<close>

definition i128_wrap :: "int \<Rightarrow> int" where
  "i128_wrap x = (x + 2 ^ 127) mod 2 ^ 128 - 2 ^ 127"

definition try_i64 :: "int \<Rightarrow> int option" where
  "try_i64 x = (if - (2 ^ 63) \<le> x \<and> x < 2 ^ 63 then Some x else None)"

lemma try_i64_Some [simp]: "try_i64 x = Some y \<longleftrightarrow> y = x \<and> - (2 ^ 63) \<le> x \<and> x < 2 ^ 63"
  by (auto simp: try_i64_def)

definition ts_compare :: "timestamp \<Rightarrow> timestamp \<Rightarrow> ordering" where
  "ts_compare a b =
     cmp_int
       (i128_wrap (ts_ticks a * int (tb_num (ts_base a)) * int (tb_den (ts_base b))))
       (i128_wrap (ts_ticks b * int (tb_num (ts_base b)) * int (tb_den (ts_base a))))"

definition same_instant :: "timestamp \<Rightarrow> timestamp \<Rightarrow> bool" where
  "same_instant a b \<longleftrightarrow> ts_compare a b = Equal"

definition round_up :: "rounding \<Rightarrow> int \<Rightarrow> int \<Rightarrow> bool" where
  "round_up r rem den = (case r of
     Floor \<Rightarrow> False | Ceil \<Rightarrow> rem \<noteq> 0 | Nearest \<Rightarrow> rem * 2 \<ge> den)"

text \<open>\<open>den\<close> is positive, so \<open>div_euclid\<close> and \<open>rem_euclid\<close> are HOL's \<open>div\<close> and \<open>mod\<close>.\<close>

definition rescale :: "timestamp \<Rightarrow> time_base \<Rightarrow> rounding \<Rightarrow> timing_error + timestamp" where
  "rescale t target r =
     (let num = i128_wrap (ts_ticks t * int (tb_num (ts_base t)) * int (tb_den target));
          den = i128_wrap (int (tb_den (ts_base t)) * int (tb_num target));
          fl = num div den;
          rem = num mod den
      in and_then (ok_or Overflow (try_i64 (fl + of_bool (round_up r rem den))))
           (\<lambda>ticks. Ok \<lparr> ts_ticks = ticks, ts_base = target \<rparr>))"

definition duration_to_ticks :: "frame_duration \<Rightarrow> time_base \<Rightarrow> timing_error + nat" where
  "duration_to_ticks d b =
     (let n = fd_num d * tb_den b; k = fd_den d * tb_num b in
      if \<not> k dvd n then Err Inexact
      else ok_or Overflow (try_into u64_max (n div k)))"

definition ticks_to_duration :: "nat \<Rightarrow> time_base \<Rightarrow> timing_error + frame_duration" where
  "ticks_to_duration ticks b =
     (let num = ticks * tb_num b; den = tb_den b; g = max (euclid num den) 1 in
      and_then (ok_or Overflow (try_into u64_max (num div g)))
        (\<lambda>n. frame_duration_new n (wrap u32_max (den div g))))"

definition ts_checked_add :: "timestamp \<Rightarrow> frame_duration \<Rightarrow> timing_error + timestamp" where
  "ts_checked_add t d =
     and_then (duration_to_ticks d (ts_base t)) (\<lambda>ticks.
     and_then (ok_or Overflow (try_i64 (ts_ticks t + int ticks))) (\<lambda>s.
     Ok \<lparr> ts_ticks = s, ts_base = ts_base t \<rparr>))"

definition duration_until :: "timestamp \<Rightarrow> timestamp \<Rightarrow> timing_error + frame_duration" where
  "duration_until a later =
     (let l = i128_wrap (ts_ticks later * int (tb_num (ts_base later)) * int (tb_den (ts_base a)));
          s = i128_wrap (ts_ticks a * int (tb_num (ts_base a)) * int (tb_den (ts_base later)));
          num = i128_wrap (l - s)
      in if num < 0 then Err Negative
         else let n = nat num;
                  den = tb_den (ts_base later) * tb_den (ts_base a);
                  g = max (euclid n den) 1
              in and_then (ok_or Overflow (try_into u64_max (n div g))) (\<lambda>n'.
                 and_then (ok_or Overflow (try_into u32_max (den div g))) (\<lambda>d'.
                 frame_duration_new n' d')))"

definition wf_base :: "time_base \<Rightarrow> bool" where
  "wf_base b \<longleftrightarrow> 0 < tb_num b \<and> 0 < tb_den b \<and> coprime (tb_num b) (tb_den b)
     \<and> tb_num b \<le> u32_max \<and> tb_den b \<le> u32_max"

definition wf_timestamp :: "timestamp \<Rightarrow> bool" where
  "wf_timestamp t \<longleftrightarrow> wf_base (ts_base t) \<and> - (2 ^ 63) \<le> ts_ticks t \<and> ts_ticks t < 2 ^ 63"

definition tick :: "time_base \<Rightarrow> rat" where
  "tick b = of_nat (tb_num b) / of_nat (tb_den b)"

definition instant :: "timestamp \<Rightarrow> rat" where
  "instant t = of_int (ts_ticks t) * tick (ts_base t)"

subsection \<open>Reduced fractions\<close>

lemma div_ratio:
  "0 < g \<Longrightarrow> g dvd n \<Longrightarrow> g dvd d \<Longrightarrow>
    (of_nat (n div g) :: rat) / of_nat (d div g) = of_nat n / of_nat d"
  by (auto elim!: dvdE)

lemma reduced_eqI:
  assumes "coprime a b" "coprime c d" "0 < b" "0 < d"
    and "(of_nat a :: rat) / of_nat b = of_nat c / of_nat d"
  shows "a = c \<and> b = d"
proof -
  from assms have "(of_nat (a * d) :: rat) = of_nat (c * b)"
    by (simp add: frac_eq_eq)
  then have "a * d = c * b" by (simp only: of_nat_eq_iff)
  with assms(1,2) show ?thesis
    using coprime_crossproduct_nat [of a b c d] by simp
qed

lemma div_gcd_pos: "0 < d \<Longrightarrow> 0 < d div gcd n d" for d :: nat
  by (simp add: div_greater_zero_iff dvd_imp_le)

lemma coprime_div_gcd: "0 < d \<Longrightarrow> coprime (n div gcd n d) (d div gcd n d)" for d :: nat
  by (rule div_gcd_coprime) simp

lemma max_gcd: "0 < d \<Longrightarrow> max (gcd n d) 1 = gcd n d" for d :: nat
proof -
  assume "0 < d"
  then have "1 \<le> gcd n d" by (simp add: Suc_le_eq)
  then show ?thesis by (rule max_absorb1)
qed

lemma frame_duration_new_Ok:
  assumes "0 < d" "d \<le> u32_max"
  shows "frame_duration_new n d = Ok \<lparr> fd_num = n div gcd n d, fd_den = d div gcd n d \<rparr>"
proof -
  have "d div gcd n d \<le> u32_max" using assms(2) div_le_dividend le_trans by blast
  with assms(1) show ?thesis by (simp add: frame_duration_new_def Let_def)
qed

lemma frame_duration_new_seconds:
  assumes "frame_duration_new n d = Ok x" "d \<le> u32_max"
  shows "0 < d \<and> seconds x = of_nat n / of_nat d"
proof -
  from assms(1) have d: "0 < d" by (cases "d = 0") (simp_all add: frame_duration_new_def)
  with assms have "x = \<lparr> fd_num = n div gcd n d, fd_den = d div gcd n d \<rparr>"
    by (simp add: frame_duration_new_Ok)
  with d show ?thesis by (simp add: seconds_def div_ratio)
qed

lemma frame_duration_new_wf:
  assumes "frame_duration_new n d = Ok x" "n \<le> u64_max" "d \<le> u32_max"
  shows "wf_duration x"
proof -
  from assms(1) have d: "0 < d" by (cases "d = 0") (simp_all add: frame_duration_new_def)
  with assms have x: "x = \<lparr> fd_num = n div gcd n d, fd_den = d div gcd n d \<rparr>"
    by (simp add: frame_duration_new_Ok)
  have "n div gcd n d \<le> u64_max" "d div gcd n d \<le> u32_max"
    using assms(2,3) div_le_dividend le_trans by blast+
  with x d show ?thesis
    by (simp add: wf_duration_def coprime_div_gcd div_gcd_pos)
qed

lemma wf_duration_eqI: "wf_duration x \<Longrightarrow> wf_duration y \<Longrightarrow> seconds x = seconds y \<Longrightarrow> x = y"
  using reduced_eqI [of "fd_num x" "fd_den x" "fd_num y" "fd_den y"]
  by (simp add: wf_duration_def seconds_def)

lemma seconds_pos_den: "wf_duration d \<Longrightarrow> 0 \<le> seconds d"
  by (simp add: seconds_def)

lemma frame_duration_new_of_wf:
  "wf_duration x \<Longrightarrow> (of_nat n :: rat) / of_nat d = seconds x \<Longrightarrow> 0 < d \<Longrightarrow>
     n div gcd n d = fd_num x \<and> d div gcd n d = fd_den x"
  using reduced_eqI [of "n div gcd n d" "d div gcd n d" "fd_num x" "fd_den x"]
  by (simp add: coprime_div_gcd div_gcd_pos div_ratio wf_duration_def seconds_def)

lemma time_base_new_wf:
  assumes "time_base_new n d = Ok b" "n \<le> u32_max" "d \<le> u32_max"
  shows "wf_base b \<and> tick b = of_nat n / of_nat d"
proof -
  from assms(1) have pos: "0 < n" "0 < d"
    and b: "b = \<lparr> tb_num = n div gcd n d, tb_den = d div gcd n d \<rparr>"
    by (auto simp: time_base_new_def Let_def split: if_splits)
  have "n div gcd n d \<le> u32_max" "d div gcd n d \<le> u32_max"
    using assms(2,3) div_le_dividend le_trans by blast+
  moreover have "0 < n div gcd n d" using div_gcd_pos [OF pos(1), of d] by (simp add: gcd.commute)
  ultimately show ?thesis using pos b
    by (simp add: wf_base_def coprime_div_gcd div_gcd_pos tick_def div_ratio)
qed

subsection \<open>The 128-bit products\<close>

lemma i128_wrap_id: "- (2 ^ 127) \<le> x \<Longrightarrow> x < 2 ^ 127 \<Longrightarrow> i128_wrap x = x"
  by (simp add: i128_wrap_def)

lemma cross_bound:
  assumes "- (2 ^ 63) \<le> t" "t < 2 ^ 63" "n \<le> u32_max" "d \<le> u32_max"
  shows "\<bar>t * int n * int d\<bar> < 2 ^ 127"
proof -
  have "n * d \<le> u32_max * u32_max" using assms(3,4) by (rule mult_le_mono)
  then have "int n * int d \<le> int (u32_max * u32_max)" by (simp flip: of_nat_mult)
  moreover have "\<bar>t\<bar> \<le> 2 ^ 63" using assms(1,2) by simp
  ultimately have "\<bar>t\<bar> * (int n * int d) \<le> 2 ^ 63 * int (u32_max * u32_max)"
    by (intro mult_mono) simp_all
  also have "\<dots> < 2 ^ 127" by (simp add: u32_max_def)
  finally show ?thesis by (simp add: abs_mult mult.assoc)
qed

lemma i128_cross:
  assumes "wf_timestamp t" "wf_base b"
  shows "i128_wrap (ts_ticks t * int (tb_num (ts_base t)) * int (tb_den b))
    = ts_ticks t * int (tb_num (ts_base t)) * int (tb_den b)"
proof -
  have "\<bar>ts_ticks t * int (tb_num (ts_base t)) * int (tb_den b)\<bar> < 2 ^ 127"
    using assms by (intro cross_bound) (simp_all add: wf_timestamp_def wf_base_def)
  then show ?thesis by (intro i128_wrap_id) simp_all
qed

lemma i128_den:
  assumes "wf_base a" "wf_base b"
  shows "i128_wrap (int (tb_den a) * int (tb_num b)) = int (tb_den a) * int (tb_num b)"
proof -
  have "\<bar>1 * int (tb_den a) * int (tb_num b)\<bar> < 2 ^ 127"
    using assms by (intro cross_bound) (simp_all add: wf_base_def)
  moreover have "- (2 ^ 127) \<le> (0::int)" "0 \<le> int (tb_den a) * int (tb_num b)" by simp_all
  ultimately show ?thesis
    by (intro i128_wrap_id) (use order_trans in \<open>blast, simp\<close>)
qed

lemma tick_pos [simp]: "wf_base b \<Longrightarrow> 0 < tick b"
  by (simp add: tick_def wf_base_def)

subsection \<open>Comparison and rescaling over the rationals\<close>

definition cmp_rat :: "rat \<Rightarrow> rat \<Rightarrow> ordering" where
  "cmp_rat x y = (if x < y then Less else if x = y then Equal else Greater)"

text \<open>
  \<open>Timestamp::compare\<close> is the order of the physical instants, whatever the clocks, and
  the 128-bit products never wrap on timestamps the type can hold.
\<close>

theorem ts_compare_instant:
  assumes "wf_timestamp a" "wf_timestamp b"
  shows "ts_compare a b = cmp_rat (instant a) (instant b)"
proof -
  have pos: "0 < tb_den (ts_base a)" "0 < tb_den (ts_base b)"
    using assms by (simp_all add: wf_timestamp_def wf_base_def)
  let ?l = "ts_ticks a * int (tb_num (ts_base a)) * int (tb_den (ts_base b))"
  let ?r = "ts_ticks b * int (tb_num (ts_base b)) * int (tb_den (ts_base a))"
  have "instant a < instant b \<longleftrightarrow> (of_int ?l :: rat) < of_int ?r"
    "instant a = instant b \<longleftrightarrow> (of_int ?l :: rat) = of_int ?r"
    using pos by (simp_all add: instant_def tick_def field_simps)
  then have "cmp_rat (instant a) (instant b) = cmp_int ?l ?r"
    by (simp only: cmp_rat_def cmp_int_def of_int_less_iff of_int_eq_iff)
  moreover have "wf_base (ts_base a)" "wf_base (ts_base b)"
    using assms by (simp_all add: wf_timestamp_def)
  ultimately show ?thesis using assms by (simp add: ts_compare_def i128_cross)
qed

theorem ts_compare_instant_witness:
  "ts_compare \<lparr> ts_ticks = 3, ts_base = \<lparr> tb_num = 1, tb_den = 1000 \<rparr> \<rparr>
     \<lparr> ts_ticks = 30, ts_base = \<lparr> tb_num = 1, tb_den = 10000 \<rparr> \<rparr> = Equal"
proof -
  have "ts_compare \<lparr> ts_ticks = 3, ts_base = \<lparr> tb_num = 1, tb_den = 1000 \<rparr> \<rparr>
     \<lparr> ts_ticks = 30, ts_base = \<lparr> tb_num = 1, tb_den = 10000 \<rparr> \<rparr> =
    cmp_rat (instant \<lparr> ts_ticks = 3, ts_base = \<lparr> tb_num = 1, tb_den = 1000 \<rparr> \<rparr>)
     (instant \<lparr> ts_ticks = 30, ts_base = \<lparr> tb_num = 1, tb_den = 10000 \<rparr> \<rparr>)"
    by (rule ts_compare_instant) (simp_all add: wf_timestamp_def wf_base_def u32_max_def)
  then show ?thesis by (simp add: cmp_rat_def instant_def tick_def)
qed

definition rounded :: "rounding \<Rightarrow> rat \<Rightarrow> int" where
  "rounded r x = (case r of Floor \<Rightarrow> \<lfloor>x\<rfloor> | Ceil \<Rightarrow> \<lceil>x\<rceil> | Nearest \<Rightarrow> \<lfloor>x + 1 / 2\<rfloor>)"

lemma rounded_frac:
  assumes "0 \<le> f" "f < 1"
  shows "rounded Floor (of_int q + f) = q"
    and "rounded Ceil (of_int q + f) = q + of_bool (f \<noteq> 0)"
    and "rounded Nearest (of_int q + f) = q + of_bool (1 / 2 \<le> f)"
proof -
  show "rounded Floor (of_int q + f) = q"
    using assms by (simp add: rounded_def floor_unique)
  have "\<lceil>of_int q + f\<rceil> = q + 1" if "f \<noteq> 0"
    using assms that by (intro ceiling_unique) simp_all
  then show "rounded Ceil (of_int q + f) = q + of_bool (f \<noteq> 0)"
    by (simp add: rounded_def)
  have "\<lfloor>of_int q + f + 1 / 2\<rfloor> = q + 1" if "1 / 2 \<le> f"
    using assms that by (intro floor_unique) simp_all
  moreover have "\<lfloor>of_int q + f + 1 / 2\<rfloor> = q" if "\<not> 1 / 2 \<le> f"
    using assms that by (intro floor_unique) simp_all
  ultimately show "rounded Nearest (of_int q + f) = q + of_bool (1 / 2 \<le> f)"
    by (simp add: rounded_def)
qed

lemma rounded_div:
  assumes "0 < den"
  shows "rounded r (of_int num / of_int den)
    = num div den + of_bool (round_up r (num mod den) den)"
proof -
  define f where "f = (of_int (num mod den) :: rat) / of_int den"
  have f: "0 \<le> f" "f < 1" using assms by (simp_all add: f_def)
  have zero: "f \<noteq> 0 \<longleftrightarrow> num mod den \<noteq> 0" using assms by (simp add: f_def)
  have half: "1 / 2 \<le> f \<longleftrightarrow> den \<le> num mod den * 2"
  proof -
    have "1 / 2 \<le> f \<longleftrightarrow> (of_int den :: rat) \<le> of_int (num mod den * 2)"
      using assms by (simp add: f_def field_simps)
    then show ?thesis by (simp only: of_int_le_iff)
  qed
  have "(of_int num :: rat) = of_int (num div den) * of_int den + of_int (num mod den)"
    by (simp flip: of_int_mult of_int_add)
  then have "(of_int num :: rat) / of_int den = of_int (num div den) + f"
    using assms by (simp add: f_def add_divide_distrib)
  then show ?thesis
    using rounded_frac [OF f] zero half by (cases r) (simp_all add: round_up_def)
qed

lemma rescale_eq:
  assumes "wf_timestamp t" "wf_base b"
  shows "rescale t b r =
    (let k = rounded r (instant t / tick b) in
     if - (2 ^ 63) \<le> k \<and> k < 2 ^ 63 then Ok \<lparr> ts_ticks = k, ts_base = b \<rparr> else Err Overflow)"
proof -
  let ?num = "ts_ticks t * int (tb_num (ts_base t)) * int (tb_den b)"
  let ?den = "int (tb_den (ts_base t)) * int (tb_num b)"
  have wb: "wf_base (ts_base t)" using assms by (simp add: wf_timestamp_def)
  have den: "0 < ?den" using wb assms(2) by (simp add: wf_base_def)
  have eq: "instant t / tick b = of_int ?num / of_int ?den"
    by (simp add: instant_def tick_def)
  have "rounded r (instant t / tick b)
      = ?num div ?den + of_bool (round_up r (?num mod ?den) ?den)"
    unfolding eq by (rule rounded_div [OF den])
  then show ?thesis using assms wb
    by (simp add: rescale_def i128_cross i128_den Let_def try_i64_def)
qed

text \<open>
  \<open>Timestamp::rescale\<close> rounds the exact instant, in ticks of the target clock, as the
  rounding mode says (half ticks go up), and refuses exactly when the result does not fit
  64 signed bits.
\<close>

theorem rescale_rounds:
  assumes "wf_timestamp t" "wf_base b"
  shows "rescale t b r =
    (let k = rounded r (instant t / tick b) in
     if - (2 ^ 63) \<le> k \<and> k < 2 ^ 63 then Ok \<lparr> ts_ticks = k, ts_base = b \<rparr> else Err Overflow)"
  by (rule rescale_eq [OF assms])

theorem rescale_rounds_witness:
  "rescale \<lparr> ts_ticks = 1, ts_base = \<lparr> tb_num = 1, tb_den = 16 \<rparr> \<rparr> millis_base Nearest
   = Ok \<lparr> ts_ticks = 63, ts_base = millis_base \<rparr>"
proof -
  have wf: "wf_timestamp \<lparr> ts_ticks = 1, ts_base = \<lparr> tb_num = 1, tb_den = 16 \<rparr> \<rparr>"
    "wf_base millis_base"
    by (simp_all add: wf_timestamp_def wf_base_def u32_max_def millis_base_def)
  have "rounded Nearest (125 / 2) = 63" by (simp add: rounded_def)
  then show ?thesis
    unfolding rescale_rounds [OF wf] by (simp add: instant_def tick_def millis_base_def)
qed

text \<open>
  a rescaling that lost nothing is undone by rescaling back, whatever the rounding modes.
\<close>

theorem rescale_lossless_roundtrip:
  assumes "wf_timestamp t" "wf_base b" "rescale t b r = Ok t'" "instant t' = instant t"
  shows "rescale t' (ts_base t) r' = Ok t"
proof -
  have wb: "wf_base (ts_base t)" using assms(1) by (simp add: wf_timestamp_def)
  have "wf_timestamp t'" using assms(2,3)
    by (auto simp: rescale_eq [OF assms(1,2)] wf_timestamp_def Let_def split: if_splits)
  moreover have "rounded r' (instant t' / tick (ts_base t)) = ts_ticks t"
    using tick_pos [OF wb] assms(4) rounded_frac [of 0 "ts_ticks t"]
    by (cases r') (simp_all add: instant_def)
  ultimately show ?thesis using wb assms(1)
    by (simp add: rescale_eq wf_timestamp_def)
qed

theorem rescale_lossless_roundtrip_witness:
  "rescale \<lparr> ts_ticks = 500, ts_base = millis_base \<rparr> \<lparr> tb_num = 1, tb_den = 2 \<rparr> Ceil
   = Ok \<lparr> ts_ticks = 1, ts_base = \<lparr> tb_num = 1, tb_den = 2 \<rparr> \<rparr>"
proof -
  let ?t = "\<lparr> ts_ticks = 1, ts_base = \<lparr> tb_num = 1, tb_den = 2 \<rparr> \<rparr>"
  let ?u = "\<lparr> ts_ticks = 500, ts_base = millis_base \<rparr>"
  have wf: "wf_timestamp ?t" "wf_base millis_base"
    by (simp_all add: wf_timestamp_def wf_base_def u32_max_def millis_base_def)
  have "rescale ?t millis_base Floor = Ok ?u"
    unfolding rescale_eq [OF wf] by (simp add: instant_def tick_def millis_base_def rounded_def)
  moreover have "instant ?u = instant ?t" by (simp add: instant_def tick_def millis_base_def)
  ultimately show ?thesis
    using rescale_lossless_roundtrip [OF wf, of Floor ?u Ceil] by simp
qed

subsection \<open>Durations and ticks\<close>

lemma wf_duration_pos: "wf_duration d \<Longrightarrow> 0 < fd_den d"
  by (simp add: wf_duration_def)

lemma duration_to_ticks_Ok:
  assumes "wf_duration d" "wf_base b"
  shows "duration_to_ticks d b = Ok m \<longleftrightarrow> seconds d = of_nat m * tick b \<and> m \<le> u64_max"
proof -
  let ?n = "fd_num d * tb_den b" and ?k = "fd_den d * tb_num b"
  have pos: "0 < fd_den d" "0 < tb_den b" "0 < tb_num b"
    using assms by (simp_all add: wf_duration_def wf_base_def)
  have "seconds d = of_nat m * tick b \<longleftrightarrow> (of_nat ?n :: rat) = of_nat (m * ?k)"
    using pos by (simp add: seconds_def tick_def field_simps)
  also have "\<dots> \<longleftrightarrow> ?n = m * ?k" by (simp only: of_nat_eq_iff)
  also have "\<dots> \<longleftrightarrow> ?k dvd ?n \<and> ?n div ?k = m"
  proof
    assume eq: "?n = m * ?k"
    have "0 < ?k" using pos by simp
    then show "?k dvd ?n \<and> ?n div ?k = m"
      unfolding eq by (intro conjI dvd_triv_right nonzero_mult_div_cancel_right) simp
  next
    assume "?k dvd ?n \<and> ?n div ?k = m"
    then show "?n = m * ?k" by (metis dvd_div_mult_self)
  qed
  finally show ?thesis
    by (auto simp: duration_to_ticks_def Let_def)
qed

lemma frame_duration_new_wf_id:
  "wf_duration d \<Longrightarrow> frame_duration_new (fd_num d) (fd_den d) = Ok d"
  by (simp add: wf_duration_def frame_duration_new_Ok coprime_iff_gcd_eq_1)

lemma ticks_to_duration_Ok:
  assumes "wf_base b" "ticks_to_duration n b = Ok d"
  shows "wf_duration d \<and> seconds d = of_nat n * tick b"
proof -
  let ?g = "gcd (n * tb_num b) (tb_den b)"
  have den: "0 < tb_den b" "tb_den b \<le> u32_max" using assms by (simp_all add: wf_base_def)
  then have dd: "tb_den b div ?g \<le> u32_max" using div_le_dividend le_trans by blast
  have g: "max (euclid (n * tb_num b) (tb_den b)) 1 = ?g"
    unfolding euclid_gcd using den(1) by (rule max_gcd)
  from assms(2) dd have new: "frame_duration_new (n * tb_num b div ?g) (tb_den b div ?g) = Ok d"
    and le: "n * tb_num b div ?g \<le> u64_max"
    unfolding ticks_to_duration_def Let_def g by auto
  have "seconds d = of_nat (n * tb_num b) / of_nat (tb_den b)"
    using frame_duration_new_seconds [OF new dd] den by (simp add: div_ratio)
  then show ?thesis using frame_duration_new_wf [OF new le dd] by (simp add: tick_def)
qed

lemma ticks_to_duration_complete:
  assumes "wf_base b" "wf_duration d" "seconds d = of_nat n * tick b"
  shows "ticks_to_duration n b = Ok d"
proof -
  have den: "0 < tb_den b" using assms by (simp add: wf_base_def)
  have g: "max (euclid (n * tb_num b) (tb_den b)) 1 = gcd (n * tb_num b) (tb_den b)"
    unfolding euclid_gcd using den by (rule max_gcd)
  have "(of_nat (n * tb_num b) :: rat) / of_nat (tb_den b) = seconds d"
    using assms(3) by (simp add: tick_def)
  from frame_duration_new_of_wf [OF assms(2) this den] assms(2) show ?thesis
    unfolding ticks_to_duration_def Let_def g
    by (simp add: wf_duration_def frame_duration_new_wf_id try_into_def)
qed

text \<open>
  \<open>duration_to_ticks\<close> and \<open>ticks_to_duration\<close> are inverse to each other wherever the
  first one succeeds: a duration of \<open>n\<close> whole ticks is read back from \<open>n\<close>, and only from it.
\<close>

theorem ticks_duration_roundtrip:
  assumes "wf_duration d" "wf_base b" "n \<le> u64_max"
  shows "duration_to_ticks d b = Ok n \<longleftrightarrow> ticks_to_duration n b = Ok d"
proof
  assume "duration_to_ticks d b = Ok n"
  then show "ticks_to_duration n b = Ok d"
    using ticks_to_duration_complete [OF assms(2,1)] duration_to_ticks_Ok [OF assms(1,2)] by blast
next
  assume "ticks_to_duration n b = Ok d"
  then show "duration_to_ticks d b = Ok n"
    using ticks_to_duration_Ok [OF assms(2)] duration_to_ticks_Ok [OF assms(1,2)] assms(3) by blast
qed

theorem ticks_duration_roundtrip_witness:
  "duration_to_ticks \<lparr> fd_num = 1, fd_den = 4 \<rparr> millis_base = Ok 250
   \<longleftrightarrow> ticks_to_duration 250 millis_base = Ok \<lparr> fd_num = 1, fd_den = 4 \<rparr>"
  by (rule ticks_duration_roundtrip)
    (simp_all add: wf_duration_def wf_base_def millis_base_def u32_max_def u64_max_def)

subsection \<open>Timestamps moved by durations\<close>

lemma ts_checked_add_Ok:
  assumes "wf_timestamp t" "wf_duration d" "ts_checked_add t d = Ok t'"
  shows "wf_timestamp t'" "ts_base t' = ts_base t" "instant t' = instant t + seconds d"
    "\<exists>n. duration_to_ticks d (ts_base t) = Ok n \<and> ts_ticks t' = ts_ticks t + int n"
proof -
  have wb: "wf_base (ts_base t)" using assms(1) by (simp add: wf_timestamp_def)
  from assms(3) obtain n where n: "duration_to_ticks d (ts_base t) = Ok n"
    and t': "t' = \<lparr> ts_ticks = ts_ticks t + int n, ts_base = ts_base t \<rparr>"
    and range: "- (2 ^ 63) \<le> ts_ticks t + int n" "ts_ticks t + int n < 2 ^ 63"
    by (auto simp: ts_checked_add_def)
  show "ts_base t' = ts_base t" "wf_timestamp t'" using t' range wb by (simp_all add: wf_timestamp_def)
  show "\<exists>n. duration_to_ticks d (ts_base t) = Ok n \<and> ts_ticks t' = ts_ticks t + int n"
    using n t' by simp
  have "seconds d = of_nat n * tick (ts_base t)" using n duration_to_ticks_Ok [OF assms(2) wb] by simp
  then show "instant t' = instant t + seconds d"
    by (simp add: instant_def t' distrib_right)
qed

text \<open>The difference of the two cross products, before it is narrowed to 128 bits.\<close>

definition time_span :: "timestamp \<Rightarrow> timestamp \<Rightarrow> int" where
  "time_span a later =
     ts_ticks later * int (tb_num (ts_base later)) * int (tb_den (ts_base a))
     - ts_ticks a * int (tb_num (ts_base a)) * int (tb_den (ts_base later))"

lemma time_span_instant:
  assumes "wf_base (ts_base a)" "wf_base (ts_base later)"
  shows "(of_int (time_span a later) :: rat) / of_nat (tb_den (ts_base later) * tb_den (ts_base a))
    = instant later - instant a"
  using assms by (simp add: time_span_def instant_def tick_def wf_base_def field_simps)

text \<open>
  The difference never leaves 129 bits, and it stays within 128 unless the two tick counts have
  opposite signs.
\<close>

definition span_fits :: "timestamp \<Rightarrow> timestamp \<Rightarrow> bool" where
  "span_fits a later \<longleftrightarrow> - (2 ^ 127) \<le> time_span a later \<and> time_span a later < 2 ^ 127"

lemma time_span_bounds:
  assumes "wf_timestamp a" "wf_timestamp later"
  shows "\<bar>time_span a later\<bar> < 2 ^ 128"
    and "(0 \<le> ts_ticks a \<longleftrightarrow> 0 \<le> ts_ticks later) \<Longrightarrow> span_fits a later"
proof -
  define k l where "k = int (tb_num (ts_base a)) * int (tb_den (ts_base later))"
    and "l = int (tb_num (ts_base later)) * int (tb_den (ts_base a))"
  have span: "time_span a later = ts_ticks later * l - ts_ticks a * k"
    by (simp add: time_span_def k_def l_def mult.assoc)
  have pos: "0 \<le> k" "0 \<le> l" by (simp_all add: k_def l_def)
  have "\<bar>ts_ticks a * int (tb_num (ts_base a)) * int (tb_den (ts_base later))\<bar> < 2 ^ 127"
    "\<bar>ts_ticks later * int (tb_num (ts_base later)) * int (tb_den (ts_base a))\<bar> < 2 ^ 127"
    using assms by (intro cross_bound; simp add: wf_timestamp_def wf_base_def)+
  then have b: "\<bar>ts_ticks a * k\<bar> < 2 ^ 127" "\<bar>ts_ticks later * l\<bar> < 2 ^ 127"
    by (simp_all add: k_def l_def mult.assoc)
  then show "\<bar>time_span a later\<bar> < 2 ^ 128" unfolding span by simp
  assume same: "0 \<le> ts_ticks a \<longleftrightarrow> 0 \<le> ts_ticks later"
  show "span_fits a later"
  proof (cases "0 \<le> ts_ticks a")
    case True
    then have "0 \<le> ts_ticks a * k" "0 \<le> ts_ticks later * l" using same pos by simp_all
    then show ?thesis unfolding span_fits_def span using b by linarith
  next
    case False
    then have "ts_ticks a * k \<le> 0" "ts_ticks later * l \<le> 0" using same pos by (simp_all add: mult_nonpos_nonneg)
    then show ?thesis unfolding span_fits_def span using b by linarith
  qed
qed

text \<open>What the code computes on, for all timestamps: the difference narrowed to 128 bits.\<close>

lemma duration_until_narrowed:
  assumes "wf_timestamp a" "wf_timestamp later"
  shows "duration_until a later =
    (if i128_wrap (time_span a later) < 0 then Err Negative
     else let n = nat (i128_wrap (time_span a later)); den = tb_den (ts_base later) * tb_den (ts_base a) in
       and_then (ok_or Overflow (try_into u64_max (n div gcd n den))) (\<lambda>n'.
       and_then (ok_or Overflow (try_into u32_max (den div gcd n den))) (\<lambda>d'.
       frame_duration_new n' d')))"
proof -
  have wb: "wf_base (ts_base a)" "wf_base (ts_base later)"
    using assms by (simp_all add: wf_timestamp_def)
  have "0 < tb_den (ts_base later) * tb_den (ts_base a)" using wb by (simp add: wf_base_def)
  then have g: "max (gcd n (tb_den (ts_base later) * tb_den (ts_base a))) 1
      = gcd n (tb_den (ts_base later) * tb_den (ts_base a))" for n :: nat
    by (rule max_gcd)
  show ?thesis
    unfolding duration_until_def Let_def i128_cross [OF assms(1) wb(2)] i128_cross [OF assms(2) wb(1)]
      time_span_def [symmetric] euclid_gcd g
    by simp
qed

lemma duration_until_answers:
  assumes "wf_timestamp a" "wf_timestamp later"
  defines "x \<equiv> of_int (i128_wrap (time_span a later))
    / of_nat (tb_den (ts_base later) * tb_den (ts_base a)) :: rat"
  shows "duration_until a later = Err Negative \<longleftrightarrow> x < 0"
    and "duration_until a later = Ok d \<Longrightarrow> seconds d = x"
    and "wf_duration d \<Longrightarrow> duration_until a later = Ok d \<longleftrightarrow> seconds d = x"
proof -
  define den where "den = tb_den (ts_base later) * tb_den (ts_base a)"
  define n where "n = nat (i128_wrap (time_span a later))"
  have den: "0 < den" using assms by (simp add: den_def wf_timestamp_def wf_base_def)
  have x: "x = of_int (i128_wrap (time_span a later)) / of_nat den" by (simp add: x_def den_def)
  have neg: "x < 0 \<longleftrightarrow> i128_wrap (time_span a later) < 0"
    unfolding x using den by (simp add: divide_less_0_iff)
  have all: "(duration_until a later = Err Negative \<longleftrightarrow> x < 0)
    \<and> (duration_until a later = Ok d \<longrightarrow> seconds d = x)
    \<and> (wf_duration d \<longrightarrow> seconds d = x \<longrightarrow> duration_until a later = Ok d)"
  proof (cases "i128_wrap (time_span a later) < 0")
    case True
    then have "duration_until a later = Err Negative" using assms by (simp add: duration_until_narrowed)
    moreover have "0 \<le> seconds d" by (simp add: seconds_def)
    ultimately show ?thesis using True neg by auto
  next
    case False
    then have val: "(of_nat n :: rat) / of_nat den = x" by (simp add: n_def x)
    have res: "duration_until a later =
        and_then (ok_or Overflow (try_into u64_max (n div gcd n den))) (\<lambda>n'.
        and_then (ok_or Overflow (try_into u32_max (den div gcd n den))) (\<lambda>d'.
        frame_duration_new n' d'))"
      using False assms by (simp add: duration_until_narrowed n_def den_def Let_def)
    have "seconds d = x" if ok: "duration_until a later = Ok d"
    proof -
      from ok have "frame_duration_new (n div gcd n den) (den div gcd n den) = Ok d"
        "den div gcd n den \<le> u32_max" by (auto simp: res)
      from frame_duration_new_seconds [OF this] val show ?thesis using den by (simp add: div_ratio)
    qed
    moreover have "duration_until a later = Ok d" if "wf_duration d" "seconds d = x"
      using frame_duration_new_of_wf [OF that(1) _ den, of n] that val
      by (simp add: res wf_duration_def frame_duration_new_wf_id try_into_def)
    moreover have "duration_until a later \<noteq> Err Negative"
      by (auto simp: res and_then_Err frame_duration_new_def Let_def)
    ultimately show ?thesis using False neg by blast
  qed
  show "duration_until a later = Err Negative \<longleftrightarrow> x < 0" using all by blast
  show "duration_until a later = Ok d \<Longrightarrow> seconds d = x" using all by blast
  show "wf_duration d \<Longrightarrow> duration_until a later = Ok d \<longleftrightarrow> seconds d = x" using all by blast
qed

lemma time_span_value:
  assumes "wf_timestamp a" "wf_timestamp later"
  shows "(of_int (time_span a later + n) :: rat) / of_nat (tb_den (ts_base later) * tb_den (ts_base a))
    = instant later - instant a + of_int n / of_nat (tb_den (ts_base later) * tb_den (ts_base a))"
  using time_span_instant [of a later] assms by (simp add: wf_timestamp_def add_divide_distrib)

lemma duration_until_value:
  assumes "wf_timestamp a" "wf_timestamp later" "span_fits a later" "wf_duration d"
  shows "(duration_until a later = Ok d \<longleftrightarrow> seconds d = instant later - instant a)
    \<and> (duration_until a later = Err Negative \<longleftrightarrow> instant later < instant a)"
proof -
  have id: "i128_wrap (time_span a later) = time_span a later"
    using assms(3) by (simp add: span_fits_def i128_wrap_id)
  show ?thesis
    using duration_until_answers(1,3) [OF assms(1,2), unfolded id] time_span_value [OF assms(1,2), of 0] assms(4)
    by simp
qed

text \<open>
  C30: \<open>duration_until\<close> returns exactly the rational time between the instants, provided its
  128-bit difference does not overflow: it answers \<open>d\<close> if and only if \<open>d\<close> is that time, and
  \<open>Negative\<close> if and only if the later instant comes first. The difference does not overflow when the
  two tick counts have the same sign; what every other pair answers is the
  subject of a theorem below.
\<close>

theorem duration_until_exact:
  assumes "wf_timestamp a" "wf_timestamp later" "wf_duration d"
    and "- (2 ^ 127) \<le> time_span a later \<and> time_span a later < 2 ^ 127
      \<or> (0 \<le> ts_ticks a \<longleftrightarrow> 0 \<le> ts_ticks later)"
  shows "(duration_until a later = Ok d \<longleftrightarrow> seconds d = instant later - instant a)
    \<and> (duration_until a later = Err Negative \<longleftrightarrow> instant later < instant a)"
proof -
  have "span_fits a later" using assms(4) time_span_bounds(2) [OF assms(1,2)] by (auto simp: span_fits_def)
  then show ?thesis using duration_until_value assms(1-3) by blast
qed

theorem duration_until_exact_witness:
  "duration_until \<lparr> ts_ticks = -5, ts_base = millis_base \<rparr> \<lparr> ts_ticks = 1, ts_base = seconds_base \<rparr>
   = Ok \<lparr> fd_num = 201, fd_den = 200 \<rparr>"
proof -
  let ?a = "\<lparr> ts_ticks = -5, ts_base = millis_base \<rparr>"
  let ?l = "\<lparr> ts_ticks = 1, ts_base = seconds_base \<rparr>"
  let ?d = "\<lparr> fd_num = 201, fd_den = 200 \<rparr>"
  have wf: "wf_timestamp ?a" "wf_timestamp ?l"
    by (simp_all add: wf_timestamp_def wf_base_def millis_base_def seconds_base_def u32_max_def)
  have ts: "- (2 ^ 127) \<le> time_span ?a ?l \<and> time_span ?a ?l < 2 ^ 127 \<or> (0 \<le> ts_ticks ?a \<longleftrightarrow> 0 \<le> ts_ticks ?l)"
    by (simp add: time_span_def millis_base_def seconds_base_def)
  have "coprime (201::nat) 200" by (simp add: coprime_iff_gcd_eq_1 gcd_red_nat [of 201 200])
  then have d: "wf_duration ?d" by (simp add: wf_duration_def u64_max_def u32_max_def)
  have "seconds ?d = instant ?l - instant ?a"
    by (simp add: seconds_def instant_def tick_def millis_base_def seconds_base_def)
  then show ?thesis using duration_until_exact [OF wf d ts] by blast
qed

text \<open>
  \<open>checked_add\<close> then \<open>duration_until\<close> gives the duration back, when it is fewer than
  \<open>2^63\<close> ticks.
\<close>

theorem checked_add_duration_until:
  assumes "wf_timestamp t" "wf_duration d" "ts_checked_add t d = Ok t'"
    and "duration_to_ticks d (ts_base t) = Ok n" "n < 2 ^ 63"
  shows "duration_until t t' = Ok d"
proof -
  note added = ts_checked_add_Ok [OF assms(1-3)]
  have wb: "wf_base (ts_base t)" using assms(1) by (simp add: wf_timestamp_def)
  from added(4) assms(4) have ticks: "ts_ticks t' = ts_ticks t + int n" by auto
  have "time_span t t' = int n * int (tb_num (ts_base t)) * int (tb_den (ts_base t))"
    by (simp add: time_span_def ticks added(2) algebra_simps)
  moreover have "\<bar>int n * int (tb_num (ts_base t)) * int (tb_den (ts_base t))\<bar> < 2 ^ 127"
    using wb assms(5) by (intro cross_bound) (simp_all add: wf_base_def)
  ultimately have "\<bar>time_span t t'\<bar> < 2 ^ 127" by simp
  then have "span_fits t t'" unfolding span_fits_def by linarith
  then show ?thesis
    using duration_until_value [OF assms(1) added(1) _ assms(2)] added(3) by simp
qed

theorem checked_add_duration_until_witness:
  "duration_until \<lparr> ts_ticks = -40, ts_base = millis_base \<rparr> \<lparr> ts_ticks = 210, ts_base = millis_base \<rparr>
   = Ok \<lparr> fd_num = 1, fd_den = 4 \<rparr>"
proof (rule checked_add_duration_until)
  show "wf_timestamp \<lparr> ts_ticks = -40, ts_base = millis_base \<rparr>"
    "wf_duration \<lparr> fd_num = 1, fd_den = 4 \<rparr>"
    by (simp_all add: wf_timestamp_def wf_base_def wf_duration_def millis_base_def u32_max_def u64_max_def)
  have n: "duration_to_ticks \<lparr> fd_num = 1, fd_den = 4 \<rparr> millis_base = Ok 250"
    by (simp add: duration_to_ticks_def millis_base_def try_into_def u64_max_def)
  show "duration_to_ticks \<lparr> fd_num = 1, fd_den = 4 \<rparr>
      (ts_base \<lparr> ts_ticks = -40, ts_base = millis_base \<rparr>) = Ok 250"
    using n by simp
  show "ts_checked_add \<lparr> ts_ticks = -40, ts_base = millis_base \<rparr> \<lparr> fd_num = 1, fd_den = 4 \<rparr>
      = Ok \<lparr> ts_ticks = 210, ts_base = millis_base \<rparr>"
    using n by (simp add: ts_checked_add_def try_i64_def)
  show "(250::nat) < 2 ^ 63" by simp
qed

definition extreme_base :: time_base where
  "extreme_base = \<lparr> tb_num = 4294967295, tb_den = 4294967294 \<rparr>"

definition extreme_start :: timestamp where
  "extreme_start = \<lparr> ts_ticks = - (2 ^ 63), ts_base = extreme_base \<rparr>"

definition extreme_later :: timestamp where
  "extreme_later = \<lparr> ts_ticks = - (2 ^ 63) + 4294967295 * 4294967294, ts_base = extreme_base \<rparr>"

definition extreme_duration :: frame_duration where
  "extreme_duration = \<lparr> fd_num = 4294967295 * 4294967295, fd_den = 1 \<rparr>"

lemmas extreme_defs = extreme_base_def extreme_start_def extreme_later_def extreme_duration_def

lemma i128_wrap_over:
  assumes "\<bar>x\<bar> < 2 ^ 128"
  shows "2 ^ 127 \<le> x \<Longrightarrow> i128_wrap x = x - 2 ^ 128" and "x < - (2 ^ 127) \<Longrightarrow> i128_wrap x = x + 2 ^ 128"
proof -
  assume "2 ^ 127 \<le> x"
  then have "(x + 2 ^ 127 - 2 ^ 128) mod 2 ^ 128 = x + 2 ^ 127 - 2 ^ 128"
    using assms by (intro mod_pos_pos_trivial) simp_all
  then show "i128_wrap x = x - 2 ^ 128"
    unfolding i128_wrap_def using minus_mod_self2 [of "x + 2 ^ 127" "2 ^ 128 :: int"] by linarith
next
  assume "x < - (2 ^ 127)"
  then have "(x + 2 ^ 127 + 2 ^ 128) mod 2 ^ 128 = x + 2 ^ 127 + 2 ^ 128"
    using assms by (intro mod_pos_pos_trivial) simp_all
  then show "i128_wrap x = x + 2 ^ 128"
    unfolding i128_wrap_def using mod_add_self2 [of "x + 2 ^ 127" "2 ^ 128 :: int"] by linarith
qed

text \<open>
  C37: for every pair of timestamps whose 128-bit difference overflows, \<open>duration_until\<close> reverses
  the order of the instants: it answers \<open>Negative\<close> if and only if the later instant really is
  later, whatever the time between them; and a duration it returns for a pair in the wrong order is
  \<open>2^128\<close> over the product of the denominators more than the (negative) time between them
  (time.rs:197-205, compiled without overflow checks). The witness is a pair of timestamps, with a
  time between them that is a \<open>FrameDuration\<close>.
\<close>

theorem duration_until_wraps:
  assumes "wf_timestamp a" "wf_timestamp later" "time_span a later < - (2 ^ 127) \<or> 2 ^ 127 \<le> time_span a later"
  shows "(duration_until a later = Err Negative \<longleftrightarrow> instant a < instant later)
    \<and> (\<forall>d. duration_until a later = Ok d \<longrightarrow> seconds d
         = instant later - instant a + 2 ^ 128 / of_nat (tb_den (ts_base later) * tb_den (ts_base a)))"
proof -
  let ?den = "of_nat (tb_den (ts_base later) * tb_den (ts_base a)) :: rat"
  have den: "0 < ?den" using assms(1,2) by (simp add: wf_timestamp_def wf_base_def)
  note small = time_span_bounds(1) [OF assms(1,2)]
  note spans = time_span_value [OF assms(1,2)]
  have sign: "instant a < instant later \<longleftrightarrow> 0 < time_span a later"
  proof -
    have "instant a < instant later \<longleftrightarrow> 0 < instant later - instant a" by simp
    also have "\<dots> \<longleftrightarrow> 0 < (of_int (time_span a later) :: rat) / ?den" using spans [of 0] by simp
    also have "\<dots> \<longleftrightarrow> 0 < time_span a later" using den by (simp add: zero_less_divide_iff)
    finally show ?thesis .
  qed
  from assms(3) show ?thesis
  proof
    assume under: "time_span a later < - (2 ^ 127)"
    then have x: "i128_wrap (time_span a later) = time_span a later + 2 ^ 128"
      by (rule i128_wrap_over(2) [OF small])
    have "\<not> (of_int (time_span a later + 2 ^ 128) :: rat) / ?den < 0"
      using small den by (simp add: divide_less_0_iff)
    moreover have "\<not> 0 < time_span a later" using under by simp
    ultimately show ?thesis
      using duration_until_answers(1,2) [OF assms(1,2), unfolded x] spans [of "2 ^ 128"] sign by auto
  next
    assume over: "2 ^ 127 \<le> time_span a later"
    then have x: "i128_wrap (time_span a later) = time_span a later - 2 ^ 128"
      by (rule i128_wrap_over(1) [OF small])
    have "(of_int (time_span a later - 2 ^ 128) :: rat) / ?den < 0"
      using small den by (simp add: divide_less_0_iff)
    then have "duration_until a later = Err Negative"
      using duration_until_answers(1) [OF assms(1,2), unfolded x] by blast
    moreover have "0 < time_span a later" using over by simp
    ultimately show ?thesis using sign by simp
  qed
qed

theorem duration_until_wraps_witness:
  "duration_until extreme_start extreme_later = Err Negative \<and> wf_duration extreme_duration
    \<and> seconds extreme_duration = instant extreme_later - instant extreme_start
    \<and> duration_until extreme_later extreme_start \<noteq> Err Negative"
proof -
  have "coprime (4294967295::nat) 4294967294"
    by (simp add: coprime_iff_gcd_eq_1 gcd_red_nat [of 4294967295 4294967294])
  then have wf: "wf_timestamp extreme_start" "wf_timestamp extreme_later" "wf_duration extreme_duration"
    by (simp_all add: extreme_defs wf_timestamp_def wf_base_def wf_duration_def u32_max_def u64_max_def)
  have span: "2 ^ 127 \<le> time_span extreme_start extreme_later" "time_span extreme_later extreme_start < - (2 ^ 127)"
    by (simp_all add: time_span_def extreme_defs)
  have dur: "seconds extreme_duration = instant extreme_later - instant extreme_start"
    "instant extreme_start < instant extreme_later"
    by (simp_all add: seconds_def instant_def tick_def extreme_defs)
  show ?thesis
    using duration_until_wraps [OF wf(1,2)] duration_until_wraps [OF wf(2,1)] span dur wf(3) by simp
qed

end
