(* ===== verification/Quantizer.thy ===== *)
theory Quantizer
  imports Timing
begin

text \<open>
  \<open>TimingQuantizer\<close> of \<open>src/src/animation.rs\<close>: it rounds the cumulative endpoints of a run of
  durations to a fixed clock and keeps the fractional phase as an exact reduced rational,
  in checked 128-bit arithmetic. The lemmas show that what has been handed out so far is
  always the exact total rounded to the nearest tick, halves up, so nothing drifts, and
  that a run whose durations share a representable denominator never overflows the phase.
\<close>

record quantizer =
  q_clock :: nat
  q_max_ticks :: nat
  phase_num :: nat
  phase_den :: nat
  rounded_up :: bool

definition quantizer_new :: "nat \<Rightarrow> nat \<Rightarrow> timing_error + quantizer" where
  "quantizer_new clock m =
     (if clock = 0 then Err ZeroDenominator
      else Ok \<lparr> q_clock = clock, q_max_ticks = m, phase_num = 0, phase_den = 1, rounded_up = False \<rparr>)"

text \<open>
  The carry and remainder of two proper fractions over \<open>sum_den\<close>: the denominator is
  subtracted before adding, since the sum may need one bit more than the type has.
\<close>

definition add_phases :: "nat \<Rightarrow> nat \<Rightarrow> nat \<Rightarrow> nat \<times> nat" where
  "add_phases left right sum_den =
     (if left \<ge> sum_den - right then (1, left - (sum_den - right)) else (0, left + right))"

definition quantized_ticks :: "quantizer \<Rightarrow> nat \<Rightarrow> nat \<Rightarrow> bool \<Rightarrow> nat option" where
  "quantized_ticks q whole carry up =
     Option.bind (checked_add u128_max whole carry) (\<lambda>n.
     Option.bind (checked_add u128_max n (of_bool up)) (\<lambda>n.
     Option.bind (checked_sub n (of_bool (rounded_up q))) (\<lambda>n.
     Option.bind (try_into u64_max n) (\<lambda>n.
     if n \<le> q_max_ticks q then Some n else None))))"

text \<open>The second half of \<open>quantize\<close>, once the phases are over a common denominator.\<close>

definition quantize_sum ::
    "quantizer \<Rightarrow> nat \<Rightarrow> nat \<Rightarrow> nat \<Rightarrow> nat \<Rightarrow> quantizer \<times> (timing_error + frame_duration)" where
  "quantize_sum q whole left right sum_den =
     (let (carry, remainder) = add_phases left right sum_den;
          up = (remainder \<ge> sum_den - remainder)
      in case quantized_ticks q whole carry up of
           None \<Rightarrow> (q, Err Overflow)
         | Some ticks \<Rightarrow>
             (case frame_duration_new ticks (q_clock q) of
                Inl e \<Rightarrow> (q, Err e)
              | Inr result \<Rightarrow>
                  let reduce = euclid remainder sum_den in
                  (q\<lparr> phase_num := remainder div reduce, phase_den := sum_den div reduce,
                      rounded_up := up \<rparr>, Ok result)))"

definition quantize :: "quantizer \<Rightarrow> frame_duration \<Rightarrow> quantizer \<times> (timing_error + frame_duration)" where
  "quantize q d =
     (let scaled = fd_num d * q_clock q;
          whole = scaled div fd_den d;
          frac = scaled mod fd_den d;
          reduce = euclid frac (fd_den d);
          frac = frac div reduce;
          den = fd_den d div reduce;
          common = euclid (phase_den q) den;
          left_scale = den div common;
          right_scale = phase_den q div common
      in case checked_mul u128_max (phase_den q) left_scale of
           None \<Rightarrow> (q, Err Overflow)
         | Some sum_den \<Rightarrow>
             (case checked_mul u128_max (phase_num q) left_scale of
                None \<Rightarrow> (q, Err Overflow)
              | Some left \<Rightarrow>
                  (case checked_mul u128_max frac right_scale of
                     None \<Rightarrow> (q, Err Overflow)
                   | Some right \<Rightarrow> quantize_sum q whole left right sum_den)))"

text \<open>A run of successful calls, stopping at the first error.\<close>

fun quantize_all :: "quantizer \<Rightarrow> frame_duration list \<Rightarrow> timing_error + (frame_duration list \<times> quantizer)" where
  "quantize_all q [] = Ok ([], q)"
| "quantize_all q (d # ds) =
     (case quantize q d of
        (q', Inl e) \<Rightarrow> Err e
      | (q', Inr r) \<Rightarrow> and_then (quantize_all q' ds) (\<lambda>(rs, q''). Ok (r # rs, q'')))"

subsection \<open>The invariant\<close>

definition wf_quantizer :: "quantizer \<Rightarrow> bool" where
  "wf_quantizer q \<longleftrightarrow> 0 < q_clock q \<and> q_clock q \<le> u32_max
     \<and> phase_num q < phase_den q \<and> phase_den q \<le> u128_max
     \<and> (rounded_up q \<longleftrightarrow> phase_den q \<le> 2 * phase_num q)"

definition phase :: "quantizer \<Rightarrow> rat" where
  "phase q = of_nat (phase_num q) / of_nat (phase_den q)"

lemma quantizer_new_wf:
  assumes "quantizer_new clock m = Ok q" "clock \<le> u32_max"
  shows "wf_quantizer q" "phase q = 0" "\<not> rounded_up q" "q_clock q = clock" "phase_den q = 1"
  using assms by (auto simp: quantizer_new_def wf_quantizer_def phase_def u128_max_def split: if_splits)

lemma common_denominator: "p * (d div gcd p d) = p div gcd p d * d" for p d :: nat
  by (metis div_mult_swap dvd_div_mult gcd_dvd1 gcd_dvd2)

lemma add_phases_correct:
  assumes "left < s" "right < s" "add_phases left right s = (carry, r)"
  shows "r < s" "left + right = carry * s + r"
  using assms by (auto simp: add_phases_def split: if_splits)

text \<open>The tick count of a step, given what the two summed phases come to.\<close>

lemma quantized_ticks_Some:
  assumes "quantized_ticks q whole carry up = Some n"
  shows "n + of_bool (rounded_up q) = whole + carry + of_bool up" "n \<le> u64_max" "n \<le> q_max_ticks q"
  using assms by (auto simp: quantized_ticks_def Option.bind_eq_Some_conv split: if_splits)

lemma quantize_sum_Ok:
  assumes "wf_quantizer q" "left < s" "right < s" "s \<le> u128_max"
    and "quantize_sum q whole left right s = (q', Ok res)"
  shows "wf_quantizer q'" "q_clock q' = q_clock q" "q_max_ticks q' = q_max_ticks q"
    "phase_den q' dvd s"
    "\<exists>ticks. ticks \<le> q_max_ticks q \<and> seconds res = of_nat ticks / of_nat (q_clock q)
      \<and> of_nat ticks = of_nat whole + (of_nat left + of_nat right) / of_nat s - phase q'
          + of_bool (rounded_up q') - of_bool (rounded_up q)"
proof -
  obtain carry r where sum: "add_phases left right s = (carry, r)" by (cases "add_phases left right s")
  note r = add_phases_correct [OF assms(2,3) sum]
  define up where "up \<longleftrightarrow> s - r \<le> r"
  from assms(5) obtain ticks where
      ticks: "quantized_ticks q whole carry up = Some ticks"
    and res: "frame_duration_new ticks (q_clock q) = Ok res"
    and q': "q' = q\<lparr> phase_num := r div gcd r s, phase_den := s div gcd r s, rounded_up := up \<rparr>"
    by (auto simp: quantize_sum_def sum up_def Let_def split: option.splits sum.splits)
  have s: "0 < s" using assms(2) by simp
  have lt: "r div gcd r s < s div gcd r s"
    by (intro div_less_mono) (use r(1) s in simp_all)
  have le: "s div gcd r s \<le> u128_max" using assms(4) div_le_dividend le_trans by blast
  have half: "up \<longleftrightarrow> s div gcd r s \<le> 2 * (r div gcd r s)"
  proof -
    have g: "0 < gcd r s" using s by simp
    have "up \<longleftrightarrow> s \<le> 2 * r" using r(1) by (auto simp: up_def)
    also have "\<dots> \<longleftrightarrow> (s div gcd r s) * gcd r s \<le> 2 * (r div gcd r s) * gcd r s"
      by (simp only: mult.assoc dvd_div_mult_self gcd_dvd1 gcd_dvd2)
    also have "\<dots> \<longleftrightarrow> s div gcd r s \<le> 2 * (r div gcd r s)" using g by (simp only: mult_le_cancel2) simp
    finally show ?thesis .
  qed
  show "wf_quantizer q'" using assms(1) lt le half by (simp add: q' wf_quantizer_def)
  show "q_clock q' = q_clock q" "q_max_ticks q' = q_max_ticks q" by (simp_all add: q')
  show "phase_den q' dvd s"
    using dvd_triv_left [of "s div gcd r s" "gcd r s"] by (simp add: q')
  have clock: "0 < q_clock q" "q_clock q \<le> u32_max" using assms(1) by (simp_all add: wf_quantizer_def)
  note t = quantized_ticks_Some [OF ticks]
  have ru: "rounded_up q' = up" by (simp add: q')
  have ph: "phase q' = of_nat r / of_nat s" using s by (simp add: phase_def q' div_ratio)
  have "(of_nat (ticks + of_bool (rounded_up q)) :: rat) = of_nat (whole + carry + of_bool up)"
    by (simp only: t(1))
  moreover have "(of_nat (left + right) :: rat) = of_nat (carry * s + r)" by (simp only: r(2))
  then have "((of_nat left :: rat) + of_nat right) / of_nat s = of_nat carry + of_nat r / of_nat s"
    using s by (simp add: field_simps)
  ultimately show "\<exists>ticks. ticks \<le> q_max_ticks q \<and> seconds res = of_nat ticks / of_nat (q_clock q)
      \<and> of_nat ticks = of_nat whole + (of_nat left + of_nat right) / of_nat s - phase q'
          + of_bool (rounded_up q') - of_bool (rounded_up q)"
    using t(3) frame_duration_new_seconds [OF res clock(2)] ru
    by (intro exI [of _ ticks]) (simp add: ph)
qed

text \<open>
  The quantities \<open>quantize\<close> computes before it adds the phases: the whole ticks, and the two
  proper fractions over their least common denominator.
\<close>

definition whole_of :: "quantizer \<Rightarrow> frame_duration \<Rightarrow> nat" where
  "whole_of q d = fd_num d * q_clock q div fd_den d"

definition frac_of :: "quantizer \<Rightarrow> frame_duration \<Rightarrow> nat" where
  "frac_of q d = fd_num d * q_clock q mod fd_den d"

definition den_of :: "quantizer \<Rightarrow> frame_duration \<Rightarrow> nat" where
  "den_of q d = fd_den d div gcd (frac_of q d) (fd_den d)"

definition sum_den_of :: "quantizer \<Rightarrow> frame_duration \<Rightarrow> nat" where
  "sum_den_of q d = phase_den q * (den_of q d div gcd (phase_den q) (den_of q d))"

definition left_of :: "quantizer \<Rightarrow> frame_duration \<Rightarrow> nat" where
  "left_of q d = phase_num q * (den_of q d div gcd (phase_den q) (den_of q d))"

definition right_of :: "quantizer \<Rightarrow> frame_duration \<Rightarrow> nat" where
  "right_of q d = frac_of q d div gcd (frac_of q d) (fd_den d)
     * (phase_den q div gcd (phase_den q) (den_of q d))"

lemma sum_den_of_alt: "sum_den_of q d = phase_den q div gcd (phase_den q) (den_of q d) * den_of q d"
  by (simp add: sum_den_of_def common_denominator)

lemma quantize_unfold:
  "quantize q d = (case checked_mul u128_max (phase_den q)
        (den_of q d div gcd (phase_den q) (den_of q d)) of
      None \<Rightarrow> (q, Err Overflow)
    | Some sum_den \<Rightarrow> (case checked_mul u128_max (phase_num q)
        (den_of q d div gcd (phase_den q) (den_of q d)) of
          None \<Rightarrow> (q, Err Overflow)
        | Some left \<Rightarrow> (case checked_mul u128_max (frac_of q d div gcd (frac_of q d) (fd_den d))
            (phase_den q div gcd (phase_den q) (den_of q d)) of
              None \<Rightarrow> (q, Err Overflow)
            | Some right \<Rightarrow> quantize_sum q (whole_of q d) left right sum_den)))"
  by (simp only: quantize_def Let_def euclid_gcd whole_of_def frac_of_def den_of_def)

lemma step_den_pos: "wf_duration d \<Longrightarrow> 0 < den_of q d"
  unfolding den_of_def by (rule div_gcd_pos) (rule wf_duration_pos)

lemma left_less:
  assumes "wf_quantizer q" "wf_duration d"
  shows "left_of q d < sum_den_of q d"
proof -
  have "0 < den_of q d div gcd (phase_den q) (den_of q d)"
    using step_den_pos [OF assms(2)] by (rule div_gcd_pos)
  then show ?thesis
    using assms(1) by (simp add: left_of_def sum_den_of_def wf_quantizer_def)
qed

lemma right_less:
  assumes "wf_quantizer q" "wf_duration d"
  shows "right_of q d < sum_den_of q d"
proof -
  have "frac_of q d div gcd (frac_of q d) (fd_den d) < den_of q d"
    unfolding den_of_def
    by (intro div_less_mono) (use wf_duration_pos [OF assms(2)] in \<open>simp_all add: frac_of_def\<close>)
  moreover have "0 < phase_den q div gcd (phase_den q) (den_of q d)"
    using assms(1) div_gcd_pos [of "phase_den q" "den_of q d"]
    by (simp add: wf_quantizer_def gcd.commute)
  ultimately show ?thesis
    by (simp add: right_of_def sum_den_of_alt mult.commute)
qed

lemma left_phase:
  assumes "wf_duration d"
  shows "(of_nat (left_of q d) :: rat) / of_nat (sum_den_of q d) = phase q"
proof -
  have "0 < den_of q d div gcd (phase_den q) (den_of q d)"
    using step_den_pos [OF assms] by (rule div_gcd_pos)
  then show ?thesis by (simp add: left_of_def sum_den_of_def phase_def)
qed

lemma whole_right:
  assumes "wf_quantizer q" "wf_duration d"
  shows "of_nat (whole_of q d) + (of_nat (right_of q d) :: rat) / of_nat (sum_den_of q d)
    = of_nat (q_clock q) * seconds d"
proof -
  have d0: "0 < fd_den d" using assms(2) by (rule wf_duration_pos)
  have "0 < phase_den q div gcd (phase_den q) (den_of q d)"
    using assms(1) div_gcd_pos [of "phase_den q" "den_of q d"]
    by (simp add: wf_quantizer_def gcd.commute)
  then have "(of_nat (right_of q d) :: rat) / of_nat (sum_den_of q d)
      = of_nat (frac_of q d div gcd (frac_of q d) (fd_den d)) / of_nat (den_of q d)"
    by (simp add: right_of_def sum_den_of_alt)
  also have "\<dots> = of_nat (frac_of q d) / of_nat (fd_den d)"
    unfolding den_of_def using d0 by (intro div_ratio) simp_all
  finally have r: "(of_nat (right_of q d) :: rat) / of_nat (sum_den_of q d)
    = of_nat (frac_of q d) / of_nat (fd_den d)" .
  have "fd_num d * q_clock q = whole_of q d * fd_den d + frac_of q d"
    by (simp add: frac_of_def whole_of_def)
  then have "(of_nat (fd_num d * q_clock q) :: rat) = of_nat (whole_of q d * fd_den d + frac_of q d)"
    by (simp only:)
  then show ?thesis
    unfolding r seconds_def using d0 by (simp add: field_simps)
qed

lemma quantize_common:
  assumes "wf_quantizer q" "wf_duration d"
  shows "quantize q d = (if sum_den_of q d \<le> u128_max
    then quantize_sum q (whole_of q d) (left_of q d) (right_of q d) (sum_den_of q d)
    else (q, Err Overflow))"
proof (cases "sum_den_of q d \<le> u128_max")
  case True
  have "checked_mul u128_max (phase_den q) (den_of q d div gcd (phase_den q) (den_of q d))
      = Some (sum_den_of q d)"
    using True by (simp add: sum_den_of_def)
  moreover have "checked_mul u128_max (phase_num q) (den_of q d div gcd (phase_den q) (den_of q d))
      = Some (left_of q d)"
    using True left_less [OF assms] by (simp add: left_of_def)
  moreover have "checked_mul u128_max (frac_of q d div gcd (frac_of q d) (fd_den d))
      (phase_den q div gcd (phase_den q) (den_of q d)) = Some (right_of q d)"
    using True right_less [OF assms] by (simp add: right_of_def)
  ultimately show ?thesis using True by (simp only: quantize_unfold option.case if_True)
next
  case False
  then have "checked_mul u128_max (phase_den q) (den_of q d div gcd (phase_den q) (den_of q d)) = None"
    by (simp add: sum_den_of_def)
  with False show ?thesis by (simp only: quantize_unfold option.case if_False)
qed

subsection \<open>One step\<close>

lemma quantize_step:
  assumes "wf_quantizer q" "wf_duration d" "quantize q d = (q', Ok r)"
  shows "wf_quantizer q'" "q_clock q' = q_clock q" "q_max_ticks q' = q_max_ticks q"
    "phase_den q' dvd sum_den_of q d"
    "\<exists>ticks. ticks \<le> q_max_ticks q \<and> seconds r = of_nat ticks / of_nat (q_clock q)
      \<and> of_nat ticks = of_nat (q_clock q) * seconds d + phase q - phase q'
          + of_bool (rounded_up q') - of_bool (rounded_up q)"
proof -
  from assms(3) have fit: "sum_den_of q d \<le> u128_max"
    and sum: "quantize_sum q (whole_of q d) (left_of q d) (right_of q d) (sum_den_of q d) = (q', Ok r)"
    unfolding quantize_common [OF assms(1,2)] by (simp_all split: if_splits)
  note o = quantize_sum_Ok [OF assms(1) left_less [OF assms(1,2)] right_less [OF assms(1,2)] fit sum]
  show "wf_quantizer q'" "q_clock q' = q_clock q" "q_max_ticks q' = q_max_ticks q"
    "phase_den q' dvd sum_den_of q d" by (rule o)+
  obtain t where t: "t \<le> q_max_ticks q" "seconds r = of_nat t / of_nat (q_clock q)"
    "of_nat t = of_nat (whole_of q d) + (of_nat (left_of q d) + of_nat (right_of q d))
        / of_nat (sum_den_of q d) - phase q' + of_bool (rounded_up q') - of_bool (rounded_up q)"
    using o(5) by blast
  have "of_nat (whole_of q d) + (of_nat (left_of q d) + of_nat (right_of q d)) / of_nat (sum_den_of q d)
      = of_nat (q_clock q) * seconds d + phase q"
    using left_phase [OF assms(2), of q] whole_right [OF assms(1,2)] by (simp add: add_divide_distrib)
  with t show "\<exists>ticks. ticks \<le> q_max_ticks q \<and> seconds r = of_nat ticks / of_nat (q_clock q)
      \<and> of_nat ticks = of_nat (q_clock q) * seconds d + phase q - phase q'
          + of_bool (rounded_up q') - of_bool (rounded_up q)"
    by (intro exI [of _ t]) simp
qed

lemma quantize_sum_error_keeps: "quantize_sum q w l r s = (q', Err e) \<Longrightarrow> q' = q"
  by (auto simp: quantize_sum_def Let_def split: option.splits sum.splits prod.splits)

lemma quantize_error_keeps: "quantize q d = (q', Err e) \<Longrightarrow> q' = q"
  unfolding quantize_unfold by (auto dest: quantize_sum_error_keeps split: option.splits)

subsection \<open>Runs\<close>

definition total_seconds :: "frame_duration list \<Rightarrow> rat" where
  "total_seconds ds = (\<Sum>d\<leftarrow>ds. seconds d)"

lemma quantize_all_total:
  assumes "wf_quantizer q" "list_all wf_duration ds" "quantize_all q ds = Ok (rs, q')"
  shows "wf_quantizer q' \<and> q_clock q' = q_clock q \<and>
    of_nat (q_clock q) * total_seconds rs = of_nat (q_clock q) * total_seconds ds
      + phase q - phase q' + of_bool (rounded_up q') - of_bool (rounded_up q)"
  using assms
proof (induction ds arbitrary: q rs)
  case Nil
  then show ?case by (simp add: total_seconds_def)
next
  case (Cons d ds)
  from Cons.prems(3) obtain q1 r rs1 where step: "quantize q d = (q1, Ok r)"
    and rest: "quantize_all q1 ds = Ok (rs1, q')" and rs: "rs = r # rs1"
    by (auto split: prod.splits sum.splits)
  have wd: "wf_duration d" "list_all wf_duration ds" using Cons.prems(2) by simp_all
  note st = quantize_step [OF Cons.prems(1) wd(1) step]
  have clock: "(0::rat) < of_nat (q_clock q)" using Cons.prems(1) by (simp add: wf_quantizer_def)
  have "of_nat (q_clock q) * seconds r = of_nat (q_clock q) * seconds d + phase q - phase q1
      + of_bool (rounded_up q1) - of_bool (rounded_up q)"
    using st(5) clock by auto
  moreover note Cons.IH [OF st(1) wd(2) rest]
  ultimately show ?case
    using st(2) by (simp add: total_seconds_def rs algebra_simps)
qed

lemma quantize_all_integral:
  assumes "wf_quantizer q" "list_all wf_duration ds" "quantize_all q ds = Ok (rs, q')"
  shows "\<exists>n::int. of_nat (q_clock q) * total_seconds rs = of_int n"
  using assms
proof (induction ds arbitrary: q rs)
  case Nil
  then show ?case by (intro exI [of _ 0]) (simp add: total_seconds_def)
next
  case (Cons d ds)
  from Cons.prems(3) obtain q1 r rs1 where step: "quantize q d = (q1, Ok r)"
    and rest: "quantize_all q1 ds = Ok (rs1, q')" and rs: "rs = r # rs1"
    by (auto split: prod.splits sum.splits)
  have wd: "wf_duration d" "list_all wf_duration ds" using Cons.prems(2) by simp_all
  note st = quantize_step [OF Cons.prems(1) wd(1) step]
  have clock: "(0::rat) < of_nat (q_clock q)" using Cons.prems(1) by (simp add: wf_quantizer_def)
  obtain t :: nat where "seconds r = of_nat t / of_nat (q_clock q)" using st(5) by blast
  with clock have t: "of_nat (q_clock q) * seconds r = of_int (int t)" by simp
  obtain n :: int where n: "of_nat (q_clock q) * total_seconds rs1 = of_int n"
    using Cons.IH [OF st(1) wd(2) rest] st(2) by auto
  have "of_nat (q_clock q) * total_seconds rs = of_int (int t + n)"
    using t n by (simp add: total_seconds_def rs distrib_left)
  then show ?case by blast
qed

text \<open>
  C16: no drift. From a fresh quantizer, the ticks handed out for a run of durations are the
  exact total, in ticks of the clock, rounded to the nearest tick with halves up, however
  the single durations were rounded and whatever clocks they came from.
\<close>

theorem quantizer_no_drift:
  assumes "quantizer_new clock m = Ok q" "clock \<le> u32_max"
    and "list_all wf_duration ds" "quantize_all q ds = Ok (rs, q')"
  shows "of_nat clock * total_seconds rs
    = of_int (rounded Nearest (of_nat clock * total_seconds ds))"
proof -
  note new = quantizer_new_wf [OF assms(1,2)]
  have total: "wf_quantizer q'"
      "of_nat clock * total_seconds rs
       = of_nat clock * total_seconds ds - phase q' + of_bool (rounded_up q')"
    using quantize_all_total [OF new(1) assms(3,4)] new by simp_all
  define S where "S = of_nat clock * total_seconds ds"
  have den: "0 < phase_den q'" "phase_num q' < phase_den q'"
    using total(1) by (simp_all add: wf_quantizer_def)
  then have f: "0 \<le> phase q'" "phase q' < 1" by (simp_all add: phase_def)
  have up: "1 / 2 \<le> phase q' \<longleftrightarrow> rounded_up q'"
  proof -
    have "1 / 2 \<le> phase q' \<longleftrightarrow> (of_nat (phase_den q') :: rat) \<le> of_nat (2 * phase_num q')"
      using den by (simp add: phase_def field_simps)
    also have "\<dots> \<longleftrightarrow> rounded_up q'"
      using total(1) by (simp only: of_nat_le_iff) (simp add: wf_quantizer_def)
    finally show ?thesis .
  qed
  have "\<exists>k::int. S - phase q' = of_int k"
  proof -
    have "\<exists>n::int. of_nat clock * total_seconds rs = of_int n"
      using quantize_all_integral [OF new(1) assms(3,4)] new(4) by simp
    then obtain n :: int where "of_nat clock * total_seconds rs = of_int n" by blast
    with total(2) have "S - phase q' = of_int (n - of_bool (rounded_up q'))"
      by (simp add: S_def)
    then show ?thesis by blast
  qed
  then obtain k :: int where k: "S = of_int k + phase q'" by (metis add.commute diff_add_cancel)
  then have "rounded Nearest S = k + of_bool (rounded_up q')"
    using rounded_frac(3) [OF f] up by simp
  then show ?thesis using total(2) k by (simp add: S_def)
qed

lemma gcd_step: "gcd (numeral m) (numeral n :: nat) = gcd (numeral n) (numeral m mod numeral n)"
  by (rule gcd_red_nat)

lemmas quantize_eval = quantize_def quantize_sum_def add_phases_def quantized_ticks_def
  frame_duration_new_def checked_mul_def checked_add_def checked_sub_def try_into_def
  u128_max_def u64_max_def u32_max_def Let_def gcd_step

theorem quantizer_no_drift_witness:
  "10 * total_seconds [\<lparr> fd_num = 3, fd_den = 10 \<rparr>, \<lparr> fd_num = 2, fd_den = 5 \<rparr>]
    = of_int (rounded Nearest (10 * total_seconds [\<lparr> fd_num = 1, fd_den = 3 \<rparr>, \<lparr> fd_num = 1, fd_den = 3 \<rparr>]))"
proof -
  let ?q = "\<lparr> q_clock = 10, q_max_ticks = 100, phase_num = 0, phase_den = 1, rounded_up = False \<rparr>"
  let ?ds = "[\<lparr> fd_num = 1, fd_den = 3 \<rparr>, \<lparr> fd_num = 1, fd_den = 3 \<rparr>]"
  have new: "quantizer_new 10 100 = Ok ?q" by (simp add: quantizer_new_def)
  have wf: "list_all wf_duration ?ds" by (simp add: wf_duration_def u32_max_def u64_max_def)
  have "quantize ?q \<lparr> fd_num = 1, fd_den = 3 \<rparr> =
      (\<lparr> q_clock = 10, q_max_ticks = 100, phase_num = 1, phase_den = 3, rounded_up = False \<rparr>,
       Ok \<lparr> fd_num = 3, fd_den = 10 \<rparr>)"
    by (simp add: quantize_eval)
  moreover have "quantize
      \<lparr> q_clock = 10, q_max_ticks = 100, phase_num = 1, phase_den = 3, rounded_up = False \<rparr>
      \<lparr> fd_num = 1, fd_den = 3 \<rparr> =
      (\<lparr> q_clock = 10, q_max_ticks = 100, phase_num = 2, phase_den = 3, rounded_up = True \<rparr>,
       Ok \<lparr> fd_num = 2, fd_den = 5 \<rparr>)"
    by (simp add: quantize_eval flip: numeral_2_eq_2)
  ultimately have run: "quantize_all ?q ?ds = Ok ([\<lparr> fd_num = 3, fd_den = 10 \<rparr>, \<lparr> fd_num = 2, fd_den = 5 \<rparr>],
      \<lparr> q_clock = 10, q_max_ticks = 100, phase_num = 2, phase_den = 3, rounded_up = True \<rparr>)"
    by simp
  show ?thesis
    using quantizer_no_drift [OF new _ wf run] by (simp add: u32_max_def)
qed

subsection \<open>When it cannot overflow\<close>

lemma sum_den_lcm: "sum_den_of q d = lcm (phase_den q) (den_of q d)"
  by (simp add: sum_den_of_def lcm_nat_def div_mult_swap)

lemma quantize_sum_total:
  assumes "wf_quantizer q" "left < s" "right < s" "rounded_up q \<longrightarrow> s \<le> 2 * left"
    and "whole + 2 \<le> q_max_ticks q" "q_max_ticks q \<le> u64_max"
  shows "\<exists>q' r. quantize_sum q whole left right s = (q', Ok r)"
proof -
  obtain carry r where sum: "add_phases left right s = (carry, r)" by (cases "add_phases left right s")
  note r = add_phases_correct [OF assms(2,3) sum]
  have carry: "carry \<le> 1" using sum by (auto simp: add_phases_def split: if_splits)
  have "carry = 0 \<Longrightarrow> left \<le> r" using r(2) by simp
  then have sub: "of_bool (rounded_up q) \<le> whole + carry + of_bool (s - r \<le> r)"
    using assms(4) r(1) carry by (cases "carry = 0") auto
  have w: "whole + 2 \<le> u128_max" using assms(5,6) by (simp add: u64_max_def u128_max_def)
  have k: "whole + carry + of_bool (s - r \<le> r) \<le> whole + 2" using carry by (cases "s - r \<le> r") simp_all
  have "quantized_ticks q whole carry (s - r \<le> r)
      = Some (whole + carry + of_bool (s - r \<le> r) - of_bool (rounded_up q))"
    using sub k w assms(5,6)
    by (simp add: quantized_ticks_def checked_add_def checked_sub_def try_into_def del: of_bool_eq_1_iff)
  then obtain n where "quantized_ticks q whole carry (s - r \<le> r) = Some n" by blast
  moreover have "frame_duration_new n (q_clock q)
      = Ok \<lparr> fd_num = n div gcd n (q_clock q), fd_den = q_clock q div gcd n (q_clock q) \<rparr>"
    using assms(1) by (intro frame_duration_new_Ok) (simp_all add: wf_quantizer_def)
  ultimately show ?thesis by (simp add: quantize_sum_def sum Let_def)
qed

lemma quantize_total:
  assumes "wf_quantizer q" "wf_duration d" "phase_den q dvd D" "fd_den d dvd D" "0 < D" "D \<le> u128_max"
    and "whole_of q d + 2 \<le> q_max_ticks q" "q_max_ticks q \<le> u64_max"
  shows "\<exists>q' r. quantize q d = (q', Ok r) \<and> phase_den q' dvd D"
proof -
  have "den_of q d dvd fd_den d"
    unfolding den_of_def using dvd_triv_left [of "fd_den d div gcd (frac_of q d) (fd_den d)"
      "gcd (frac_of q d) (fd_den d)"] by simp
  with assms(4) have "den_of q d dvd D" by (rule dvd_trans [rotated])
  with assms(3) have dv: "sum_den_of q d dvd D" by (simp add: sum_den_lcm)
  with assms(5,6) have fit: "sum_den_of q d \<le> u128_max" by (meson dvd_imp_le le_trans)
  have "rounded_up q \<longrightarrow> sum_den_of q d \<le> 2 * left_of q d"
    using assms(1) by (simp add: sum_den_of_def left_of_def wf_quantizer_def)
  from quantize_sum_total [OF assms(1) left_less [OF assms(1,2)] right_less [OF assms(1,2)] this assms(7,8)]
  obtain q' r where run: "quantize q d = (q', Ok r)"
    using quantize_common [OF assms(1,2)] fit by auto
  with quantize_step(4) [OF assms(1,2) run] dv show ?thesis by (meson dvd_trans)
qed

lemma quantize_all_total_run:
  assumes "wf_quantizer q" "phase_den q dvd D" "0 < D" "D \<le> u128_max" "q_max_ticks q \<le> u64_max"
    and "list_all (\<lambda>d. wf_duration d \<and> fd_den d dvd D
      \<and> fd_num d * q_clock q div fd_den d + 2 \<le> q_max_ticks q) ds"
  shows "\<exists>rs q'. quantize_all q ds = Ok (rs, q')"
  using assms
proof (induction ds arbitrary: q)
  case Nil
  then show ?case by simp
next
  case (Cons d ds)
  have d: "wf_duration d" "fd_den d dvd D" "whole_of q d + 2 \<le> q_max_ticks q"
    using Cons.prems(6) by (simp_all add: whole_of_def)
  obtain q1 r where step: "quantize q d = (q1, Ok r)" and dv: "phase_den q1 dvd D"
    using quantize_total [OF Cons.prems(1) d(1) Cons.prems(2) d(2) Cons.prems(3,4) d(3) Cons.prems(5)]
    by blast
  note st = quantize_step(1-3) [OF Cons.prems(1) d(1) step]
  have "\<exists>rs q'. quantize_all q1 ds = Ok (rs, q')"
    using Cons.IH [OF st(1) dv Cons.prems(3,4)] Cons.prems(5,6) st(2,3) by simp
  then show ?case using step by auto
qed

text \<open>
  runs of any length. If the durations' denominators all divide one 128-bit number and each
  duration stays two ticks below the field's maximum, the quantizer never reports an overflow.
\<close>

theorem quantizer_never_overflows:
  assumes "quantizer_new clock m = Ok q" "clock \<le> u32_max" "m \<le> u64_max" "0 < D" "D \<le> u128_max"
    and "list_all (\<lambda>d. wf_duration d \<and> fd_den d dvd D \<and> fd_num d * clock div fd_den d + 2 \<le> m) ds"
  shows "\<exists>rs q'. quantize_all q ds = Ok (rs, q')"
proof -
  note new = quantizer_new_wf [OF assms(1,2)]
  have m: "q_max_ticks q = m" using assms(1) by (auto simp: quantizer_new_def split: if_splits)
  show ?thesis
    by (rule quantize_all_total_run [OF new(1) _ assms(4,5)])
      (use assms(3,6) new(4,5) m in simp_all)
qed

theorem quantizer_never_overflows_witness:
  "\<exists>rs q'. quantize_all
     \<lparr> q_clock = 100, q_max_ticks = 65535, phase_num = 0, phase_den = 1, rounded_up = False \<rparr>
     (replicate 1000000 \<lparr> fd_num = 1001, fd_den = 30000 \<rparr>) = Ok (rs, q')"
proof (rule quantizer_never_overflows [where D = 30000 and clock = 100 and m = 65535])
  have "coprime (1001::nat) 30000"
    by (simp only: coprime_iff_gcd_eq_1 euclid_gcd [symmetric])
      (simp add: euclid.simps del: euclid_gcd)
  then have "wf_duration \<lparr> fd_num = 1001, fd_den = 30000 \<rparr>"
    by (simp only: wf_duration_def frame_duration.simps) (simp add: u32_max_def u64_max_def)
  then show "list_all (\<lambda>d. wf_duration d \<and> fd_den d dvd 30000 \<and> fd_num d * 100 div fd_den d + 2 \<le> 65535)
      (replicate 1000000 \<lparr> fd_num = 1001, fd_den = 30000 \<rparr>)"
    by (simp add: list_all_iff)
qed (simp_all add: quantizer_new_def u32_max_def u64_max_def u128_max_def)

end
