(* ===== verification/Inventory.thy ===== *)
theory Inventory
  imports Prelude "HOL-Library.Product_Lexorder" "HOL-Library.Multiset"
begin

text \<open>
  \<open>src/src/inventory.rs\<close>: the byte-exact map of a file's parts. A part is recorded once by
  \<open>push\<close>, which threads it into the sibling list of its parent; the lists are index-linked
  (\<open>first_child\<close>, \<open>next_sibling\<close>, \<open>first_top\<close>, ended by \<open>NONE = u32::MAX\<close>) and run in
  reverse push order. The allocator is an argument: \<open>al v n\<close> says whether vector \<open>v\<close> may
  grow to \<open>n\<close> elements, so every \<open>try_reserve\<close> of the code can fail in the model. A result
  \<open>None\<close> of type \<open>run\<close> is a panic (an index out of range) or a list that does not end.
\<close>

subsection \<open>Parts\<close>

datatype part_kind =
    Header | Segment | ScanData | Chunk | Box | Item | Extent | Property | Block | Ifd | Field
  | Attribute | EmbeddedImage | CodedUnit | Trailer | Gap

datatype part_tag = NoTag | Marker "8 word" | FourCc "8 word list" | Code nat | Name string

datatype metadata_kind =
    MExif | MXmp | MIcc | MCicp | MColour | MHdrStatic | MGainMap | MOrientation | MResolution
  | MAnimation | MSupplement

datatype disposition =
    Structure | ImageData | Metadata metadata_kind | Dropped | Skipped | Unknown | Trailing
  | Unreferenced | Padding | Malformed

fun part_kind_name :: "part_kind \<Rightarrow> string" where
  "part_kind_name Header = ''header''"
| "part_kind_name Segment = ''segment''"
| "part_kind_name ScanData = ''scan-data''"
| "part_kind_name Chunk = ''chunk''"
| "part_kind_name Box = ''box''"
| "part_kind_name Item = ''item''"
| "part_kind_name Extent = ''extent''"
| "part_kind_name Property = ''property''"
| "part_kind_name Block = ''block''"
| "part_kind_name Ifd = ''ifd''"
| "part_kind_name Field = ''field''"
| "part_kind_name Attribute = ''attribute''"
| "part_kind_name EmbeddedImage = ''embedded-image''"
| "part_kind_name CodedUnit = ''coded-unit''"
| "part_kind_name Trailer = ''trailer''"
| "part_kind_name Gap = ''gap''"

fun metadata_kind_name :: "metadata_kind \<Rightarrow> string" where
  "metadata_kind_name MExif = ''exif''"
| "metadata_kind_name MXmp = ''xmp''"
| "metadata_kind_name MIcc = ''icc''"
| "metadata_kind_name MCicp = ''cicp''"
| "metadata_kind_name MColour = ''colour''"
| "metadata_kind_name MHdrStatic = ''hdr-static''"
| "metadata_kind_name MGainMap = ''gain-map''"
| "metadata_kind_name MOrientation = ''orientation''"
| "metadata_kind_name MResolution = ''resolution''"
| "metadata_kind_name MAnimation = ''animation''"
| "metadata_kind_name MSupplement = ''supplement''"

fun is_consumed :: "disposition \<Rightarrow> bool" where
  "is_consumed Structure = True"
| "is_consumed ImageData = True"
| "is_consumed (Metadata _) = True"
| "is_consumed _ = False"

fun disposition_name :: "disposition \<Rightarrow> string" where
  "disposition_name Structure = ''structure''"
| "disposition_name ImageData = ''image-data''"
| "disposition_name (Metadata _) = ''metadata''"
| "disposition_name Dropped = ''dropped''"
| "disposition_name Skipped = ''skipped''"
| "disposition_name Unknown = ''unknown''"
| "disposition_name Trailing = ''trailing''"
| "disposition_name Unreferenced = ''unreferenced''"
| "disposition_name Padding = ''padding''"
| "disposition_name Malformed = ''malformed''"

text \<open>A half-open byte range, \<open>Range<u64>\<close>.\<close>

record rng =
  lo :: nat
  hi :: nat

definition bytes_of :: "rng \<Rightarrow> nat set" where
  "bytes_of r = {lo r..<hi r}"

record part =
  p_parent :: "nat option"
  p_kind :: part_kind
  p_tag :: part_tag
  p_label :: "string option"
  p_range :: rng
  p_body :: "rng option"
  p_disposition :: disposition
  p_detail :: "string option"

definition part_new :: "part_kind \<Rightarrow> part_tag \<Rightarrow> rng \<Rightarrow> disposition \<Rightarrow> part" where
  "part_new k t r d = \<lparr> p_parent = None, p_kind = k, p_tag = t, p_label = None, p_range = r,
     p_body = None, p_disposition = d, p_detail = None \<rparr>"

definition with_label :: "string \<Rightarrow> part \<Rightarrow> part" where "with_label l p = p\<lparr>p_label := Some l\<rparr>"
definition with_body :: "rng \<Rightarrow> part \<Rightarrow> part" where "with_body b p = p\<lparr>p_body := Some b\<rparr>"
definition with_detail :: "string \<Rightarrow> part \<Rightarrow> part" where "with_detail d p = p\<lparr>p_detail := Some d\<rparr>"
definition clear_body :: "part \<Rightarrow> part" where "clear_body p = p\<lparr>p_body := None\<rparr>"
definition clear_detail :: "part \<Rightarrow> part" where "clear_detail p = p\<lparr>p_detail := None\<rparr>"

definition part_len :: "part \<Rightarrow> nat" where
  "part_len p = hi (p_range p) - lo (p_range p)"

definition part_is_empty :: "part \<Rightarrow> bool" where
  "part_is_empty p \<longleftrightarrow> part_len p = 0"

subsection \<open>The inventory\<close>

datatype inventory_error =
    Allocation
  | TooManyParts nat
  | BadParent nat
  | EmptyPart nat
  | OutOfBounds nat
  | OutsideParent nat
  | Overlap nat nat
  | Uncovered "nat option" rng

datatype inventory_vec = VParts | VFirstChild | VNextSibling | VIds | VHoles

type_synonym allocator = "inventory_vec \<Rightarrow> nat \<Rightarrow> bool"
type_synonym ('e, 'a) run = "('e + 'a) option"

definition run_bind :: "('e, 'a) run \<Rightarrow> ('a \<Rightarrow> ('e, 'b) run) \<Rightarrow> ('e, 'b) run" where
  "run_bind r f = (case r of None \<Rightarrow> None | Some (Inl e) \<Rightarrow> Some (Inl e) | Some (Inr x) \<Rightarrow> f x)"

lemma run_bind_simps [simp]:
  "run_bind None f = None" "run_bind (Some (Inl e)) f = Some (Inl e)"
  "run_bind (Some (Inr x)) f = f x"
  by (simp_all add: run_bind_def)

definition NONE :: nat where "NONE = u32_max"

definition DEFAULT_MAX_PARTS :: nat where "DEFAULT_MAX_PARTS = 2 ^ 20"

record 'f inventory =
  inv_format :: 'f
  inv_len :: nat
  parts :: "part list"
  max_parts :: nat
  first_child :: "nat list"
  next_sibling :: "nat list"
  first_top :: nat

definition inventory_new :: "'f \<Rightarrow> nat \<Rightarrow> 'f inventory" where
  "inventory_new f n = \<lparr> inv_format = f, inv_len = n, parts = [], max_parts = DEFAULT_MAX_PARTS,
     first_child = [], next_sibling = [], first_top = NONE \<rparr>"

definition with_max_parts :: "nat \<Rightarrow> 'f inventory \<Rightarrow> 'f inventory" where
  "with_max_parts m i = i\<lparr>max_parts := m\<rparr>"

definition reserve_parts :: "allocator \<Rightarrow> 'f inventory \<Rightarrow> nat \<Rightarrow> inventory_error + unit" where
  "reserve_parts al i additional =
     (if additional > max_parts i - length (parts i) then Err (TooManyParts (max_parts i))
      else if \<not> al VParts (length (parts i) + additional) then Err Allocation
      else if \<not> al VFirstChild (length (first_child i) + additional) then Err Allocation
      else if \<not> al VNextSibling (length (next_sibling i) + additional) then Err Allocation
      else Ok ())"

definition push ::
    "allocator \<Rightarrow> 'f inventory \<Rightarrow> nat option \<Rightarrow> part \<Rightarrow> 'f inventory \<times> (inventory_error + nat)" where
  "push al i parent part =
     (let n = wrap u32_max (length (parts i)) in
      if length (parts i) \<ge> max_parts i then (i, Err (TooManyParts (max_parts i)))
      else if (case parent of None \<Rightarrow> False | Some p \<Rightarrow> p \<ge> length (parts i)) then (i, Err (BadParent n))
      else case reserve_parts al i 1 of
        Inl e \<Rightarrow> (i, Err e)
      | Inr _ \<Rightarrow>
          let (next, i') = (case parent of
                Some p \<Rightarrow> (first_child i ! p, i\<lparr>first_child := (first_child i)[p := n]\<rparr>)
              | None \<Rightarrow> (first_top i, i\<lparr>first_top := n\<rparr>))
          in (i'\<lparr>parts := parts i' @ [part\<lparr>p_parent := parent\<rparr>],
                 first_child := first_child i' @ [NONE],
                 next_sibling := next_sibling i' @ [next]\<rparr>, Ok n))"

definition set_disposition ::
    "'f inventory \<Rightarrow> nat \<Rightarrow> disposition \<Rightarrow> 'f inventory \<times> disposition option" where
  "set_disposition i n d =
     (if n < length (parts i)
      then (i\<lparr>parts := (parts i)[n := (parts i ! n)\<lparr>p_disposition := d\<rparr>]\<rparr>,
            Some (p_disposition (parts i ! n)))
      else (i, None))"

definition set_detail :: "'f inventory \<Rightarrow> nat \<Rightarrow> string \<Rightarrow> 'f inventory \<times> bool" where
  "set_detail i n d =
     (if n < length (parts i)
      then (i\<lparr>parts := (parts i)[n := (parts i ! n)\<lparr>p_detail := Some d\<rparr>]\<rparr>, True)
      else (i, False))"

subsection \<open>Children\<close>

text \<open>
  The loop over a sibling list. \<open>None\<close> when an index is out of range, or when the list has not
  ended after as many steps as there are parts.
\<close>

fun sibling_walk ::
    "(nat \<Rightarrow> bool) \<Rightarrow> nat \<Rightarrow> nat list \<Rightarrow> nat \<Rightarrow> nat list \<Rightarrow> (inventory_error, nat list) run" where
  "sibling_walk al 0 ns next out = (if next = NONE then Some (Ok out) else None)"
| "sibling_walk al (Suc fuel) ns next out =
     (if next = NONE then Some (Ok out)
      else if \<not> al (Suc (length out)) then Some (Err Allocation)
      else if next < length ns then sibling_walk al fuel ns (ns ! next) (out @ [next])
      else None)"

definition range_of :: "'f inventory \<Rightarrow> nat \<Rightarrow> rng" where
  "range_of i n = p_range (parts i ! n)"

definition child_key :: "'f inventory \<Rightarrow> nat \<Rightarrow> nat \<times> nat" where
  "child_key i n = (lo (range_of i n), n)"

definition children_into ::
    "allocator \<Rightarrow> 'f inventory \<Rightarrow> nat option \<Rightarrow> (inventory_error, nat list) run" where
  "children_into al i parent =
     (let walk = (\<lambda>next.
        run_bind (sibling_walk (al VIds) (length (parts i)) (next_sibling i) next []) (\<lambda>ids.
        if \<forall>n\<in>set ids. n < length (parts i) then Some (Ok (sort_key (child_key i) ids)) else None))
      in case parent of
           None \<Rightarrow> walk (first_top i)
         | Some p \<Rightarrow> if p < length (first_child i) then walk (first_child i ! p) else Some (Ok []))"

definition try_children ::
    "allocator \<Rightarrow> 'f inventory \<Rightarrow> nat option \<Rightarrow> (inventory_error, nat list) run" where
  "try_children al i parent = children_into al i parent"

subsection \<open>Gaps\<close>

fun find_holes ::
    "(nat \<Rightarrow> bool) \<Rightarrow> 'f inventory \<Rightarrow> nat \<Rightarrow> nat list \<Rightarrow> nat \<Rightarrow> rng list \<Rightarrow> inventory_error + (rng list \<times> nat)" where
  "find_holes al i e [] cursor holes = Ok (holes, cursor)"
| "find_holes al i e (n # ids) cursor holes =
     (let r = range_of i n in
      if lo r > cursor then
        if \<not> al (Suc (length holes)) then Err Allocation
        else find_holes al i e ids (max cursor (hi r)) (holes @ [\<lparr> lo = cursor, hi = min (lo r) e \<rparr>])
      else find_holes al i e ids (max cursor (hi r)) holes)"

definition all_holes ::
    "(nat \<Rightarrow> bool) \<Rightarrow> 'f inventory \<Rightarrow> rng \<Rightarrow> nat list \<Rightarrow> inventory_error + rng list" where
  "all_holes al i s ids =
     and_then (find_holes al i (hi s) ids (lo s) []) (\<lambda>(holes, cursor).
       if cursor < hi s then
         if \<not> al (Suc (length holes)) then Err Allocation
         else Ok (holes @ [\<lparr> lo = cursor, hi = hi s \<rparr>])
       else Ok holes)"

fun push_gaps ::
    "allocator \<Rightarrow> 'f inventory \<Rightarrow> nat option \<Rightarrow> disposition \<Rightarrow> rng list \<Rightarrow> 'f inventory \<times> (inventory_error + unit)" where
  "push_gaps al i parent d [] = (i, Ok ())"
| "push_gaps al i parent d (h # hs) =
     (if lo h < hi h then
        (case push al i parent (part_new Gap NoTag h d) of
           (i', Inl e) \<Rightarrow> (i', Err e)
         | (i', Inr _) \<Rightarrow> push_gaps al i' parent d hs)
      else push_gaps al i parent d hs)"

definition level_span :: "'f inventory \<Rightarrow> nat option \<Rightarrow> rng option" where
  "level_span i parent = (case parent of
     None \<Rightarrow> Some \<lparr> lo = 0, hi = inv_len i \<rparr>
   | Some p \<Rightarrow> if p < length (parts i) then p_body (parts i ! p) else None)"

definition fill_gaps ::
    "allocator \<Rightarrow> 'f inventory \<Rightarrow> nat option \<Rightarrow> disposition \<Rightarrow> ('f inventory \<times> (inventory_error + unit)) option" where
  "fill_gaps al i parent d = (case level_span i parent of
     None \<Rightarrow> Some (i, Ok ())
   | Some s \<Rightarrow> (case try_children al i parent of
       None \<Rightarrow> None
     | Some (Inl e) \<Rightarrow> Some (i, Err e)
     | Some (Inr ids) \<Rightarrow> (case all_holes (al VHoles) i s ids of
         Inl e \<Rightarrow> Some (i, Err e)
       | Inr holes \<Rightarrow> (case reserve_parts al i (length (filter (\<lambda>h. lo h < hi h) holes)) of
           Inl e \<Rightarrow> Some (i, Err e)
         | Inr _ \<Rightarrow> Some (push_gaps al i parent d holes)))))"

subsection \<open>Validation\<close>

fun first_overlap :: "'f inventory \<Rightarrow> nat list \<Rightarrow> inventory_error + unit" where
  "first_overlap i (a # b # ids) =
     (if lo (range_of i b) < hi (range_of i a) then Err (Overlap a b) else first_overlap i (b # ids))"
| "first_overlap i _ = Ok ()"

fun check_tiling ::
    "'f inventory \<Rightarrow> nat option \<Rightarrow> rng \<Rightarrow> nat list \<Rightarrow> nat \<Rightarrow> inventory_error + unit" where
  "check_tiling i parent s [] cursor =
     (if cursor < hi s then Err (Uncovered parent \<lparr> lo = cursor, hi = hi s \<rparr>) else Ok ())"
| "check_tiling i parent s (n # ids) cursor =
     (let r = range_of i n in
      if lo r < lo s \<or> hi r > hi s then Err (OutsideParent n)
      else if lo r > cursor then Err (Uncovered parent \<lparr> lo = cursor, hi = lo r \<rparr>)
      else check_tiling i parent s ids (hi r))"

definition check_level ::
    "'f inventory \<Rightarrow> nat option \<Rightarrow> nat list \<Rightarrow> rng option \<Rightarrow> inventory_error + unit" where
  "check_level i parent ids s =
     and_then (first_overlap i ids) (\<lambda>_.
     case s of None \<Rightarrow> Ok () | Some s \<Rightarrow> check_tiling i parent s ids (lo s))"

definition check_part :: "'f inventory \<Rightarrow> nat \<Rightarrow> inventory_error + unit" where
  "check_part i n =
     (let p = parts i ! n; r = p_range p in
      if lo r \<ge> hi r then Err (EmptyPart n)
      else if hi r > inv_len i then Err (OutOfBounds n)
      else if (case p_body p of None \<Rightarrow> False
               | Some b \<Rightarrow> lo b < lo r \<or> hi b > hi r \<or> lo b > hi b) then Err (OutsideParent n)
      else case p_parent p of
        None \<Rightarrow> Ok ()
      | Some q \<Rightarrow>
          if q \<ge> n then Err (BadParent n)
          else if lo r < lo (range_of i q) \<or> hi r > hi (range_of i q) then Err (OutsideParent n)
          else Ok ())"

fun each :: "(nat \<Rightarrow> ('e, unit) run) \<Rightarrow> nat list \<Rightarrow> ('e, unit) run" where
  "each f [] = Some (Ok ())"
| "each f (n # ns) = run_bind (f n) (\<lambda>_. each f ns)"

definition validate_level :: "allocator \<Rightarrow> 'f inventory \<Rightarrow> nat option \<Rightarrow> (inventory_error, unit) run" where
  "validate_level al i parent =
     run_bind (children_into al i parent) (\<lambda>ids.
       Some (check_level i parent ids (case parent of
         None \<Rightarrow> Some \<lparr> lo = 0, hi = inv_len i \<rparr> | Some p \<Rightarrow> p_body (parts i ! p))))"

definition validate :: "allocator \<Rightarrow> 'f inventory \<Rightarrow> (inventory_error, unit) run" where
  "validate al i =
     run_bind (each (\<lambda>n. Some (check_part i n)) [0..<length (parts i)]) (\<lambda>_.
     run_bind (validate_level al i None) (\<lambda>_.
     each (\<lambda>n. if first_child i ! n = NONE \<and> p_body (parts i ! n) = None then Some (Ok ())
               else validate_level al i (Some n)) [0..<length (parts i)]))"

subsection \<open>Reports\<close>

definition unconsumed :: "'f inventory \<Rightarrow> (nat \<times> part) list" where
  "unconsumed i = filter (\<lambda>(n, p). \<not> is_consumed (p_disposition p)) (enumerate 0 (parts i))"

fun add_bytes :: "(string \<times> nat) list \<Rightarrow> string \<Rightarrow> nat \<Rightarrow> (string \<times> nat) list" where
  "add_bytes [] name n = [(name, n)]"
| "add_bytes ((m, k) # ts) name n = (if m = name then (m, k + n) # ts else (m, k) # add_bytes ts name n)"

definition bytes_by_disposition :: "'f inventory \<Rightarrow> (string \<times> nat) list" where
  "bytes_by_disposition i =
     foldl (\<lambda>totals n. if first_child i ! n \<noteq> NONE then totals
        else add_bytes totals (disposition_name (p_disposition (parts i ! n))) (part_len (parts i ! n)))
       [] [0..<length (parts i)]"

end
