(* ===== verification/Inventory_Coverage.thy ===== *)
theory Inventory_Coverage
  imports Inventory
begin

text \<open>
  What the inventory of \<^theory_text>\<open>Inventory\<close> promises: the sibling lists always hold exactly the
  parts pushed under each parent, \<open>validate\<close> accepts exactly the maps whose parts nest,
  never overlap and tile the file and every body, each byte of a validated file has one
  owner, and \<open>fill_gaps\<close> completes a level or changes nothing.
\<close>

subsection \<open>The sibling lists\<close>

definition kids :: "'f inventory \<Rightarrow> nat option \<Rightarrow> nat list" where
  "kids i parent = filter (\<lambda>n. p_parent (parts i ! n) = parent) [0..<length (parts i)]"

fun chain :: "nat list \<Rightarrow> nat \<Rightarrow> nat list \<Rightarrow> bool" where
  "chain ns h [] \<longleftrightarrow> h = NONE"
| "chain ns h (x # xs) \<longleftrightarrow> h = x \<and> x \<noteq> NONE \<and> x < length ns \<and> chain ns (ns ! x) xs"

definition list_head :: "'f inventory \<Rightarrow> nat option \<Rightarrow> nat" where
  "list_head i parent = (case parent of None \<Rightarrow> first_top i | Some p \<Rightarrow> first_child i ! p)"

definition is_level :: "'f inventory \<Rightarrow> nat option \<Rightarrow> bool" where
  "is_level i parent = (case parent of None \<Rightarrow> True | Some p \<Rightarrow> p < length (parts i))"

definition wf_links :: "'f inventory \<Rightarrow> bool" where
  "wf_links i \<longleftrightarrow>
     max_parts i \<le> u32_max \<and> length (parts i) \<le> u32_max
     \<and> length (first_child i) = length (parts i) \<and> length (next_sibling i) = length (parts i)
     \<and> (\<forall>n < length (parts i). is_level i (p_parent (parts i ! n)))
     \<and> (\<forall>q. is_level i q \<longrightarrow> chain (next_sibling i) (list_head i q) (rev (kids i q)))"

lemma wf_linksD:
  assumes "wf_links i"
  shows "max_parts i \<le> u32_max" "length (parts i) \<le> u32_max"
    "length (first_child i) = length (parts i)" "length (next_sibling i) = length (parts i)"
    "\<And>q. is_level i q \<Longrightarrow> chain (next_sibling i) (list_head i q) (rev (kids i q))"
    "\<And>n. n < length (parts i) \<Longrightarrow> is_level i (p_parent (parts i ! n))"
  using assms unfolding wf_links_def by auto

lemma set_kids: "set (kids i q) = {n. n < length (parts i) \<and> p_parent (parts i ! n) = q}"
  by (auto simp: kids_def)

lemma distinct_kids [simp]: "distinct (kids i q)"
  by (simp add: kids_def)

lemma length_kids: "length (kids i q) \<le> length (parts i)"
  using length_filter_le [of _ "[0..<length (parts i)]"] unfolding kids_def by (metis length_upt diff_zero)

lemma is_level_simps [simp]:
  "is_level i None" "is_level i (Some p) \<longleftrightarrow> p < length (parts i)"
  by (simp_all add: is_level_def)

lemma chain_snoc: "chain ns h xs \<Longrightarrow> chain (ns @ [y]) h xs"
  by (induction xs arbitrary: h) (auto simp: nth_append)

lemma wf_links_new [simp]: "wf_links (inventory_new f n)"
  by (simp add: wf_links_def inventory_new_def is_level_def kids_def list_head_def
      DEFAULT_MAX_PARTS_def u32_max_def split: option.split)

text \<open>A successful push, once for all its uses.\<close>

lemma push_Ok:
  assumes "wf_links i" "push al i parent p = (i', Ok n)"
  shows "n = length (parts i)" "is_level i parent" "length (parts i) < max_parts i"
    "parts i' = parts i @ [p\<lparr>p_parent := parent\<rparr>]"
    "next_sibling i' = next_sibling i @ [list_head i parent]"
    "first_child i' = (case parent of None \<Rightarrow> first_child i | Some q \<Rightarrow> (first_child i)[q := n]) @ [NONE]"
    "first_top i' = (case parent of None \<Rightarrow> n | Some q \<Rightarrow> first_top i)"
    "max_parts i' = max_parts i" "inv_len i' = inv_len i"
proof -
  have "wrap u32_max (length (parts i)) = length (parts i)" using wf_linksD(2)[OF assms(1)] by simp
  with assms(2) show "n = length (parts i)" "is_level i parent" "length (parts i) < max_parts i"
    "parts i' = parts i @ [p\<lparr>p_parent := parent\<rparr>]"
    "next_sibling i' = next_sibling i @ [list_head i parent]"
    "first_child i' = (case parent of None \<Rightarrow> first_child i | Some q \<Rightarrow> (first_child i)[q := n]) @ [NONE]"
    "first_top i' = (case parent of None \<Rightarrow> n | Some q \<Rightarrow> first_top i)"
    "max_parts i' = max_parts i" "inv_len i' = inv_len i"
    by (auto simp: push_def Let_def list_head_def not_le split: if_splits sum.splits option.splits)
qed

lemma push_Err:
  assumes "push al i parent p = (i', Err e)"
  shows "i' = i"
  using assms by (auto simp: push_def Let_def split: if_splits sum.splits option.splits prod.splits)

lemma kids_push:
  assumes "wf_links i" "push al i parent p = (i', Ok n)"
  shows "kids i' q = kids i q @ (if q = parent then [length (parts i)] else [])"
proof -
  have "kids i' q = filter (\<lambda>n. p_parent (parts i' ! n) = q) [0..<length (parts i)]
      @ (if q = parent then [length (parts i)] else [])"
    unfolding kids_def push_Ok(4)[OF assms] by auto
  moreover have "filter (\<lambda>n. p_parent (parts i' ! n) = q) [0..<length (parts i)] = kids i q"
    unfolding kids_def by (rule filter_cong) (auto simp: push_Ok(4)[OF assms] nth_append)
  ultimately show ?thesis by simp
qed

lemma list_head_push:
  assumes "wf_links i" "push al i parent p = (i', Ok n)" "is_level i q"
  shows "list_head i' q = (if q = parent then n else list_head i q)"
  using push_Ok[OF assms(1,2)] wf_linksD(3)[OF assms(1)] assms(3)
  by (auto simp: list_head_def nth_append split: option.splits)

lemma wf_links_push:
  assumes wf: "wf_links i" and pushed: "push al i parent p = (i', r)"
  shows "wf_links i'"
proof (cases r)
  case (Inl e)
  then show ?thesis using push_Err wf pushed by blast
next
  case (Inr n)
  note ok = push_Ok[OF wf pushed[unfolded Inr]] and kids = kids_push[OF wf pushed[unfolded Inr]]
    and head = list_head_push[OF wf pushed[unfolded Inr]] and wfD = wf_linksD[OF wf]
  have bound: "length (parts i) < u32_max" using ok(3) wfD(1) by simp
  have levels: "is_level i' q \<longleftrightarrow> is_level i q \<or> q = Some (length (parts i))" for q
    by (cases q) (auto simp: ok(4))
  have "chain (next_sibling i') (list_head i' q) (rev (kids i' q))" if "is_level i' q" for q
  proof (cases "is_level i q")
    case True
    have "chain (next_sibling i') (list_head i q) (rev (kids i q))"
      using chain_snoc[OF wfD(5)[OF True]] ok(5) by simp
    then show ?thesis
      using bound wfD(4) ok(1) by (auto simp: kids head[OF True] ok(5) nth_append NONE_def)
  next
    case False
    with that have q: "q = Some (length (parts i))" by (simp add: levels)
    moreover have "kids i q = []" using False wfD(6) by (force simp: set_kids simp flip: set_empty)
    moreover have "parent \<noteq> q" using ok(2) False by auto
    ultimately show ?thesis
      using wfD(3) by (simp add: kids list_head_def ok(6) nth_append NONE_def split: option.splits)
  qed
  moreover have "is_level i' (p_parent (parts i' ! m))" if "m < length (parts i')" for m
    using that wfD(6) ok(2) by (auto simp: ok(4) levels nth_append less_Suc_eq)
  ultimately show ?thesis
    using wfD(1,3,4) bound ok(4-8) by (auto simp: wf_links_def split: option.splits)
qed

text \<open>Changing a disposition or a detail leaves ranges, parents and lists alone.\<close>

definition same_structure :: "'f inventory \<Rightarrow> 'f inventory \<Rightarrow> bool" where
  "same_structure i j \<longleftrightarrow>
     inv_len j = inv_len i \<and> max_parts j = max_parts i \<and> first_child j = first_child i
     \<and> next_sibling j = next_sibling i \<and> first_top j = first_top i
     \<and> length (parts j) = length (parts i)
     \<and> (\<forall>n < length (parts i). p_parent (parts j ! n) = p_parent (parts i ! n)
          \<and> p_range (parts j ! n) = p_range (parts i ! n) \<and> p_body (parts j ! n) = p_body (parts i ! n))"

lemma set_disposition_structure: "same_structure i (fst (set_disposition i n d))"
  by (auto simp: same_structure_def set_disposition_def nth_list_update)

lemma set_detail_structure: "same_structure i (fst (set_detail i n d))"
  by (auto simp: same_structure_def set_detail_def nth_list_update)

lemma kids_same_structure: "same_structure i j \<Longrightarrow> kids j = kids i"
  unfolding kids_def same_structure_def by (intro ext filter_cong) auto

lemma wf_links_same_structure:
  assumes "same_structure i j" "wf_links i"
  shows "wf_links j"
proof -
  have "is_level j = is_level i" "list_head j = list_head i"
    using assms(1) by (auto simp: same_structure_def is_level_def list_head_def fun_eq_iff split: option.splits)
  with assms kids_same_structure[OF assms(1)] show ?thesis
    by (auto simp: wf_links_def same_structure_def)
qed

subsection \<open>Children\<close>

lemma sibling_walk_chain:
  assumes "chain ns h xs" "length xs \<le> fuel"
  shows "sibling_walk al fuel ns h out =
    (if \<forall>k \<in> {length out<..length out + length xs}. al k then Some (Ok (out @ xs)) else Some (Err Allocation))"
  using assms
proof (induction xs arbitrary: h fuel out)
  case Nil
  then show ?case by (cases fuel) auto
next
  case (Cons x xs)
  then obtain f where f: "fuel = Suc f" by (cases fuel) auto
  have "{length out<..length out + length (x # xs)} =
      insert (Suc (length out)) {length (out @ [x])<..length (out @ [x]) + length xs}"
    by auto
  with Cons.prems Cons.IH [of "ns ! x" f "out @ [x]"] f show ?case by auto
qed

lemma sort_by_child_key:
  assumes "mset ids = mset (kids i q)"
  shows "sort_key (child_key i) ids = sort_key (child_key i) (kids i q)"
  using assms by (intro sort_key_inj_key_eq) (auto simp: inj_on_def child_key_def)

lemma children_into_eq:
  assumes "wf_links i" "is_level i q"
  shows "children_into al i q =
    (if \<forall>k \<in> {0<..length (kids i q)}. al VIds k then Some (Ok (sort_key (child_key i) (kids i q)))
     else Some (Err Allocation))"
proof -
  have "sibling_walk (al VIds) (length (parts i)) (next_sibling i) (list_head i q) [] =
      (if \<forall>k \<in> {0<..length (kids i q)}. al VIds k then Some (Ok (rev (kids i q))) else Some (Err Allocation))"
    using sibling_walk_chain[OF wf_linksD(5)[OF assms], of "length (parts i)" "al VIds" "[]"] length_kids[of i q]
    by simp
  then show ?thesis
    using assms wf_linksD(3)[OF assms(1)] sort_by_child_key[of "rev (kids i q)" i q]
    by (auto simp: children_into_def list_head_def set_kids split: option.splits)
qed

lemma children_into_beyond: "wf_links i \<Longrightarrow> \<not> is_level i q \<Longrightarrow> children_into al i q = Some (Ok [])"
  by (auto simp: children_into_def is_level_def wf_linksD split: option.splits)

text \<open>
  \<open>try_children\<close> (inventory.rs:718-755) of any inventory built by \<open>push\<close> ends and never
  indexes out of range; unless an allocation fails it returns exactly the parts recorded under
  that parent, each once, in order of start offset and of recording for equal offsets.
\<close>

theorem try_children_complete:
  assumes "wf_links i"
  shows "try_children al i q = Some (Err Allocation) \<or>
    (\<exists>ids. try_children al i q = Some (Ok ids)
       \<and> set ids = {n. n < length (parts i) \<and> p_parent (parts i ! n) = q} \<and> distinct ids
       \<and> sorted (map (\<lambda>n. (lo (p_range (parts i ! n)), n)) ids))"
proof (cases "is_level i q")
  case True
  show ?thesis
    unfolding try_children_def children_into_eq[OF assms True]
    using sorted_sort_key[of "child_key i" "kids i q"]
    by (simp add: set_kids child_key_def[abs_def] range_of_def)
next
  case False
  then show ?thesis
    using wf_linksD(6)[OF assms] by (force simp: try_children_def children_into_beyond[OF assms])
qed

definition sample_part :: "nat \<Rightarrow> nat \<Rightarrow> part" where
  "sample_part a b = part_new Chunk NoTag \<lparr> lo = a, hi = b \<rparr> Structure"

definition sample_inventory :: "unit inventory" where
  "sample_inventory = fst (push (\<lambda>_ _. True) (fst (push (\<lambda>_ _. True) (inventory_new () 9)
     None (with_body \<lparr> lo = 5, hi = 9 \<rparr> (sample_part 4 9)))) None (sample_part 0 4))"

lemma wf_links_sample [simp]: "wf_links sample_inventory"
  unfolding sample_inventory_def by (metis wf_links_push wf_links_new prod.collapse)

lemma sample_inventory_eq: "sample_inventory =
  \<lparr> inv_format = (), inv_len = 9,
    parts = [with_body \<lparr> lo = 5, hi = 9 \<rparr> (sample_part 4 9), sample_part 0 4],
    max_parts = DEFAULT_MAX_PARTS, first_child = [NONE, NONE], next_sibling = [NONE, 0], first_top = 1 \<rparr>"
  by (simp add: sample_inventory_def push_def reserve_parts_def inventory_new_def sample_part_def
      part_new_def with_body_def DEFAULT_MAX_PARTS_def u32_max_def)

theorem try_children_complete_witness:
  "try_children (\<lambda>_ _. True) sample_inventory None = Some (Ok [1, 0])
   \<and> (\<exists>ids. try_children (\<lambda>_ _. True) sample_inventory None = Some (Ok ids) \<and> set ids = {0, 1})"
proof -
  have "try_children (\<lambda>_ _. True) sample_inventory None = Some (Ok [1, 0])"
    by (simp add: try_children_def children_into_def sample_inventory_eq sample_part_def part_new_def
        with_body_def NONE_def u32_max_def child_key_def range_of_def numeral_2_eq_2)
  moreover have "{n. n < length (parts sample_inventory) \<and> p_parent (parts sample_inventory ! n) = None} = {0, 1}"
    by (auto simp: sample_inventory_eq sample_part_def part_new_def with_body_def nth_Cons' less_Suc_eq)
  ultimately show ?thesis
    using try_children_complete[OF wf_links_sample, of "\<lambda>_ _. True" None] by auto
qed

subsection \<open>What a valid map is\<close>

definition well_placed :: "'f inventory \<Rightarrow> nat \<Rightarrow> bool" where
  "well_placed i n \<longleftrightarrow> (let r = range_of i n in
     lo r < hi r \<and> hi r \<le> inv_len i
     \<and> (\<forall>b. p_body (parts i ! n) = Some b \<longrightarrow> lo r \<le> lo b \<and> lo b \<le> hi b \<and> hi b \<le> hi r)
     \<and> (\<forall>q. p_parent (parts i ! n) = Some q \<longrightarrow> q < n \<and> bytes_of r \<subseteq> bytes_of (range_of i q)))"

definition covered :: "'f inventory \<Rightarrow> nat list \<Rightarrow> nat set" where
  "covered i ids = (\<Union>n \<in> set ids. bytes_of (range_of i n))"

definition siblings_disjoint :: "'f inventory \<Rightarrow> nat list \<Rightarrow> bool" where
  "siblings_disjoint i ids \<longleftrightarrow>
     (\<forall>a \<in> set ids. \<forall>b \<in> set ids. a \<noteq> b \<longrightarrow> bytes_of (range_of i a) \<inter> bytes_of (range_of i b) = {})"

definition level_tiled :: "'f inventory \<Rightarrow> nat option \<Rightarrow> bool" where
  "level_tiled i q \<longleftrightarrow> (\<forall>s. level_span i q = Some s \<longrightarrow> covered i (kids i q) = bytes_of s)"

definition valid_map :: "'f inventory \<Rightarrow> bool" where
  "valid_map i \<longleftrightarrow> (\<forall>n < length (parts i). well_placed i n)
     \<and> (\<forall>q. is_level i q \<longrightarrow> siblings_disjoint i (kids i q) \<and> level_tiled i q)"

lemma covered_simps [simp]:
  "covered i [] = {}" "covered i (n # ids) = bytes_of (range_of i n) \<union> covered i ids"
  by (simp_all add: covered_def)

lemma check_part_Ok: "check_part i n = Ok () \<longleftrightarrow> well_placed i n"
  by (auto simp: check_part_def well_placed_def range_of_def bytes_of_def Let_def not_le not_less
      split: option.splits)

subsection \<open>One level\<close>

definition non_empty :: "'f inventory \<Rightarrow> nat list \<Rightarrow> bool" where
  "non_empty i ids \<longleftrightarrow> (\<forall>n \<in> set ids. lo (range_of i n) < hi (range_of i n))"

abbreviation in_order :: "'f inventory \<Rightarrow> nat list \<Rightarrow> bool" where
  "in_order i ids \<equiv> sorted_wrt (\<lambda>a b. hi (range_of i a) \<le> lo (range_of i b)) ids"

lemma non_empty_simps [simp]:
  "non_empty i []" "non_empty i (n # ids) \<longleftrightarrow> lo (range_of i n) < hi (range_of i n) \<and> non_empty i ids"
  by (simp_all add: non_empty_def)

lemma first_overlap_Ok: "non_empty i ids \<Longrightarrow> first_overlap i ids = Ok () \<longleftrightarrow> in_order i ids"
proof (induction i ids rule: first_overlap.induct)
  case (1 i a b ids)
  then show ?case by (auto simp: not_less)
qed auto

lemma in_order_iff_disjoint:
  assumes "non_empty i ids" "distinct ids" "sorted (map (child_key i) ids)"
  shows "in_order i ids \<longleftrightarrow> siblings_disjoint i ids"
  using assms
proof (induction ids)
  case Nil
  then show ?case by (simp add: siblings_disjoint_def)
next
  case (Cons n ids)
  have as_pairwise: "siblings_disjoint i ids =
      pairwise (\<lambda>a b. bytes_of (range_of i a) \<inter> bytes_of (range_of i b) = {}) (set ids)" for ids
    by (simp add: siblings_disjoint_def pairwise_def)
  have split: "siblings_disjoint i (n # ids) \<longleftrightarrow> siblings_disjoint i ids
      \<and> (\<forall>m \<in> set ids. bytes_of (range_of i n) \<inter> bytes_of (range_of i m) = {})"
    using Cons.prems(2) by (auto simp: as_pairwise pairwise_insert Int_commute)
  have "bytes_of (range_of i n) \<inter> bytes_of (range_of i m) = {} \<longleftrightarrow> hi (range_of i n) \<le> lo (range_of i m)"
    if "m \<in> set ids" for m
  proof -
    have "lo (range_of i n) \<le> lo (range_of i m)" "lo (range_of i m) < hi (range_of i m)"
      "lo (range_of i n) < hi (range_of i n)"
      using Cons.prems that by (auto simp: child_key_def less_eq_prod_def non_empty_def)
    then show ?thesis by (auto simp: bytes_of_def)
  qed
  then have "(\<forall>m \<in> set ids. bytes_of (range_of i n) \<inter> bytes_of (range_of i m) = {}) \<longleftrightarrow>
      (\<forall>m \<in> set ids. hi (range_of i n) \<le> lo (range_of i m))"
    by (intro ball_cong) auto
  moreover have "in_order i ids = siblings_disjoint i ids" using Cons by simp
  ultimately show ?case unfolding split by auto
qed

lemma check_tiling_Ok_from:
  assumes "non_empty i ids" "in_order i ids" "\<forall>n \<in> set ids. c \<le> lo (range_of i n)" "lo s \<le> c"
  shows "check_tiling i q s ids c = Ok () \<longleftrightarrow> covered i ids = {c..<hi s}"
  using assms
proof (induction ids arbitrary: c)
  case Nil
  then show ?case by auto
next
  case (Cons n ids)
  let ?r = "range_of i n"
  have IH: "check_tiling i q s ids (hi ?r) = Ok () \<longleftrightarrow> covered i ids = {hi ?r..<hi s}"
    by (rule Cons.IH) (use Cons.prems in auto)
  have rest: "covered i ids \<subseteq> {hi ?r..}" using Cons.prems(2) by (force simp: covered_def bytes_of_def)
  have ne: "lo ?r < hi ?r" and c: "c \<le> lo ?r" using Cons.prems by auto
  have outside: "covered i (n # ids) \<noteq> {c..<hi s}" if "hi ?r > hi s"
    using that ne by (auto simp: bytes_of_def set_eq_iff intro!: exI[of _ "hi ?r - 1"])
  have uncovered: "covered i (n # ids) \<noteq> {c..<hi s}" if "lo ?r > c" "hi ?r \<le> hi s"
  proof -
    have "c \<notin> covered i (n # ids)" using that ne rest by (auto simp: bytes_of_def)
    moreover have "c \<in> {c..<hi s}" using that ne by simp
    ultimately show ?thesis by blast
  qed
  have "covered i ids = {hi ?r..<hi s} \<longleftrightarrow> covered i (n # ids) = {c..<hi s}" if "lo ?r = c" "hi ?r \<le> hi s"
  proof -
    have "{c..<hi s} = bytes_of ?r \<union> {hi ?r..<hi s}" "bytes_of ?r \<inter> {hi ?r..<hi s} = {}"
      "bytes_of ?r \<inter> covered i ids = {}"
      using that ne rest by (auto simp: bytes_of_def)
    then show ?thesis by auto
  qed
  then show ?case using c IH outside uncovered Cons.prems(4) by (auto simp: Let_def not_less)
qed

lemma check_tiling_Ok:
  assumes "non_empty i ids" "in_order i ids" "sorted (map (child_key i) ids)"
  shows "check_tiling i q s ids (lo s) = Ok () \<longleftrightarrow> covered i ids = bytes_of s"
proof (cases "\<forall>n \<in> set ids. lo s \<le> lo (range_of i n)")
  case True
  then show ?thesis using check_tiling_Ok_from[OF assms(1,2), of "lo s" s q] by (simp add: bytes_of_def)
next
  case False
  then obtain n ns m where n: "ids = n # ns" and m: "m \<in> set ids" "lo (range_of i m) < lo s"
    by (cases ids) (auto simp: not_le)
  then have "lo (range_of i n) < lo s"
    using assms(3) by (auto simp: child_key_def less_eq_prod_def)
  moreover have "lo (range_of i m) \<in> covered i ids"
    using m assms(1) by (auto simp: covered_def non_empty_def bytes_of_def)
  ultimately have "covered i ids \<noteq> bytes_of s" using m(2) by (auto simp: bytes_of_def)
  with \<open>lo (range_of i n) < lo s\<close> n show ?thesis by (simp add: Let_def)
qed

lemma check_level_Ok:
  assumes "non_empty i ids" "distinct ids" "sorted (map (child_key i) ids)"
  shows "check_level i q ids s = Ok () \<longleftrightarrow>
    siblings_disjoint i ids \<and> (\<forall>b. s = Some b \<longrightarrow> covered i ids = bytes_of b)"
  using first_overlap_Ok[OF assms(1)] in_order_iff_disjoint[OF assms] check_tiling_Ok[OF assms(1) _ assms(3)]
  by (auto simp: check_level_def split: option.splits)

subsection \<open>The whole map\<close>

lemma each_Ok: "each f ns = Some (Ok ()) \<longleftrightarrow> (\<forall>n \<in> set ns. f n = Some (Ok ()))"
proof (induction ns)
  case (Cons n ns)
  then show ?case by (cases "f n" rule: option.exhaust) (auto simp: run_bind_def split: sum.splits)
qed simp

lemma each_no_panic: "(\<And>n. n \<in> set ns \<Longrightarrow> f n \<noteq> None) \<Longrightarrow> each f ns \<noteq> None"
  by (induction ns) (auto simp: run_bind_def split: option.splits sum.splits)

lemma kids_non_empty: "\<forall>n < length (parts i). well_placed i n \<Longrightarrow> non_empty i (kids i q)"
  by (auto simp: non_empty_def set_kids well_placed_def Let_def)

lemma covered_sort [simp]: "covered i (sort_key f ids) = covered i ids"
  by (simp add: covered_def)

lemma siblings_disjoint_sort [simp]: "siblings_disjoint i (sort_key f ids) = siblings_disjoint i ids"
  by (simp add: siblings_disjoint_def)

lemma validate_level_Ok:
  assumes "wf_links i" "\<forall>n < length (parts i). well_placed i n" "is_level i q"
  shows "validate_level al i q = Some (Ok ()) \<longrightarrow> siblings_disjoint i (kids i q) \<and> level_tiled i q"
    and "\<forall>k. k \<le> length (parts i) \<longrightarrow> al VIds k \<Longrightarrow>
      siblings_disjoint i (kids i q) \<and> level_tiled i q \<longrightarrow> validate_level al i q = Some (Ok ())"
proof -
  let ?s = "case q of None \<Rightarrow> Some \<lparr> lo = 0, hi = inv_len i \<rparr> | Some p \<Rightarrow> p_body (parts i ! p)"
  have level: "check_level i q (sort_key (child_key i) (kids i q)) ?s = Ok () \<longleftrightarrow>
      siblings_disjoint i (kids i q) \<and> level_tiled i q"
  proof -
    have "?s = level_span i q" using assms(3) by (cases q) (simp_all add: level_span_def)
    moreover have "non_empty i (sort_key (child_key i) (kids i q))"
      using kids_non_empty[OF assms(2), of q] by (simp add: non_empty_def)
    ultimately show ?thesis
      using check_level_Ok[of i "sort_key (child_key i) (kids i q)" q ?s]
      by (simp add: level_tiled_def)
  qed
  show "validate_level al i q = Some (Ok ()) \<longrightarrow> siblings_disjoint i (kids i q) \<and> level_tiled i q"
    using level by (simp add: validate_level_def children_into_eq[OF assms(1,3)])
  show "siblings_disjoint i (kids i q) \<and> level_tiled i q \<longrightarrow> validate_level al i q = Some (Ok ())"
    if "\<forall>k. k \<le> length (parts i) \<longrightarrow> al VIds k"
  proof -
    have "\<forall>k \<in> {0<..length (kids i q)}. al VIds k" using that length_kids[of i q] by auto
    then show ?thesis using level by (simp add: validate_level_def children_into_eq[OF assms(1,3)])
  qed
qed

lemma validate_level_no_panic: "wf_links i \<Longrightarrow> is_level i q \<Longrightarrow> validate_level al i q \<noteq> None"
  by (simp add: validate_level_def children_into_eq)

lemma childless_level:
  assumes "wf_links i" "n < length (parts i)" "first_child i ! n = NONE" "p_body (parts i ! n) = None"
  shows "siblings_disjoint i (kids i (Some n)) \<and> level_tiled i (Some n)"
proof -
  have "chain (next_sibling i) NONE (rev (kids i (Some n)))"
    using wf_linksD(5)[OF assms(1), of "Some n"] assms(2,3) by (simp add: list_head_def)
  then have "rev (kids i (Some n)) = []" by (cases "rev (kids i (Some n))") auto
  with assms show ?thesis by (simp add: siblings_disjoint_def level_tiled_def level_span_def)
qed

lemma is_level_cases: "(\<forall>q. is_level i q \<longrightarrow> P q) \<longleftrightarrow> P None \<and> (\<forall>n < length (parts i). P (Some n))"
  by (auto simp: is_level_def split: option.splits)

lemma validate_cases:
  "validate al i = Some (Ok ()) \<longleftrightarrow> (\<forall>n < length (parts i). well_placed i n)
     \<and> validate_level al i None = Some (Ok ())
     \<and> (\<forall>n < length (parts i). first_child i ! n = NONE \<and> p_body (parts i ! n) = None
          \<or> validate_level al i (Some n) = Some (Ok ()))"
proof -
  have bind: "run_bind r (\<lambda>_. f) = Some (Ok ()) \<longleftrightarrow> r = Some (Ok ()) \<and> f = Some (Ok ())"
    for r :: "(inventory_error, unit) run" and f
    by (auto simp: run_bind_def split: option.splits sum.splits)
  show ?thesis unfolding validate_def bind each_Ok by (auto simp: check_part_Ok)
qed

lemma validate_sound:
  assumes "wf_links i" "validate al i = Some (Ok ())"
  shows "valid_map i"
proof -
  have placed: "\<forall>n < length (parts i). well_placed i n" using assms(2) by (simp add: validate_cases)
  show ?thesis
    unfolding valid_map_def is_level_cases
    using assms(2)[unfolded validate_cases] placed validate_level_Ok(1)[OF assms(1) placed]
      childless_level[OF assms(1)]
    by (metis is_level_simps)
qed

lemma validate_complete:
  assumes "wf_links i" "\<forall>k \<le> length (parts i). al VIds k" "valid_map i"
  shows "validate al i = Some (Ok ())"
proof -
  have placed: "\<forall>n < length (parts i). well_placed i n" using assms(3) by (simp add: valid_map_def)
  show ?thesis
    using validate_level_Ok(2)[OF assms(1) placed] assms
    unfolding validate_cases valid_map_def is_level_cases by simp
qed

text \<open>
  C6: \<open>Inventory::validate\<close> (inventory.rs:808-897) never panics and accepts exactly the valid
  maps: every part is non-empty, inside the file and inside its parent's range, with its body
  inside its range, siblings share no byte, the top-level parts cover the whole file and the
  children of a part with a body cover exactly that body. The check of adjacent siblings in
  sorted order is enough for all pairs.
\<close>

theorem validate_exact:
  assumes "wf_links i" "\<forall>k \<le> length (parts i). al VIds k"
  shows "validate al i \<noteq> None \<and> (validate al i = Some (Ok ()) \<longleftrightarrow> valid_map i)"
proof -
  have "validate al i \<noteq> None"
    using each_no_panic[of "[0..<length (parts i)]" "\<lambda>n. Some (check_part i n)"]
      validate_level_no_panic[OF assms(1), of None al]
      each_no_panic[of "[0..<length (parts i)]" "\<lambda>n. if first_child i ! n = NONE \<and> p_body (parts i ! n) = None
        then Some (Ok ()) else validate_level al i (Some n)"] validate_level_no_panic[OF assms(1), of "Some _" al]
    by (auto simp: validate_def run_bind_def split: option.splits sum.splits)
  then show ?thesis using validate_sound[OF assms(1), of al] validate_complete[of i al] assms by blast
qed

theorem validate_exact_witness:
  "validate (\<lambda>_ _. True) sample_inventory = Some (Err (Uncovered (Some 0) \<lparr> lo = 5, hi = 9 \<rparr>))
   \<and> \<not> valid_map sample_inventory"
proof -
  have "validate (\<lambda>_ _. True) sample_inventory = Some (Err (Uncovered (Some 0) \<lparr> lo = 5, hi = 9 \<rparr>))"
    by (simp add: validate_def validate_level_def children_into_def sample_inventory_eq sample_part_def
        part_new_def with_body_def NONE_def u32_max_def child_key_def range_of_def numeral_2_eq_2
        check_part_def check_level_def Let_def)
  then show ?thesis using validate_exact[OF wf_links_sample, of "\<lambda>_ _. True"] by auto
qed

subsection \<open>One owner for every byte\<close>

definition owns :: "'f inventory \<Rightarrow> nat \<Rightarrow> nat \<Rightarrow> bool" where
  "owns i n byte \<longleftrightarrow> n < length (parts i) \<and> byte \<in> bytes_of (range_of i n)
     \<and> (\<forall>m \<in> set (kids i (Some n)). byte \<notin> bytes_of (range_of i m))"

inductive within :: "'f inventory \<Rightarrow> nat \<Rightarrow> nat \<Rightarrow> bool" for i where
  self: "within i n n"
| child: "within i q n \<Longrightarrow> p_parent (parts i ! m) = Some q \<Longrightarrow> m < length (parts i) \<Longrightarrow> within i m n"

inductive_cases within_child: "within i m n"

lemma valid_map_parent:
  assumes "valid_map i" "n < length (parts i)" "p_parent (parts i ! n) = Some p"
  shows "p < n" "bytes_of (range_of i n) \<subseteq> bytes_of (range_of i p)"
  using assms by (auto simp: valid_map_def well_placed_def Let_def)

lemma valid_map_siblings:
  assumes "valid_map i" "is_level i q" "a \<in> set (kids i q)" "b \<in> set (kids i q)"
    "x \<in> bytes_of (range_of i a)" "x \<in> bytes_of (range_of i b)"
  shows "a = b"
proof (rule ccontr)
  assume "a \<noteq> b"
  then have "bytes_of (range_of i a) \<inter> bytes_of (range_of i b) = {}"
    using assms(1-4) by (simp add: valid_map_def siblings_disjoint_def)
  with assms(5,6) show False by blast
qed

lemma valid_map_top: "valid_map i \<Longrightarrow> covered i (kids i None) = {0..<inv_len i}"
  using is_level_simps(1) by (force simp: valid_map_def level_tiled_def level_span_def bytes_of_def)

lemma within_le:
  assumes "valid_map i" "within i m n"
  shows "n \<le> m"
  using assms(2)
proof (induction rule: within.induct)
  case (child q n m)
  then show ?case using valid_map_parent(1)[OF assms(1) child.hyps(3,2)] by simp
qed simp

lemma within_bytes:
  assumes "valid_map i" "within i m n"
  shows "bytes_of (range_of i m) \<subseteq> bytes_of (range_of i n)"
  using assms(2)
proof (induction rule: within.induct)
  case (child q n m)
  then show ?case using valid_map_parent(2)[OF assms(1) child.hyps(3,2)] by blast
qed simp

lemma within_kid:
  assumes "within i n p" "n \<noteq> p"
  shows "\<exists>c \<in> set (kids i (Some p)). within i n c"
  using assms
proof (induction rule: within.induct)
  case (child q n m)
  then show ?case
    by (cases "q = n") (auto simp: set_kids intro: within.intros)
qed simp

lemma within_top:
  assumes "valid_map i" "n < length (parts i)"
  shows "\<exists>c \<in> set (kids i None). within i n c"
  using assms(2)
proof (induction n rule: less_induct)
  case (less n)
  show ?case
  proof (cases "p_parent (parts i ! n)")
    case None
    then show ?thesis using less.prems by (auto simp: set_kids intro: within.intros)
  next
    case (Some p)
    then have "p < n" using valid_map_parent(1)[OF assms(1) less.prems] by simp
    then obtain c where "c \<in> set (kids i None)" "within i p c" using less by force
    then show ?thesis using Some less.prems by (auto intro: within.intros)
  qed
qed

text \<open>Whichever part holds a byte, the owner of the byte lies within it.\<close>

lemma owner_within:
  assumes "valid_map i" "owns i a x" "b < length (parts i)" "x \<in> bytes_of (range_of i b)"
  shows "within i a b"
  using assms(3,4)
proof (induction b rule: less_induct)
  case (less b)
  have a: "a < length (parts i)" "x \<in> bytes_of (range_of i a)"
    and no_kid: "\<And>m. m \<in> set (kids i (Some a)) \<Longrightarrow> x \<notin> bytes_of (range_of i m)"
    using assms(2) by (auto simp: owns_def)
  define q where "q = p_parent (parts i ! b)"
  have "\<exists>c \<in> set (kids i q). within i a c"
  proof (cases q)
    case None
    then show ?thesis using within_top[OF assms(1) a(1)] by simp
  next
    case (Some p)
    have p: "p < b" "x \<in> bytes_of (range_of i p)"
      using valid_map_parent[OF assms(1) less.prems(1), of p] less.prems(2) Some by (auto simp: q_def)
    then have "within i a p" using less.IH less.prems(1) by simp
    moreover have "a \<noteq> p" using no_kid[of b] less.prems Some by (auto simp: set_kids q_def)
    ultimately show ?thesis using Some within_kid by simp
  qed
  then obtain c where c: "c \<in> set (kids i q)" "within i a c" by blast
  have "is_level i q"
    using valid_map_parent(1)[OF assms(1) less.prems(1)] less.prems(1) by (cases q) (force simp: q_def)+
  then have "c = b"
    using valid_map_siblings[OF assms(1) \<open>is_level i q\<close> c(1), of b x] within_bytes[OF assms(1) c(2)] a(2) less.prems
    by (auto simp: set_kids q_def)
  with c show ?case by simp
qed

text \<open>
  C31: In a validated inventory every byte of the file has exactly one owner: one part whose range
  holds the byte and none of whose children does.
\<close>

theorem validated_byte_has_one_owner:
  assumes "wf_links i" "validate al i = Some (Ok ())" "x < inv_len i"
  shows "\<exists>!n. owns i n x"
proof -
  note valid = validate_sound[OF assms(1,2)]
  define H where "H = {n. n < length (parts i) \<and> x \<in> bytes_of (range_of i n)}"
  have "x \<in> covered i (kids i None)" using valid_map_top[OF valid] assms(3) by simp
  then have "H \<noteq> {}" by (auto simp: H_def covered_def set_kids)
  moreover have "finite H" by (simp add: H_def)
  ultimately
  have "Max H \<in> H" and max: "\<And>n. n \<in> H \<Longrightarrow> n \<le> Max H" by simp_all
  have "owns i (Max H) x"
  proof -
    have "x \<notin> bytes_of (range_of i m)" if "m \<in> set (kids i (Some (Max H)))" for m
    proof
      assume "x \<in> bytes_of (range_of i m)"
      with that have "m \<in> H" "Max H < m"
        using valid_map_parent(1)[OF valid, of m "Max H"] by (auto simp: set_kids H_def)
      then show False using max by (metis not_le)
    qed
    then show ?thesis using \<open>Max H \<in> H\<close> by (auto simp: owns_def H_def)
  qed
  moreover have "a = b" if "owns i a x" "owns i b x" for a b
  proof -
    have "within i a b" "within i b a"
      using owner_within[OF valid] that by (auto simp: owns_def)
    then show ?thesis using within_le[OF valid] by (metis le_antisym)
  qed
  ultimately show ?thesis by blast
qed

definition two_chunks :: "unit inventory" where
  "two_chunks = \<lparr> inv_format = (), inv_len = 9, parts = [sample_part 4 9, sample_part 0 4],
     max_parts = DEFAULT_MAX_PARTS, first_child = [NONE, NONE], next_sibling = [NONE, 0], first_top = 1 \<rparr>"

lemma two_chunks_push: "two_chunks = fst (push (\<lambda>_ _. True) (fst (push (\<lambda>_ _. True)
    (inventory_new () 9) None (sample_part 4 9))) None (sample_part 0 4))"
  by (simp add: two_chunks_def push_def reserve_parts_def inventory_new_def sample_part_def
      part_new_def with_body_def DEFAULT_MAX_PARTS_def u32_max_def)

lemma wf_links_two_chunks: "wf_links two_chunks"
  unfolding two_chunks_push by (metis wf_links_push wf_links_new prod.collapse)

lemmas eval_validate = validate_def validate_level_def children_into_def sample_part_def part_new_def
  with_body_def NONE_def u32_max_def child_key_def range_of_def numeral_2_eq_2 check_part_def
  check_level_def Let_def

theorem validated_byte_has_one_owner_witness: "\<exists>!n. owns two_chunks n 5"
proof (rule validated_byte_has_one_owner [OF wf_links_two_chunks])
  show "validate (\<lambda>_ _. True) two_chunks = Some (Ok ())"
    by (simp add: two_chunks_def eval_validate)
qed (simp add: two_chunks_def)

subsection \<open>Filling gaps\<close>

definition total_bytes :: "rng list \<Rightarrow> nat set" where
  "total_bytes hs = (\<Union>h \<in> set hs. bytes_of h)"

definition apart :: "rng list \<Rightarrow> bool" where
  "apart hs \<longleftrightarrow> (\<forall>h \<in> set hs. lo h < hi h) \<and> sorted_wrt (\<lambda>a b. hi a \<le> lo b) hs"

lemma total_bytes_simps [simp]:
  "total_bytes [] = {}" "total_bytes (h # hs) = bytes_of h \<union> total_bytes hs"
  "total_bytes (hs @ hs') = total_bytes hs \<union> total_bytes hs'"
  by (auto simp: total_bytes_def)

lemma find_holes_spec:
  assumes "non_empty i ids" "in_order i ids" "\<forall>n \<in> set ids. c \<le> lo (range_of i n) \<and> hi (range_of i n) \<le> e"
    "find_holes al i e ids c old = Ok (hs, c')" "c \<le> e"
  shows "\<exists>new. hs = old @ new \<and> c \<le> c' \<and> c' \<le> e \<and> apart new \<and> total_bytes new \<subseteq> {c..<c'}
    \<and> total_bytes new = {c..<c'} - covered i ids \<and> covered i ids \<subseteq> {c..<c'}"
  using assms
proof (induction ids arbitrary: c old)
  case Nil
  then show ?case by (auto simp: apart_def)
next
  case (Cons n ids)
  let ?r = "range_of i n"
  have r: "c \<le> lo ?r" "lo ?r < hi ?r" "hi ?r \<le> e" using Cons.prems by auto
  define h where "h = (if lo ?r > c then [\<lparr> lo = c, hi = lo ?r \<rparr>] else [])"
  have step: "find_holes al i e ids (hi ?r) (old @ h) = Ok (hs, c')"
    using Cons.prems(4) r by (auto simp: h_def Let_def max_def split: if_splits)
  obtain new where new: "hs = old @ h @ new" "hi ?r \<le> c'" "c' \<le> e" "apart new"
    "total_bytes new \<subseteq> {hi ?r..<c'}" "total_bytes new = {hi ?r..<c'} - covered i ids"
    "covered i ids \<subseteq> {hi ?r..<c'}"
    using Cons.IH[OF _ _ _ step r(3)] Cons.prems by auto
  have tb: "total_bytes h = {c..<lo ?r}" using r by (auto simp: h_def bytes_of_def)
  have "\<forall>g \<in> set new. lo ?r \<le> lo g"
  proof
    fix g assume "g \<in> set new"
    then have "lo g \<in> total_bytes new"
      using new(4) by (force simp: total_bytes_def apart_def bytes_of_def)
    with new(5) r show "lo ?r \<le> lo g" by auto
  qed
  with new(4) have "apart (h @ new)" by (auto simp: apart_def h_def)
  moreover have "total_bytes (h @ new) = {c..<c'} - covered i (n # ids)"
    "covered i (n # ids) \<subseteq> {c..<c'}" "total_bytes (h @ new) \<subseteq> {c..<c'}"
    using tb r new(2,5-7) by (auto simp: bytes_of_def)
  ultimately show ?case using new r by (intro exI[of _ "h @ new"]) auto
qed

lemma all_holes_spec:
  assumes "non_empty i ids" "in_order i ids" "covered i ids \<subseteq> bytes_of s"
    "all_holes al i s ids = Ok hs" "lo s \<le> hi s"
  shows "apart hs" "total_bytes hs = bytes_of s - covered i ids"
proof -
  obtain hs' c where found: "find_holes al i (hi s) ids (lo s) [] = Ok (hs', c)"
    and hs: "hs = (if c < hi s then hs' @ [\<lparr> lo = c, hi = hi s \<rparr>] else hs')"
    using assms(4) by (auto simp: all_holes_def split: if_splits)
  have inside: "\<forall>n \<in> set ids. lo s \<le> lo (range_of i n) \<and> hi (range_of i n) \<le> hi s"
  proof
    fix n assume "n \<in> set ids"
    with assms(1,3) have "lo (range_of i n) < hi (range_of i n)"
      "bytes_of (range_of i n) \<subseteq> bytes_of s"
      by (auto simp: covered_def non_empty_def)
    then show "lo s \<le> lo (range_of i n) \<and> hi (range_of i n) \<le> hi s" by (simp add: bytes_of_def)
  qed
  have c: "lo s \<le> c" "c \<le> hi s" "apart hs'" "total_bytes hs' \<subseteq> {lo s..<c}"
    "total_bytes hs' = {lo s..<c} - covered i ids" "covered i ids \<subseteq> {lo s..<c}"
    using find_holes_spec[OF assms(1,2) inside found assms(5)] by auto
  have "\<forall>g \<in> set hs'. hi g \<le> c"
  proof
    fix g assume "g \<in> set hs'"
    then have "hi g - 1 \<in> total_bytes hs'" "lo g < hi g"
      using c(3) by (force simp: total_bytes_def apart_def bytes_of_def)+
    moreover from this c(4) have "hi g - 1 < c" by (meson atLeastLessThan_iff subsetD)
    ultimately show "hi g \<le> c" by simp
  qed
  then show "apart hs" using c(3) hs by (auto simp: apart_def sorted_wrt_append)
  show "total_bytes hs = bytes_of s - covered i ids"
    using c hs by (auto simp: bytes_of_def)
qed

lemma push_gaps_Ok:
  assumes "wf_links i" "push_gaps al i q d hs = (i', Ok ())" "\<forall>h \<in> set hs. lo h < hi h"
  shows "wf_links i'" "inv_len i' = inv_len i" "hs \<noteq> [] \<Longrightarrow> is_level i q"
    "parts i' = parts i @ map (\<lambda>h. (part_new Gap NoTag h d)\<lparr>p_parent := q\<rparr>) hs"
    "kids i' p = kids i p @ (if p = q then [length (parts i)..<length (parts i) + length hs] else [])"
proof -
  have "wf_links i' \<and> inv_len i' = inv_len i \<and> (hs \<noteq> [] \<longrightarrow> is_level i q)
    \<and> parts i' = parts i @ map (\<lambda>h. (part_new Gap NoTag h d)\<lparr>p_parent := q\<rparr>) hs
    \<and> kids i' p = kids i p @ (if p = q then [length (parts i)..<length (parts i) + length hs] else [])"
    using assms
  proof (induction hs arbitrary: i)
    case (Cons h hs)
    then obtain j n where pushed: "push al i q (part_new Gap NoTag h d) = (j, Ok n)"
      and rest: "push_gaps al j q d hs = (i', Ok ())"
      by (auto split: prod.splits sum.splits)
    note push = push_Ok[OF Cons.prems(1) pushed]
    have kids: "kids j p = kids i p @ (if p = q then [length (parts i)] else [])"
      by (rule kids_push[OF Cons.prems(1) pushed])
    show ?case
      using Cons.IH[OF wf_links_push[OF Cons.prems(1) pushed] rest] Cons.prems(3) push(2,4,9) kids
      by (auto simp: upt_rec)
  qed auto
  then show "wf_links i'" "inv_len i' = inv_len i" "hs \<noteq> [] \<Longrightarrow> is_level i q"
    "parts i' = parts i @ map (\<lambda>h. (part_new Gap NoTag h d)\<lparr>p_parent := q\<rparr>) hs"
    "kids i' p = kids i p @ (if p = q then [length (parts i)..<length (parts i) + length hs] else [])"
    by blast+
qed

text \<open>
  A \<open>Vec\<close> that has room for \<open>n\<close> elements has room for fewer: what \<open>try_reserve\<close> documents.
\<close>

definition reserve_monotone :: "allocator \<Rightarrow> bool" where
  "reserve_monotone al \<longleftrightarrow> (\<forall>v n m. al v n \<longrightarrow> m \<le> n \<longrightarrow> al v m)"

lemma push_room:
  assumes "reserve_parts al i 1 = Ok ()" "is_level i q" "length (parts i) < max_parts i"
  shows "\<exists>j n. push al i q p = (j, Ok n)"
  using assms by (cases q) (auto simp: push_def Let_def)

lemma push_gaps_reserved:
  assumes "wf_links i" "is_level i q" "reserve_monotone al"
    "reserve_parts al i (length (filter (\<lambda>h. lo h < hi h) hs)) = Ok ()"
  shows "snd (push_gaps al i q d hs) = Ok ()"
  using assms
proof (induction hs arbitrary: i)
  case (Cons h hs)
  show ?case
  proof (cases "lo h < hi h")
    case False
    then show ?thesis using Cons by simp
  next
    case True
    let ?k = "length (filter (\<lambda>h. lo h < hi h) hs)"
    have room: "Suc ?k \<le> max_parts i - length (parts i)" "al VParts (length (parts i) + Suc ?k)"
      "al VFirstChild (length (first_child i) + Suc ?k)" "al VNextSibling (length (next_sibling i) + Suc ?k)"
      using Cons.prems(4) True by (auto simp: reserve_parts_def split: if_splits)
    then have "reserve_parts al i 1 = Ok ()"
      using Cons.prems(3) by (auto simp: reserve_parts_def reserve_monotone_def)
    then obtain j n where pushed: "push al i q (part_new Gap NoTag h d) = (j, Ok n)"
      using push_room Cons.prems(2) room(1) by fastforce
    note push = push_Ok[OF Cons.prems(1) pushed]
    have "is_level j q" using Cons.prems(2) push(4) by (auto simp: is_level_def split: option.splits)
    moreover have "reserve_parts al j ?k = Ok ()"
      using room push(4-8) by (auto simp: reserve_parts_def split: option.splits)
    ultimately show ?thesis
      using Cons.IH[OF wf_links_push[OF Cons.prems(1) pushed]] Cons.prems(3) True pushed by simp
  qed
qed simp

text \<open>
  C32: \<open>fill_gaps\<close> (inventory.rs:757-806) never panics and is all or nothing: if any step fails,
  at the part cap or in an allocation, the inventory is unchanged, because the room for every
  gap is reserved before the first one is pushed.
\<close>

theorem fill_gaps_atomic:
  assumes "wf_links i" "reserve_monotone al"
  shows "\<exists>i' r. fill_gaps al i q d = Some (i', r) \<and> wf_links i' \<and> (is_ok r \<or> i' = i)"
proof (cases "level_span i q")
  case None
  then show ?thesis using assms(1) by (simp add: fill_gaps_def)
next
  case (Some s)
  then have level: "is_level i q" by (auto simp: level_span_def is_level_def split: option.splits if_splits)
  have wf: "wf_links (fst (push_gaps al j q d hs))" if "wf_links j" for j hs
    using that
  proof (induction hs arbitrary: j)
    case (Cons h hs)
    show ?case using Cons.IH wf_links_push[OF Cons.prems] Cons.prems
      by (auto split: prod.splits sum.splits)
  qed simp
  show ?thesis
    using Some assms push_gaps_reserved[OF assms(1) level assms(2)] wf[OF assms(1)]
    by (auto simp: fill_gaps_def try_children_def children_into_eq[OF assms(1) level] split: sum.splits)
      (metis prod.collapse is_ok_simps(2))+
qed

theorem fill_gaps_atomic_witness:
  "\<exists>i' r. fill_gaps (\<lambda>v n. n \<le> 2) sample_inventory (Some 0) Padding = Some (i', r)
     \<and> wf_links i' \<and> (is_ok r \<or> i' = sample_inventory)"
  by (rule fill_gaps_atomic [OF wf_links_sample]) (auto simp: reserve_monotone_def)

text \<open>A map whose only defect is that one level has bytes no child covers.\<close>

definition valid_but_gaps :: "'f inventory \<Rightarrow> nat option \<Rightarrow> bool" where
  "valid_but_gaps i q \<longleftrightarrow> (\<forall>n < length (parts i). well_placed i n)
     \<and> (\<forall>p. is_level i p \<longrightarrow> siblings_disjoint i (kids i p) \<and> (p \<noteq> q \<longrightarrow> level_tiled i p))
     \<and> (\<forall>s. level_span i q = Some s \<longrightarrow> covered i (kids i q) \<subseteq> bytes_of s)"

lemma fill_gaps_OkD:
  assumes "wf_links i" "valid_but_gaps i q" "is_level i q" "level_span i q = Some s"
    "fill_gaps al i q d = Some (i', Ok ())"
  obtains hs where "push_gaps al i q d hs = (i', Ok ())" "apart hs"
    "total_bytes hs = bytes_of s - covered i (kids i q)"
proof -
  let ?ids = "sort_key (child_key i) (kids i q)"
  have placed: "\<forall>n < length (parts i). well_placed i n" using assms(2) by (simp add: valid_but_gaps_def)
  obtain hs where holes: "all_holes (al VHoles) i s ?ids = Ok hs" and pushed: "push_gaps al i q d hs = (i', Ok ())"
    using assms(4,5)
    by (auto simp: fill_gaps_def try_children_def children_into_eq[OF assms(1,3)] split: if_splits sum.splits)
  have ne: "non_empty i ?ids" using kids_non_empty[OF placed, of q] by (simp add: non_empty_def)
  moreover have "in_order i ?ids"
    using in_order_iff_disjoint[OF ne] assms(2,3) by (simp add: valid_but_gaps_def)
  moreover have "covered i ?ids \<subseteq> bytes_of s" using assms(2,4) by (simp add: valid_but_gaps_def)
  moreover have "lo s \<le> hi s"
    using assms(4) placed
    by (cases q) (force simp: level_span_def well_placed_def Let_def split: if_splits)+
  ultimately show ?thesis
    using all_holes_spec[OF _ _ _ holes] that[OF pushed] by simp
qed

lemma apart_disjoint:
  assumes "apart hs" "x < length hs" "y < length hs" "x \<noteq> y"
  shows "bytes_of (hs ! x) \<inter> bytes_of (hs ! y) = {}"
  using assms by (cases x y rule: linorder_cases)
    (force simp: apart_def sorted_wrt_iff_nth_less bytes_of_def)+

text \<open>The inventory after the gaps of a level were pushed: old parts keep place, gaps lie in the holes.\<close>

lemma after_gaps:
  assumes "wf_links i" "valid_but_gaps i q" "level_span i q = Some s"
    "push_gaps al i q d hs = (i', Ok ())" "apart hs" "total_bytes hs = bytes_of s - covered i (kids i q)"
  shows old_range: "n < length (parts i) \<Longrightarrow> range_of i' n = range_of i n"
    and gap_range: "k < length hs \<Longrightarrow> range_of i' (length (parts i) + k) = hs ! k"
    and old_placed: "n < length (parts i) \<Longrightarrow> well_placed i' n"
    and gap_placed: "k < length hs \<Longrightarrow> well_placed i' (length (parts i) + k)"
proof -
  note push = push_gaps_Ok[OF assms(1,4) assms(5)[unfolded apart_def, THEN conjunct1]]
  show old: "range_of i' n = range_of i n" if "n < length (parts i)" for n
    using that by (simp add: range_of_def push(4) nth_append)
  show gap: "range_of i' (length (parts i) + k) = hs ! k" if "k < length hs" for k
    using that by (simp add: range_of_def push(4) nth_append part_new_def)
  show "well_placed i' n" if n: "n < length (parts i)" for n
  proof -
    have same: "parts i' ! n = parts i ! n" using n by (simp add: push(4) nth_append)
    have "well_placed i n" using n assms(2) by (simp add: valid_but_gaps_def)
    then show ?thesis using n old by (auto simp: well_placed_def Let_def same push(2))
  qed
  show "well_placed i' (length (parts i) + k)" if k: "k < length hs" for k
  proof -
    have part: "parts i' ! (length (parts i) + k) = (part_new Gap NoTag (hs ! k) d)\<lparr>p_parent := q\<rparr>"
      using k by (simp add: push(4) nth_append)
    have ne: "lo (hs ! k) < hi (hs ! k)" using assms(5) k by (simp add: apart_def)
    have "bytes_of (hs ! k) \<subseteq> total_bytes hs" using k by (force simp: total_bytes_def)
    then have sub: "bytes_of (hs ! k) \<subseteq> bytes_of s" using assms(6) by blast
    show ?thesis
    proof (cases q)
      case None
      then show ?thesis using assms(3) sub ne gap[OF k] part
        by (auto simp: well_placed_def Let_def push(2) part_new_def level_span_def bytes_of_def)
    next
      case (Some p)
      then have p: "p < length (parts i)" "p_body (parts i ! p) = Some s"
        using assms(3) by (auto simp: level_span_def split: if_splits)
      then have "well_placed i p" using assms(2) by (simp add: valid_but_gaps_def)
      with p sub ne show ?thesis
        by (auto simp: well_placed_def Let_def push(2) part part_new_def gap[OF k] old Some bytes_of_def)
    qed
  qed
qed

lemma gaps_level:
  assumes "wf_links i" "valid_but_gaps i q" "is_level i q" "level_span i q = Some s"
    "push_gaps al i q d hs = (i', Ok ())" "apart hs" "total_bytes hs = bytes_of s - covered i (kids i q)"
  shows "siblings_disjoint i' (kids i' q) \<and> level_tiled i' q"
proof -
  note push = push_gaps_Ok[OF assms(1,5) assms(6)[unfolded apart_def, THEN conjunct1]]
  note after = after_gaps[OF assms(1,2,4-7)]
  let ?n = "length (parts i)"
  define new where "new = [?n..<?n + length hs]"
  have kids: "kids i' q = kids i q @ new" using push(5)[of q] by (simp add: new_def)
  have old_kid: "range_of i' a = range_of i a" if "a \<in> set (kids i q)" for a
    using that after(1) by (simp add: set_kids)
  have cov_old: "covered i' (kids i q) = covered i (kids i q)" by (simp add: covered_def old_kid)
  have gap_ids: "a \<in> set new \<longleftrightarrow> (\<exists>k < length hs. a = ?n + k)" for a
    by (auto simp: new_def nat_le_iff_add)
  have cov_new: "covered i' new = total_bytes hs"
  proof -
    have "set new = (+) ?n ` {..<length hs}" by (auto simp: gap_ids)
    moreover have "set hs = (!) hs ` {..<length hs}" by (auto simp: set_conv_nth)
    ultimately show ?thesis by (simp add: covered_def total_bytes_def after(2))
  qed
  have span: "level_span i' q = Some s"
    using assms(3,4) by (auto simp: level_span_def push(2,4) nth_append split: option.splits)
  have "bytes_of (range_of i' a) \<inter> bytes_of (range_of i' b) = {}"
    if "a \<in> set (kids i q @ new)" "b \<in> set (kids i q @ new)" "a \<noteq> b" for a b
  proof -
    have old_old: "bytes_of (range_of i' a) \<inter> bytes_of (range_of i' b) = {}"
      if "a \<in> set (kids i q)" "b \<in> set (kids i q)" "a \<noteq> b" for a b
      using that assms(2,3) old_kid by (simp add: valid_but_gaps_def siblings_disjoint_def)
    have new_new: "bytes_of (range_of i' a) \<inter> bytes_of (range_of i' b) = {}"
      if "a \<in> set new" "b \<in> set new" "a \<noteq> b" for a b
    proof -
      from that(1,2) obtain x y where "x < length hs" "y < length hs" "a = ?n + x" "b = ?n + y"
        by (auto simp: gap_ids)
      then show ?thesis using apart_disjoint[OF assms(6), of x y] after(2) that(3) by simp
    qed
    have old_new: "bytes_of (range_of i' a) \<inter> bytes_of (range_of i' b) = {}"
      if "a \<in> set (kids i q)" "b \<in> set new" for a b
    proof -
      have "bytes_of (range_of i' a) \<subseteq> covered i (kids i q)" using that cov_old by (auto simp: covered_def)
      moreover have "bytes_of (range_of i' b) \<subseteq> total_bytes hs" using that cov_new by (auto simp: covered_def)
      ultimately show ?thesis using assms(7) by blast
    qed
    show ?thesis using that old_old[of a b] new_new[of a b] old_new[of a b] old_new[of b a]
      by (simp add: Int_commute) blast
  qed
  then have "siblings_disjoint i' (kids i' q)" by (simp add: siblings_disjoint_def kids)
  moreover have "covered i' (kids i' q) = bytes_of s"
  proof -
    have "covered i' (kids i' q) = covered i' (kids i q) \<union> covered i' new" by (auto simp: kids covered_def)
    moreover have "covered i (kids i q) \<subseteq> bytes_of s" using assms(2,4) by (simp add: valid_but_gaps_def)
    ultimately show ?thesis using cov_old cov_new assms(7) by auto
  qed
  ultimately show ?thesis using span by (simp add: level_tiled_def)
qed

lemma other_level:
  assumes "wf_links i" "valid_but_gaps i q" "is_level i q" "level_span i q = Some s" "p \<noteq> q" "is_level i' p"
    "push_gaps al i q d hs = (i', Ok ())" "apart hs" "total_bytes hs = bytes_of s - covered i (kids i q)"
  shows "siblings_disjoint i' (kids i' p) \<and> level_tiled i' p"
proof -
  note push = push_gaps_Ok[OF assms(1,7) assms(8)[unfolded apart_def, THEN conjunct1]]
  note after = after_gaps[OF assms(1,2,4,7-9)]
  have kids: "kids i' p = kids i p" using push(5)[of p] assms(5) by simp
  have old_kid: "range_of i' a = range_of i a" if "a \<in> set (kids i p)" for a
    using that after(1) by (simp add: set_kids)
  show ?thesis
  proof (cases "is_level i p")
    case True
    have "level_span i' p = level_span i p"
      using True by (auto simp: level_span_def push(2,4) nth_append split: option.splits)
    then show ?thesis
      using True assms(2,5) old_kid
      by (simp add: valid_but_gaps_def siblings_disjoint_def level_tiled_def covered_def kids)
  next
    case False
    then obtain n where n: "p = Some n" "length (parts i) \<le> n" "n < length (parts i) + length hs"
      using assms(6) push(4) by (auto simp: is_level_def split: option.splits)
    then have span: "level_span i' p = None"
      using push(4) by (simp add: level_span_def nth_append part_new_def)
    have "kids i' p = []"
      using False wf_linksD(6)[OF assms(1)] unfolding kids by (force simp: set_kids simp flip: set_empty)
    with span show ?thesis by (simp add: siblings_disjoint_def level_tiled_def)
  qed
qed

text \<open>
  C15: Filling the gaps of the top level or of a container body (inventory.rs:757-806) completes
  the map: if everything but the coverage of that level is valid, \<open>validate\<close> accepts the
  inventory after a successful \<open>fill_gaps\<close>; the parts already recorded keep their place and the
  added parts are gaps of the given disposition under that parent.
\<close>

theorem fill_gaps_completes:
  assumes "wf_links i" "valid_but_gaps i q" "is_level i q"
    "fill_gaps al i q d = Some (i', Ok ())" "\<forall>k \<le> length (parts i'). al' VIds k"
  shows "validate al' i' = Some (Ok ())
    \<and> (\<exists>hs. parts i' = parts i @ map (\<lambda>h. (part_new Gap NoTag h d)\<lparr>p_parent := q\<rparr>) hs)"
proof (cases "level_span i q")
  case None
  then have "i' = i" using assms(4) by (simp add: fill_gaps_def)
  moreover have "valid_map i"
    using assms(2) None by (auto simp: valid_map_def valid_but_gaps_def level_tiled_def)
  ultimately show ?thesis using validate_complete assms(1,5) by (auto intro: exI[of _ "[]"])
next
  case (Some s)
  obtain hs where hs: "push_gaps al i q d hs = (i', Ok ())" "apart hs"
    "total_bytes hs = bytes_of s - covered i (kids i q)"
    by (rule fill_gaps_OkD[OF assms(1-3) Some assms(4)])
  note push = push_gaps_Ok[OF assms(1) hs(1) hs(2)[unfolded apart_def, THEN conjunct1]]
  have "well_placed i' n" if "n < length (parts i')" for n
    using that after_gaps(3,4)[OF assms(1,2) Some hs] push(4)
    by (cases "n < length (parts i)") (auto simp: not_less dest!: le_Suc_ex)
  moreover have "siblings_disjoint i' (kids i' p) \<and> level_tiled i' p" if "is_level i' p" for p
    using gaps_level[OF assms(1-3) Some hs] other_level[OF assms(1-3) Some _ that hs] by blast
  ultimately have "valid_map i'" by (simp add: valid_map_def)
  then show ?thesis using validate_complete push(1,4) assms(5) by blast
qed

lemma sample_facts:
  "length (parts sample_inventory) = 2" "inv_len sample_inventory = 9"
  "range_of sample_inventory 0 = \<lparr> lo = 4, hi = 9 \<rparr>" "range_of sample_inventory (Suc 0) = \<lparr> lo = 0, hi = 4 \<rparr>"
  "p_body (parts sample_inventory ! 0) = Some \<lparr> lo = 5, hi = 9 \<rparr>"
  "p_body (parts sample_inventory ! Suc 0) = None"
  "p_parent (parts sample_inventory ! 0) = None" "p_parent (parts sample_inventory ! Suc 0) = None"
  by (simp_all add: sample_inventory_eq range_of_def sample_part_def part_new_def with_body_def)

lemma sample_valid_but_gaps: "valid_but_gaps sample_inventory (Some 0)"
proof -
  have kids: "kids sample_inventory q = (if q = None then [0, 1] else [])" for q
    by (simp add: kids_def sample_facts numeral_2_eq_2)
  have "well_placed sample_inventory n" if "n < length (parts sample_inventory)" for n
    using that by (auto simp: well_placed_def sample_facts Let_def less_2_cases_iff)
  moreover have "siblings_disjoint sample_inventory (kids sample_inventory p)" for p
    by (auto simp: siblings_disjoint_def kids sample_facts bytes_of_def)
  moreover have "level_tiled sample_inventory p" if "p \<noteq> Some 0" for p
    using that by (auto simp: level_tiled_def kids level_span_def sample_facts bytes_of_def less_2_cases_iff
        split: option.splits if_splits)
  ultimately show ?thesis by (simp add: valid_but_gaps_def kids)
qed

lemma fill_gaps_sample:
  "fill_gaps (\<lambda>_ _. True) sample_inventory (Some 0) Unreferenced =
     Some (sample_inventory\<lparr>parts := parts sample_inventory @
        [(part_new Gap NoTag \<lparr> lo = 5, hi = 9 \<rparr> Unreferenced)\<lparr>p_parent := Some 0\<rparr>],
      first_child := [2, NONE, NONE], next_sibling := [NONE, 0, NONE]\<rparr>, Ok ())"
proof -
  have "DEFAULT_MAX_PARTS = 1048576" by (simp add: DEFAULT_MAX_PARTS_def)
  then show ?thesis
    by (simp add: fill_gaps_def level_span_def try_children_def children_into_def sample_inventory_eq
      sample_part_def part_new_def with_body_def NONE_def u32_max_def all_holes_def reserve_parts_def
      push_def Let_def numeral_2_eq_2)
qed

theorem fill_gaps_completes_witness:
  "\<exists>i'. fill_gaps (\<lambda>_ _. True) sample_inventory (Some 0) Unreferenced = Some (i', Ok ())
     \<and> length (parts i') = 3 \<and> validate (\<lambda>_ _. True) i' = Some (Ok ())"
  using fill_gaps_completes[OF wf_links_sample sample_valid_but_gaps _ fill_gaps_sample, of "\<lambda>_ _. True"]
    fill_gaps_sample by (simp add: sample_inventory_eq)

subsection \<open>Every inventory the operations build\<close>

inductive built :: "'f inventory \<Rightarrow> bool" where
  new: "built (inventory_new f n)"
| cap: "built i \<Longrightarrow> m \<le> u32_max \<Longrightarrow> built (with_max_parts m i)"
| pushed: "built i \<Longrightarrow> push al i q p = (i', r) \<Longrightarrow> built i'"
| disposed: "built i \<Longrightarrow> built (fst (set_disposition i n d))"
| detailed: "built i \<Longrightarrow> built (fst (set_detail i n t))"
| filled: "built i \<Longrightarrow> fill_gaps al i q d = Some (i', r) \<Longrightarrow> built i'"

lemma wf_links_cap: "wf_links i \<Longrightarrow> m \<le> u32_max \<Longrightarrow> wf_links (with_max_parts m i)"
  by (auto simp: wf_links_def with_max_parts_def is_level_def list_head_def kids_def split: option.splits)

lemma wf_links_push_gaps: "wf_links i \<Longrightarrow> wf_links (fst (push_gaps al i q d hs))"
proof (induction hs arbitrary: i)
  case (Cons h hs)
  then show ?case using wf_links_push[OF Cons.prems] by (auto split: prod.splits sum.splits)
qed simp

lemma wf_links_fill_gaps: "wf_links i \<Longrightarrow> fill_gaps al i q d = Some (i', r) \<Longrightarrow> wf_links i'"
  using wf_links_push_gaps[of i al q d]
  by (auto simp: fill_gaps_def split: option.splits sum.splits) (metis fst_conv)

lemma built_wf_links: "built i \<Longrightarrow> wf_links i"
  by (induction rule: built.induct)
    (auto intro: wf_links_push wf_links_cap wf_links_fill_gaps
      wf_links_same_structure[OF set_disposition_structure] wf_links_same_structure[OF set_detail_structure])

end
