(* ===== verification/Output_Stream.thy ===== *)
theory Output_Stream
  imports Prelude
begin

text \<open>
  The output side of an encoder: \<open>src/src/output_buffer.rs\<close>, the buffer between the bytes an
  encoder produces and the bytes a driver takes, and \<open>src/src/output_patch.rs\<close>, the finish of
  a stream (the tail that was not taken and the patches over earlier bytes). The buffer is an
  instance of the interface \<open>byte_stream\<close>: whatever the compaction does, what was handed out
  followed by what is pending is what was produced.
\<close>

subsection \<open>The buffer\<close>

record output_buffer =
  buf :: "byte list"
  start :: nat
  dropped :: nat

definition COMPACT_AT :: nat where "COMPACT_AT = 64 * 1024"

definition buffer_new :: output_buffer where
  "buffer_new = \<lparr> buf = [], start = 0, dropped = 0 \<rparr>"

definition push_bytes :: "byte list \<Rightarrow> output_buffer \<Rightarrow> output_buffer" where
  "push_bytes bs b = b\<lparr>buf := buf b @ bs\<rparr>"

definition vec_mut :: "(byte list \<Rightarrow> byte list) \<Rightarrow> output_buffer \<Rightarrow> output_buffer" where
  "vec_mut f b = b\<lparr>buf := f (buf b)\<rparr>"

definition pending :: "output_buffer \<Rightarrow> byte list" where
  "pending b = (if start b \<le> length (buf b) then drop (start b) (buf b) else [])"

definition pending_len :: "output_buffer \<Rightarrow> nat" where
  "pending_len b = length (pending b)"

definition pending_is_empty :: "output_buffer \<Rightarrow> bool" where
  "pending_is_empty b \<longleftrightarrow> pending b = []"

definition consume :: "nat \<Rightarrow> output_buffer \<Rightarrow> output_buffer" where
  "consume n b =
     (let n = min n (pending_len b); s = start b + n in
      if s \<ge> length (buf b) then
        b\<lparr>dropped := wrap u64_max (dropped b + length (buf b)), buf := [], start := 0\<rparr>
      else if s \<ge> COMPACT_AT \<and> s \<ge> length (buf b) div 2 then
        b\<lparr>dropped := wrap u64_max (dropped b + s), buf := drop s (buf b), start := 0\<rparr>
      else b\<lparr>start := s\<rparr>)"

definition take_into :: "byte list \<Rightarrow> output_buffer \<Rightarrow> byte list \<times> output_buffer" where
  "take_into into b =
     (if into = [] \<and> start b = 0
      then (buf b, b\<lparr>dropped := wrap u64_max (dropped b + length (buf b)), buf := []\<rparr>)
      else (into @ pending b, consume (pending_len b) b))"

definition handed_out :: "output_buffer \<Rightarrow> nat" where
  "handed_out b = wrap u64_max (dropped b + start b)"

definition total :: "output_buffer \<Rightarrow> nat" where
  "total b = wrap u64_max (dropped b + length (buf b))"

definition into_remaining :: "output_buffer \<Rightarrow> byte list" where
  "into_remaining b = drop (min (start b) (length (buf b))) (buf b)"

subsection \<open>The interface of a byte stream\<close>

datatype stream_op = Push "byte list" | Consume nat | Take

text \<open>
  A driver that reads what is held before it skips, and takes into its own buffer, on the
  operations \<open>held\<close>, \<open>put\<close>, \<open>skip\<close> and \<open>grab\<close> of a stream.
\<close>

fun stream_step :: "('s \<Rightarrow> byte list) \<Rightarrow> (byte list \<Rightarrow> 's \<Rightarrow> 's) \<Rightarrow> (nat \<Rightarrow> 's \<Rightarrow> 's)
    \<Rightarrow> (byte list \<Rightarrow> 's \<Rightarrow> byte list \<times> 's) \<Rightarrow> stream_op \<Rightarrow> 's \<times> byte list \<Rightarrow> 's \<times> byte list" where
  "stream_step held put skip grab (Push bs) (s, out) = (put bs s, out)"
| "stream_step held put skip grab (Consume n) (s, out) = (skip n s, out @ take n (held s))"
| "stream_step held put skip grab Take (s, out) = (snd (grab out s), fst (grab out s))"

fun produced :: "stream_op list \<Rightarrow> byte list" where
  "produced [] = []"
| "produced (Push bs # ops) = bs @ produced ops"
| "produced (_ # ops) = produced ops"

locale byte_stream =
  fixes ok :: "'s \<Rightarrow> bool" and held :: "'s \<Rightarrow> byte list" and sent :: "'s \<Rightarrow> nat"
    and put :: "byte list \<Rightarrow> 's \<Rightarrow> 's" and skip :: "nat \<Rightarrow> 's \<Rightarrow> 's"
    and grab :: "byte list \<Rightarrow> 's \<Rightarrow> byte list \<times> 's" and room :: nat
  assumes put: "ok s \<Longrightarrow> sent s + length (held s) + length bs \<le> room \<Longrightarrow>
      ok (put bs s) \<and> held (put bs s) = held s @ bs \<and> sent (put bs s) = sent s"
    and skip: "ok s \<Longrightarrow> ok (skip n s) \<and> held (skip n s) = drop n (held s)
      \<and> sent (skip n s) = sent s + min n (length (held s))"
    and grab: "ok s \<Longrightarrow> fst (grab into s) = into @ held s \<and> ok (snd (grab into s))
      \<and> held (snd (grab into s)) = [] \<and> sent (snd (grab into s)) = sent s + length (held s)"
begin

lemma fifo:
  assumes "ok s" "sent s = length out" "length out + length (held s) + length (produced ops) \<le> room"
    "fold (stream_step held put skip grab) ops (s, out) = (s', out')"
  shows "ok s' \<and> out' @ held s' = out @ held s @ produced ops \<and> sent s' = length out'"
  using assms
proof (induction ops arbitrary: s out)
  case (Cons x ops)
  have "length (take n (held s)) + length (drop n (held s)) = length (held s)" for n
    by simp
  then show ?case
    using Cons.IH[of "fst (stream_step held put skip grab x (s, out))"
        "snd (stream_step held put skip grab x (s, out))"] Cons.prems
      put[of s] skip[OF Cons.prems(1)] grab[OF Cons.prems(1), of out]
    by (cases x) (auto simp: min.commute)
qed simp

end

definition buffer_ok :: "output_buffer \<Rightarrow> bool" where
  "buffer_ok b \<longleftrightarrow> start b \<le> length (buf b) \<and> dropped b + length (buf b) \<le> u64_max"

lemma consume_laws:
  assumes "buffer_ok b"
  shows "buffer_ok (consume n b) \<and> pending (consume n b) = drop n (pending b)
    \<and> handed_out (consume n b) = handed_out b + min n (length (pending b))"
  using assms by (auto simp: buffer_ok_def consume_def Let_def pending_def pending_len_def handed_out_def
      add.commute min_def)

interpretation ob: byte_stream buffer_ok pending handed_out push_bytes consume take_into u64_max
proof
  fix b :: output_buffer and bs into :: "byte list" and n
  assume b: "buffer_ok b"
  show "buffer_ok (push_bytes bs b) \<and> pending (push_bytes bs b) = pending b @ bs
      \<and> handed_out (push_bytes bs b) = handed_out b"
    if "handed_out b + length (pending b) + length bs \<le> u64_max"
    using that b by (auto simp: buffer_ok_def push_bytes_def pending_def handed_out_def)
  show "buffer_ok (consume n b) \<and> pending (consume n b) = drop n (pending b)
      \<and> handed_out (consume n b) = handed_out b + min n (length (pending b))"
    by (rule consume_laws[OF b])
  show "fst (take_into into b) = into @ pending b \<and> buffer_ok (snd (take_into into b))
      \<and> pending (snd (take_into into b)) = []
      \<and> handed_out (snd (take_into into b)) = handed_out b + length (pending b)"
    using b consume_laws[OF b, of "pending_len b"]
    by (auto simp: take_into_def pending_len_def) (auto simp: buffer_ok_def pending_def handed_out_def)
qed

lemma vec_mut_keeps_sent:
  assumes "buffer_ok b" "take (start b) (f (buf b)) = take (start b) (buf b)"
    "dropped b + length (f (buf b)) \<le> u64_max"
  shows "buffer_ok (vec_mut f b) \<and> handed_out (vec_mut f b) = handed_out b
    \<and> pending (vec_mut f b) = drop (start b) (f (buf b))"
proof -
  have "start b \<le> length (f (buf b))"
    using assms(1) arg_cong[OF assms(2), of length] by (auto simp: buffer_ok_def)
  then show ?thesis using assms by (auto simp: buffer_ok_def vec_mut_def handed_out_def pending_def)
qed

abbreviation drive_buffer :: "stream_op \<Rightarrow> output_buffer \<times> byte list \<Rightarrow> output_buffer \<times> byte list" where
  "drive_buffer \<equiv> stream_step pending push_bytes consume take_into"

text \<open>
  C22: \<open>OutputBuffer\<close> (output_buffer.rs) is a queue that loses and repeats no byte: after any
  sequence of pushes, consumes of any size and takes, the bytes handed out followed by
  \<open>into_remaining\<close> (which is \<open>pending\<close>) are the bytes pushed, \<open>handed_out\<close> counts the first
  part and \<open>total\<close> both, whenever the compaction ran.
\<close>

theorem output_buffer_fifo:
  assumes "length (produced ops) \<le> u64_max" "fold drive_buffer ops (buffer_new, []) = (b, out)"
  shows "out @ into_remaining b = produced ops \<and> into_remaining b = pending b
    \<and> handed_out b = length out \<and> total b = length (produced ops)"
proof -
  have "buffer_ok buffer_new" "handed_out buffer_new = 0" "pending buffer_new = []"
    by (simp_all add: buffer_ok_def buffer_new_def handed_out_def pending_def)
  then have run: "buffer_ok b" "out @ pending b = produced ops" "handed_out b = length out"
    using ob.fifo[of buffer_new "[]" ops b out] assms by simp_all
  then have "total b = handed_out b + length (pending b)"
    by (auto simp: buffer_ok_def total_def handed_out_def pending_def)
  moreover have "into_remaining b = pending b"
    using run(1) by (simp add: into_remaining_def pending_def buffer_ok_def)
  ultimately show ?thesis using run by (metis length_append)
qed

theorem output_buffer_fifo_witness:
  "fold drive_buffer [Push [1, 2, 3], Consume 2, Push [4], Take] (buffer_new, [])
     = (\<lparr> buf = [], start = 0, dropped = 4 \<rparr>, [1, 2, 3, 4])
   \<and> [1, 2, 3, 4] @ into_remaining \<lparr> buf = [], start = 0, dropped = 4 \<rparr> = [1, 2, 3, 4 :: byte]"
proof -
  have "fold drive_buffer [Push [1, 2, 3], Consume 2, Push [4], Take] (buffer_new, [])
     = (\<lparr> buf = [], start = 0, dropped = 4 \<rparr>, [1, 2, 3, 4])"
    by (simp add: buffer_new_def push_bytes_def consume_def take_into_def pending_def pending_len_def
        u64_max_def COMPACT_AT_def Let_def)
  then show ?thesis
    using output_buffer_fifo[of "[Push [1, 2, 3], Consume 2, Push [4], Take]"] by (simp add: u64_max_def)
qed

text \<open>
  C36: Compaction (output_buffer.rs:90-104) bounds the buffer: after any \<open>consume\<close> the prefix
  already handed out is shorter than 64 KiB or than half of the buffer, and moving the
  tail never copies more than one byte beyond the bytes it drops.
\<close>

theorem consume_compacts:
  assumes "buffer_ok b" "b' = consume n b"
  shows "(start b' < COMPACT_AT \<or> start b' < length (buf b') div 2)
    \<and> (start b' = 0 \<or> buf b' = buf b)
    \<and> (dropped b' \<noteq> dropped b \<longrightarrow> length (buf b') \<le> Suc (dropped b' - dropped b))"
  using assms by (auto simp: consume_def Let_def buffer_ok_def pending_len_def pending_def COMPACT_AT_def
      split: if_splits)

theorem consume_compacts_witness:
  "start (consume 2 \<lparr> buf = [1, 2, 3], start = 0, dropped = 7 \<rparr>) < COMPACT_AT"
  using consume_compacts[of "\<lparr> buf = [1, 2, 3], start = 0, dropped = 7 \<rparr>" _ 2]
  by (simp add: buffer_ok_def u64_max_def consume_def pending_len_def pending_def COMPACT_AT_def)

subsection \<open>Patches\<close>

record patch =
  patch_offset :: nat
  patch_bytes :: "byte list"

record output_finish =
  tail :: "byte list"
  patches :: "patch list"

datatype patch_error = OutOfRange | AllocationFailed

datatype output_access = Forward | SeekBack

definition finish_new :: "byte list \<Rightarrow> patch list \<Rightarrow> output_finish" where
  "finish_new t ps = \<lparr> tail = t, patches = ps \<rparr>"

fun check_patches :: "nat \<Rightarrow> patch list \<Rightarrow> patch_error + unit" where
  "check_patches extent [] = Ok ()"
| "check_patches extent (p # ps) =
     and_then (ok_or OutOfRange (try_into u64_max (length (patch_bytes p)))) (\<lambda>len.
     and_then (ok_or OutOfRange (checked_add u64_max (patch_offset p) len)) (\<lambda>fin.
     if fin > extent then Err OutOfRange else check_patches extent ps))"

definition finish_validate :: "output_finish \<Rightarrow> nat \<Rightarrow> patch_error + nat" where
  "finish_validate f emitted =
     and_then (ok_or OutOfRange (try_into u64_max (length (tail f)))) (\<lambda>t.
     and_then (ok_or OutOfRange (checked_add u64_max emitted t)) (\<lambda>extent.
     and_then (check_patches extent (patches f)) (\<lambda>_. Ok extent)))"

text \<open>\<open>copy_from_slice\<close> into a sub-slice: a panic, here \<open>None\<close>, when the range is outside.\<close>

definition write_at :: "byte list \<Rightarrow> nat \<Rightarrow> byte list \<Rightarrow> byte list option" where
  "write_at f o' bs = (if o' + length bs \<le> length f
     then Some (take o' f @ bs @ drop (o' + length bs) f) else None)"

fun write_patches :: "byte list \<Rightarrow> patch list \<Rightarrow> byte list option" where
  "write_patches f [] = Some f"
| "write_patches f (p # ps) =
     (case write_at f (patch_offset p) (patch_bytes p) of None \<Rightarrow> None | Some f' \<Rightarrow> write_patches f' ps)"

definition apply_to ::
    "(nat \<Rightarrow> bool) \<Rightarrow> output_finish \<Rightarrow> byte list \<Rightarrow> (byte list \<times> (patch_error + unit)) option" where
  "apply_to reserve f file =
     (case and_then (ok_or OutOfRange (try_into u64_max (length file))) (finish_validate f) of
        Inl e \<Rightarrow> Some (file, Err e)
      | Inr _ \<Rightarrow>
          if \<not> reserve (length file + length (tail f)) then Some (file, Err AllocationFailed)
          else map_option (\<lambda>file'. (file', Ok ())) (write_patches (file @ tail f) (patches f)))"

definition patch_fits :: "nat \<Rightarrow> patch \<Rightarrow> bool" where
  "patch_fits n p \<longleftrightarrow> patch_offset p + length (patch_bytes p) \<le> n"

definition covers :: "nat \<Rightarrow> patch \<Rightarrow> bool" where
  "covers k p \<longleftrightarrow> patch_offset p \<le> k \<and> k < patch_offset p + length (patch_bytes p)"

text \<open>The byte at \<open>k\<close> after the patches: from the last patch that covers it, else the old one.\<close>

definition patched :: "byte list \<Rightarrow> patch list \<Rightarrow> nat \<Rightarrow> byte" where
  "patched f ps k = (case find (covers k) (rev ps) of
     None \<Rightarrow> f ! k | Some p \<Rightarrow> patch_bytes p ! (k - patch_offset p))"

lemma check_patches_Ok:
  "n \<le> u64_max \<Longrightarrow> check_patches n ps = Ok () \<longleftrightarrow> list_all (patch_fits n) ps"
  by (induction ps) (auto simp: patch_fits_def not_less)

lemma finish_validate_Ok:
  "finish_validate f e = Ok n \<longleftrightarrow>
     n = e + length (tail f) \<and> n \<le> u64_max \<and> list_all (patch_fits n) (patches f)"
  by (auto simp: finish_validate_def check_patches_Ok)

lemma check_patches_Err: "check_patches n ps = Err e \<Longrightarrow> e = OutOfRange"
  by (induction ps) (auto simp: and_then_Err split: if_splits)

lemma find_append: "find P (xs @ ys) = (case find P xs of None \<Rightarrow> find P ys | Some x \<Rightarrow> Some x)"
  by (induction xs) auto

lemma write_at_Some:
  "patch_fits (length f) p \<Longrightarrow> \<exists>f'. write_at f (patch_offset p) (patch_bytes p) = Some f' \<and> length f' = length f
     \<and> (\<forall>k < length f. f' ! k = (if covers k p then patch_bytes p ! (k - patch_offset p) else f ! k))"
  by (auto simp: write_at_def patch_fits_def covers_def nth_append)

lemma write_patches_Some:
  "list_all (patch_fits (length f)) ps \<Longrightarrow>
     \<exists>f'. write_patches f ps = Some f' \<and> length f' = length f \<and> (\<forall>k < length f. f' ! k = patched f ps k)"
proof (induction ps arbitrary: f)
  case Nil
  then show ?case by (simp add: patched_def)
next
  case (Cons p ps)
  obtain g where g: "write_at f (patch_offset p) (patch_bytes p) = Some g" "length g = length f"
    "\<forall>k < length f. g ! k = (if covers k p then patch_bytes p ! (k - patch_offset p) else f ! k)"
    using write_at_Some[of f p] Cons.prems by auto
  obtain f' where "write_patches g ps = Some f'" "length f' = length g" "\<forall>k < length g. f' ! k = patched g ps k"
    using Cons.IH[of g] Cons.prems g(2) by auto
  with g show ?case by (auto simp: patched_def find_append split: option.split)
qed

text \<open>
  C35: \<open>OutputFinish::apply_to\<close> (output_patch.rs:58-75) is all or nothing and never indexes
  outside the file. It succeeds exactly when the tail and every patch fit the final stream
  and the memory can be had; then the stream is the old one and the tail, each byte
  replaced by the last listed patch over it. Otherwise the file is unchanged.
\<close>

theorem apply_to_overlays:
  "\<exists>file' r. apply_to reserve f file = Some (file', r)
     \<and> (r = Ok () \<longleftrightarrow> length file + length (tail f) \<le> u64_max
          \<and> list_all (patch_fits (length file + length (tail f))) (patches f)
          \<and> reserve (length file + length (tail f)))
     \<and> (if r = Ok () then length file' = length file + length (tail f)
          \<and> (\<forall>k < length file'. file' ! k = patched (file @ tail f) (patches f) k)
        else file' = file)"
proof (cases "and_then (ok_or OutOfRange (try_into u64_max (length file))) (finish_validate f)")
  case (Inl e)
  then have "\<not> (length file + length (tail f) \<le> u64_max
      \<and> list_all (patch_fits (length file + length (tail f))) (patches f))"
    using finish_validate_Ok[of f "length file" "length file + length (tail f)"]
    by (auto simp: and_then_Err)
  then show ?thesis by (auto simp: apply_to_def Inl)
next
  case (Inr n)
  then have ok: "n = length file + length (tail f)" "n \<le> u64_max" "list_all (patch_fits n) (patches f)"
    by (auto simp: finish_validate_Ok)
  then show ?thesis
    using write_patches_Some[of "file @ tail f" "patches f"] by (auto simp: apply_to_def Inr)
qed

text \<open>A three byte stream with a one byte tail and a patch over its second byte.\<close>

definition small_finish :: output_finish where
  "small_finish = finish_new [4] [\<lparr> patch_offset = 1, patch_bytes = [9] \<rparr>]"

theorem apply_to_overlays_witness:
  "\<exists>file'. apply_to (\<lambda>_. True) small_finish [1, 2, 3] = Some (file', Ok ())
     \<and> length file' = 4 \<and> file' ! 1 = 9"
proof -
  have fits: "list_all (patch_fits 4) (patches small_finish)" "tail small_finish = [4]"
    by (simp_all add: small_finish_def finish_new_def patch_fits_def)
  have new: "patched ([1, 2, 3] @ [4]) (patches small_finish) 1 = 9"
    by (simp add: patched_def small_finish_def finish_new_def covers_def)
  have n: "length ([1, 2, 3] :: byte list) + length (tail small_finish) = 4" "(4::nat) \<le> u64_max"
    by (simp_all add: fits u64_max_def)
  have "(1::nat) < 4" by simp
  with apply_to_overlays[of "\<lambda>_. True" small_finish "[1, 2, 3]", unfolded n(1)] n(2) fits(1) new
  show ?thesis unfolding fits(2) by metis
qed

end
