(* ===== verification/Storage.thy ===== *)
theory Storage
  imports Prelude
begin

text \<open>
  \<open>src/src/storage.rs\<close>: admission of memory by two shared atomic counters. Every call to
  \<open>reserve\<close> is a process; its program counter is a \<open>phase\<close> and one step is one atomic access,
  so any interleaving of any number of threads is a sequence of steps. A weak compare and
  exchange may fail for no reason: the flag of \<open>Run\<close>. Clones of a \<open>SharedStorage\<close> are handles
  of one live allocation; its last handle releases the charge, bytes first.
\<close>

subsection \<open>Counters\<close>

datatype storage_error =
    Bytes nat nat
  | Objects nat
  | SizeOverflow
  | Allocation
  | Capacity nat nat
  | RangeError

record budget =
  max_bytes :: nat
  max_objects :: nat
  bytes :: nat
  objects :: nat

definition budget_new :: "nat \<Rightarrow> nat \<Rightarrow> budget" where
  "budget_new mb mo = \<lparr> max_bytes = mb, max_objects = mo, bytes = 0, objects = 0 \<rparr>"

definition fetch_sub :: "nat \<Rightarrow> nat \<Rightarrow> nat" where
  "fetch_sub counter n = wrap usize_max (counter + Suc usize_max - n)"

lemma fetch_sub_le: "n \<le> counter \<Longrightarrow> counter \<le> u64_max \<Longrightarrow> fetch_sub counter n = counter - n"
proof -
  assume le: "n \<le> counter" "counter \<le> u64_max"
  then have "counter + Suc u64_max - n = (counter - n) + Suc u64_max" by simp
  then have "fetch_sub counter n = (counter - n) mod Suc u64_max"
    unfolding fetch_sub_def wrap_def by (metis mod_add_self2)
  with le show ?thesis by simp
qed

text \<open>One turn of the loop in \<open>add_bounded\<close> with the value \<open>current\<close> loaded before.\<close>

datatype turn = Full | Retry nat | Added nat

definition add_bounded_turn :: "bool \<Rightarrow> nat \<Rightarrow> nat \<Rightarrow> nat \<Rightarrow> nat \<Rightarrow> turn" where
  "add_bounded_turn weak counter current amount limit =
     (case checked_add usize_max current amount of
        None \<Rightarrow> Full
      | Some next \<Rightarrow>
          if next \<le> limit then if counter = current \<and> \<not> weak then Added next else Retry counter
          else Full)"

subsection \<open>One reservation\<close>

datatype phase =
    Enter nat
  | Admitting nat nat
  | Admitted nat
  | Charging nat nat
  | Undo nat
  | Refused storage_error
  | Live nat nat
  | Discharged nat
  | Released

datatype action = Run bool | Clone | DropHandle

fun reserve_step :: "bool \<Rightarrow> budget \<Rightarrow> phase \<Rightarrow> budget \<times> phase" where
  "reserve_step weak b (Enter n) = (b, Admitting n (objects b))"
| "reserve_step weak b (Admitting n current) =
     (case add_bounded_turn weak (objects b) current 1 (max_objects b) of
        Full \<Rightarrow> (b, Refused (Objects (max_objects b)))
      | Retry actual \<Rightarrow> (b, Admitting n actual)
      | Added next \<Rightarrow> (b\<lparr>objects := next\<rparr>, Admitted n))"
| "reserve_step weak b (Admitted n) = (b, Charging n (bytes b))"
| "reserve_step weak b (Charging n current) =
     (case add_bounded_turn weak (bytes b) current n (max_bytes b) of
        Full \<Rightarrow> (b, Undo n)
      | Retry actual \<Rightarrow> (b, Charging n actual)
      | Added next \<Rightarrow> (b\<lparr>bytes := next\<rparr>, Live n 1))"
| "reserve_step weak b (Undo n) =
     (b\<lparr>objects := fetch_sub (objects b) 1\<rparr>, Refused (Bytes n (max_bytes b)))"
| "reserve_step weak b p = (b, p)"

fun drop_step :: "budget \<Rightarrow> phase \<Rightarrow> budget \<times> phase" where
  "drop_step b (Live n 0) = (b\<lparr>bytes := fetch_sub (bytes b) n\<rparr>, Discharged n)"
| "drop_step b (Discharged n) = (b\<lparr>objects := fetch_sub (objects b) 1\<rparr>, Released)"
| "drop_step b p = (b, p)"

fun act :: "action \<Rightarrow> budget \<Rightarrow> phase \<Rightarrow> budget \<times> phase" where
  "act (Run weak) b (Live n h) = drop_step b (Live n h)"
| "act (Run weak) b (Discharged n) = drop_step b (Discharged n)"
| "act (Run weak) b p = reserve_step weak b p"
| "act Clone b (Live n (Suc h)) = (b, Live n (Suc (Suc h)))"
| "act DropHandle b (Live n (Suc h)) = (b, Live n h)"
| "act _ b p = (b, p)"

inductive reachable :: "nat \<Rightarrow> nat \<Rightarrow> budget \<Rightarrow> phase list \<Rightarrow> bool" for mb mo where
  start: "reachable mb mo (budget_new mb mo) []"
| enter: "reachable mb mo b ps \<Longrightarrow> reachable mb mo b (ps @ [Enter n])"
| step: "reachable mb mo b ps \<Longrightarrow> k < length ps \<Longrightarrow> act a b (ps ! k) = (b', p) \<Longrightarrow>
    reachable mb mo b' (ps[k := p])"

text \<open>What a process has added to the counters and not taken back.\<close>

fun byte_charge :: "phase \<Rightarrow> nat" where
  "byte_charge (Live n h) = n"
| "byte_charge _ = 0"

fun object_charge :: "phase \<Rightarrow> nat" where
  "object_charge (Admitted n) = 1"
| "object_charge (Charging n c) = 1"
| "object_charge (Undo n) = 1"
| "object_charge (Live n h) = 1"
| "object_charge (Discharged n) = 1"
| "object_charge _ = 0"

definition accounted :: "nat \<Rightarrow> nat \<Rightarrow> budget \<Rightarrow> phase list \<Rightarrow> bool" where
  "accounted mb mo b ps \<longleftrightarrow>
     max_bytes b = mb \<and> max_objects b = mo \<and> bytes b \<le> mb \<and> objects b \<le> mo
     \<and> bytes b = sum_list (map byte_charge ps) \<and> objects b = sum_list (map object_charge ps)"

lemma sum_list_update_charge:
  assumes "k < length ps"
  shows "sum_list (map f (ps[k := p])) + f (ps ! k) = sum_list (map f ps) + (f p :: nat)"
  using assms by (induction ps arbitrary: k) (auto simp: nth_Cons split: nat.split)

lemma charge_le: "k < length ps \<Longrightarrow> f (ps ! k) \<le> (sum_list (map f ps) :: nat)"
  by (rule member_le_sum_list) simp_all

text \<open>A step changes each counter by exactly what it changes the process's charge.\<close>

lemma act_charges:
  assumes "act a b p = (b', p')" "byte_charge p \<le> bytes b" "object_charge p \<le> objects b"
    "bytes b \<le> max_bytes b" "objects b \<le> max_objects b" "max_bytes b \<le> u64_max" "max_objects b \<le> u64_max"
  shows "max_bytes b' = max_bytes b" "max_objects b' = max_objects b"
    "bytes b' + byte_charge p = bytes b + byte_charge p'"
    "objects b' + object_charge p = objects b + object_charge p'"
    "bytes b' \<le> max_bytes b" "objects b' \<le> max_objects b"
  using assms
  by (cases "(a, b, p)" rule: act.cases;
      auto simp: fetch_sub_le add_bounded_turn_def split: turn.splits option.splits if_splits nat.splits
        elim!: drop_step.elims)+

lemma reachable_accounted:
  assumes "reachable mb mo b ps" "mb \<le> u64_max" "mo \<le> u64_max"
  shows "accounted mb mo b ps"
  using assms(1)
proof (induction rule: reachable.induct)
  case start
  then show ?case by (simp add: accounted_def budget_new_def)
next
  case (enter b ps n)
  then show ?case by (simp add: accounted_def)
next
  case (step b ps k a b' p)
  have le: "byte_charge (ps ! k) \<le> bytes b" "object_charge (ps ! k) \<le> objects b"
    using step.IH charge_le[OF step.hyps(2)] by (simp_all add: accounted_def)
  have "max_bytes b = mb" "max_objects b = mo" "bytes b \<le> mb" "objects b \<le> mo"
    using step.IH by (simp_all add: accounted_def)
  note charges = act_charges[OF step.hyps(3) le, unfolded this, OF this(3,4) assms(2,3)]
  then show ?case
    using step.IH sum_list_update_charge[OF step.hyps(2), of byte_charge p]
      sum_list_update_charge[OF step.hyps(2), of object_charge p] le
    by (simp add: accounted_def)
qed

text \<open>
  C18: In every interleaving of any number of reservations, releases and clones the two counters
  never pass their limits, never wrap below zero, and are exactly the charges of the
  processes that hold some: so when every reservation is refused or released, both are zero
  (storage.rs:91-201, \<open>reserve\<close>, \<open>add_bounded\<close>, \<open>Drop for Reservation\<close>).
\<close>

theorem budget_never_exceeded:
  assumes "reachable mb mo b ps" "mb \<le> u64_max" "mo \<le> u64_max"
  shows "bytes b \<le> mb \<and> objects b \<le> mo
    \<and> bytes b = sum_list (map byte_charge ps) \<and> objects b = sum_list (map object_charge ps)
    \<and> ((\<forall>p \<in> set ps. p = Released \<or> (\<exists>e. p = Refused e)) \<longrightarrow> bytes b = 0 \<and> objects b = 0)"
proof -
  have "sum_list (map byte_charge ps) = 0 \<and> sum_list (map object_charge ps) = 0"
    if "\<forall>p \<in> set ps. p = Released \<or> (\<exists>e. p = Refused e)"
    using that by (induction ps) auto
  then show ?thesis using reachable_accounted[OF assms] by (auto simp: accounted_def)
qed

theorem budget_never_exceeded_witness:
  "bytes \<lparr> max_bytes = 5, max_objects = 1, bytes = 0, objects = 1 \<rparr> \<le> 5
   \<and> reachable 5 1 \<lparr> max_bytes = 5, max_objects = 1, bytes = 0, objects = 1 \<rparr> [Admitted 3, Admitting 4 0]"
proof -
  have "reachable 5 1 (budget_new 5 1) ([] @ [Enter 3])" by (intro reachable.intros)
  then have "reachable 5 1 (budget_new 5 1) ([Enter 3] @ [Enter 4])" by (intro reachable.enter) simp
  from reachable.step[OF this, of 0 "Run False"]
  have "reachable 5 1 (budget_new 5 1) [Admitting 3 0, Enter 4]" by (simp add: budget_new_def)
  from reachable.step[OF this, of 1 "Run False"]
  have "reachable 5 1 (budget_new 5 1) [Admitting 3 0, Admitting 4 0]" by (simp add: budget_new_def)
  from reachable.step[OF this, of 0 "Run False"]
  have run: "reachable 5 1 \<lparr> max_bytes = 5, max_objects = 1, bytes = 0, objects = 1 \<rparr> [Admitted 3, Admitting 4 0]"
    by (simp add: budget_new_def add_bounded_turn_def checked_add_def u64_max_def)
  then show ?thesis using budget_never_exceeded[OF run] by (simp add: u64_max_def)
qed

subsection \<open>What a reservation decides\<close>

fun undisturbed :: "nat \<Rightarrow> budget \<Rightarrow> phase \<Rightarrow> budget \<times> phase" where
  "undisturbed 0 b p = (b, p)"
| "undisturbed (Suc k) b p = (case reserve_step False b p of (b', p') \<Rightarrow> undisturbed k b' p')"

text \<open>
  A \<open>reserve\<close> that runs undisturbed (storage.rs:163-178) returns after at most five atomic
  accesses: it is admitted exactly when one more object and the bytes both fit, and then both
  counters grow by its charge; otherwise the error names the limit that failed, objects first,
  and both counters are as before, the object slot taken for the byte test included.
\<close>

theorem reserve_decides:
  assumes "objects b \<le> max_objects b" "bytes b \<le> max_bytes b" "max_objects b \<le> u64_max" "max_bytes b \<le> u64_max"
  shows "undisturbed 5 b (Enter n) =
    (if objects b + 1 > max_objects b then (b, Refused (Objects (max_objects b)))
     else if bytes b + n > max_bytes b then (b, Refused (Bytes n (max_bytes b)))
     else (b\<lparr>objects := objects b + 1, bytes := bytes b + n\<rparr>, Live n 1))"
proof -
  have five: "(5::nat) = Suc (Suc (Suc (Suc (Suc 0))))" by simp
  consider "objects b + 1 > max_objects b" | "objects b + 1 \<le> max_objects b" "bytes b + n > max_bytes b"
    | "objects b + 1 \<le> max_objects b" "bytes b + n \<le> max_bytes b" by linarith
  then show ?thesis
    using assms by cases (auto simp: five add_bounded_turn_def checked_add_def fetch_sub_le)
qed

theorem reserve_decides_witness:
  "undisturbed 5 (budget_new 5 1) (Enter 6) = (budget_new 5 1, Refused (Bytes 6 5))
   \<and> undisturbed 5 (budget_new 5 1) (Enter 4) = (\<lparr> max_bytes = 5, max_objects = 1, bytes = 4, objects = 1 \<rparr>, Live 4 1)"
  using reserve_decides[of "budget_new 5 1" 6] reserve_decides[of "budget_new 5 1" 4]
  by (simp add: budget_new_def u64_max_def)

subsection \<open>Allocation and shared views\<close>

record 'a prepared =
  elements :: nat
  fill_value :: 'a
  reserved :: nat

definition isize_max :: nat where "isize_max = 9223372036854775807"

definition prepare_bytes :: "nat \<Rightarrow> nat \<Rightarrow> storage_error + nat" where
  "prepare_bytes elem_size len =
     (case checked_mul usize_max len elem_size of
        None \<Rightarrow> Err SizeOverflow
      | Some n \<Rightarrow> if n \<le> isize_max then Ok n else Err SizeOverflow)"

text \<open>
  \<open>allocate\<close> with the vector's answer: \<open>capacity_of len\<close> is the capacity \<open>try_reserve_exact\<close>
  left it with, \<open>None\<close> when it failed. On an error the reservation is dropped: the process is
  a \<open>Live\<close> one whose only handle goes away.
\<close>

definition allocate :: "(nat \<Rightarrow> nat option) \<Rightarrow> nat \<Rightarrow> 'a prepared \<Rightarrow> storage_error + 'a list" where
  "allocate capacity_of elem_size p =
     (case capacity_of (elements p) of
        None \<Rightarrow> Err Allocation
      | Some capacity \<Rightarrow> (case checked_mul usize_max capacity elem_size of
          None \<Rightarrow> Err SizeOverflow
        | Some actual \<Rightarrow>
            if actual > reserved p then Err (Capacity (reserved p) actual)
            else Ok (replicate (elements p) (fill_value p))))"

record 'a shared_storage =
  backing :: "'a list"
  charged :: nat
  view_start :: nat
  view_end :: nat

definition freeze :: "'a list \<Rightarrow> nat \<Rightarrow> 'a shared_storage" where
  "freeze d n = \<lparr> backing = d, charged = n, view_start = 0, view_end = length d \<rparr>"

definition view_len :: "'a shared_storage \<Rightarrow> nat" where
  "view_len v = view_end v - view_start v"

definition view_slice :: "'a shared_storage \<Rightarrow> nat \<Rightarrow> nat \<Rightarrow> storage_error + 'a shared_storage" where
  "view_slice v a b =
     (if a > b \<or> b > view_len v then Err RangeError
      else Ok (v\<lparr>view_start := view_start v + a, view_end := view_start v + b\<rparr>))"

definition as_slice :: "'a shared_storage \<Rightarrow> 'a list option" where
  "as_slice v =
     (if view_start v \<le> view_end v \<and> view_end v \<le> length (backing v)
      then Some (take (view_len v) (drop (view_start v) (backing v))) else None)"

fun reslice :: "'a shared_storage \<Rightarrow> (nat \<times> nat) list \<Rightarrow> storage_error + 'a shared_storage" where
  "reslice v [] = Ok v"
| "reslice v ((a, b) # rs) = and_then (view_slice v a b) (\<lambda>w. reslice w rs)"

definition sublist :: "nat \<times> nat \<Rightarrow> 'a list \<Rightarrow> 'a list" where
  "sublist r xs = take (snd r - fst r) (drop (fst r) xs)"

lemma view_slice_as_slice:
  assumes "as_slice v = Some xs" "view_slice v a b = Ok w"
  shows "as_slice w = Some (sublist (a, b) xs) \<and> a \<le> b \<and> b \<le> length xs
    \<and> backing w = backing v \<and> charged w = charged v"
proof -
  have *: "view_start v \<le> view_end v" "view_end v \<le> length (backing v)" "a \<le> b" "b \<le> view_end v - view_start v"
    "xs = take (view_end v - view_start v) (drop (view_start v) (backing v))"
    "w = v\<lparr>view_start := view_start v + a, view_end := view_start v + b\<rparr>"
    using assms by (auto simp: as_slice_def view_slice_def view_len_def not_less split: if_splits)
  then show ?thesis
    by (auto simp: as_slice_def view_len_def sublist_def drop_take add.commute min_def)
qed

text \<open>
  Subviews of shared storage (storage.rs:325-345) nest: any chain of \<open>slice\<close> calls that
  succeeds shows exactly the sub-range of a sub-range it names, reading it never leaves the
  backing array, and each view keeps the charge of the whole allocation.
\<close>

theorem shared_views_nest:
  assumes "reslice (freeze d n) rs = Ok v"
  shows "as_slice v = Some (fold sublist rs d) \<and> charged v = n \<and> backing v = d"
proof -
  have "as_slice v = Some (fold sublist rs xs) \<and> charged v = charged u \<and> backing v = backing u"
    if "reslice u rs = Ok v" "as_slice u = Some xs" for u xs
    using that
  proof (induction rs arbitrary: u xs)
    case (Cons r rs)
    then obtain a b w where "r = (a, b)" "view_slice u a b = Ok w" "reslice w rs = Ok v"
      by (cases r) auto
    with Cons.IH[of w] view_slice_as_slice[OF Cons.prems(2), of a b w] show ?case by simp
  qed simp
  moreover have "as_slice (freeze d n) = Some d" by (simp add: freeze_def as_slice_def view_len_def)
  ultimately have "as_slice v = Some (fold sublist rs d) \<and> charged v = charged (freeze d n)
      \<and> backing v = backing (freeze d n)" using assms by blast
  then show ?thesis by (simp add: freeze_def)
qed

theorem shared_views_nest_witness:
  "as_slice \<lparr> backing = [1, 2, 3, 4, 5 :: nat], charged = 40, view_start = 2, view_end = 4 \<rparr> = Some [3, 4]"
  using shared_views_nest[of "[1, 2, 3, 4, 5 :: nat]" 40 "[(1, 5), (1, 3)]"]
  by (simp add: freeze_def view_slice_def view_len_def sublist_def numeral_2_eq_2)

end
