(* ===== verification/Byte_Source.thy ===== *)
theory Byte_Source
  imports Prelude
begin

text \<open>
  \<open>src/src/source.rs\<close>: how a decoder declares the way it reads (\<open>AccessPattern\<close>, a linear
  order in which \<open>most_demanding\<close> is the maximum), positional sources and the one over a slice,
  the reads the trait derives; and \<open>zencodec-io/src/read_at_reader.rs\<close>, a sequential reader
  over a positional source. Two interfaces are stated here: \<open>positional_source\<close>, a source that
  answers with the bytes of one fixed content, and \<open>sequential_reader\<close>, the contract of
  \<open>std::io::Read\<close>; the first gives the second through \<open>ReadAtReader\<close>.
\<close>

subsection \<open>Access patterns\<close>

datatype access_pattern = Sequential | BoundedBacktrack nat | RandomAccess

fun most_demanding :: "access_pattern \<Rightarrow> access_pattern \<Rightarrow> access_pattern" where
  "most_demanding RandomAccess _ = RandomAccess"
| "most_demanding _ RandomAccess = RandomAccess"
| "most_demanding (BoundedBacktrack a) (BoundedBacktrack b) = BoundedBacktrack (if a > b then a else b)"
| "most_demanding (BoundedBacktrack w) _ = BoundedBacktrack w"
| "most_demanding _ (BoundedBacktrack w) = BoundedBacktrack w"
| "most_demanding Sequential Sequential = Sequential"

instantiation access_pattern :: linorder
begin

fun less_eq_access_pattern :: "access_pattern \<Rightarrow> access_pattern \<Rightarrow> bool" where
  "less_eq_access_pattern Sequential _ \<longleftrightarrow> True"
| "less_eq_access_pattern (BoundedBacktrack a) Sequential \<longleftrightarrow> False"
| "less_eq_access_pattern (BoundedBacktrack a) (BoundedBacktrack b) \<longleftrightarrow> a \<le> b"
| "less_eq_access_pattern (BoundedBacktrack a) RandomAccess \<longleftrightarrow> True"
| "less_eq_access_pattern RandomAccess p \<longleftrightarrow> p = RandomAccess"

definition less_access_pattern :: "access_pattern \<Rightarrow> access_pattern \<Rightarrow> bool" where
  "less_access_pattern p q \<longleftrightarrow> p \<le> q \<and> \<not> q \<le> p"

instance
proof
  fix p q r :: access_pattern
  show "p < q \<longleftrightarrow> p \<le> q \<and> \<not> q \<le> p" by (rule less_access_pattern_def)
  show "p \<le> p" by (cases p) simp_all
  show "p \<le> q \<Longrightarrow> q \<le> r \<Longrightarrow> p \<le> r" by (cases p; cases q; cases r) simp_all
  show "p \<le> q \<Longrightarrow> q \<le> p \<Longrightarrow> p = q" by (cases p; cases q) simp_all
  show "p \<le> q \<or> q \<le> p" by (cases p; cases q) auto
qed

end

lemma most_demanding_max: "most_demanding p q = max p q"
  by (cases p; cases q) (auto simp: max_def)

subsection \<open>Errors\<close>

datatype source_error =
    BeyondWindow nat nat
  | BeyondLimit nat nat
  | UnexpectedEof nat nat "nat option"
  | SourceIo string

text \<open>The kinds of \<open>std::io::Error\<close> the code tells apart, and what it raises itself.\<close>

datatype 'e io_error = Interrupted | Failed 'e

datatype 'e reader_error = FromSource 'e | InvalidData

subsection \<open>Positional sources\<close>

text \<open>
  An operation takes the state of the source and returns it with the bytes written into the
  caller's buffer, whose length is the number asked for.
\<close>

type_synonym ('s, 'e) positional_read = "'s \<Rightarrow> nat \<Rightarrow> nat \<Rightarrow> 's \<times> ('e + byte list)"

definition default_is_empty :: "('s \<Rightarrow> 's \<times> ('e + nat)) \<Rightarrow> 's \<Rightarrow> 's \<times> ('e + bool)" where
  "default_is_empty len s = (case len s of
     (s', Inl e) \<Rightarrow> (s', Err e) | (s', Inr n) \<Rightarrow> (s', Ok (n = 0)))"

definition default_read_at ::
    "('s \<Rightarrow> 's \<times> ('e + nat)) \<Rightarrow> ('s, 'e) positional_read \<Rightarrow> ('s, 'e) positional_read" where
  "default_read_at len read_exact_at s offset n = (case len s of
     (s', Inl e) \<Rightarrow> (s', Err e)
   | (s', Inr extent) \<Rightarrow> read_exact_at s' offset (min (extent - offset) n))"

fun default_read_many_at ::
    "('s, 'e) positional_read \<Rightarrow> 's \<Rightarrow> (nat \<times> nat) list \<Rightarrow> 's \<times> ('e + byte list list)" where
  "default_read_many_at read_exact_at s [] = (s, Ok [])"
| "default_read_many_at read_exact_at s ((offset, n) # reqs) = (case read_exact_at s offset n of
     (s', Inl e) \<Rightarrow> (s', Err e)
   | (s', Inr bs) \<Rightarrow> (case default_read_many_at read_exact_at s' reqs of
       (s'', Inl e) \<Rightarrow> (s'', Err e) | (s'', Inr bss) \<Rightarrow> (s'', Ok (bs # bss))))"

definition slice_len :: "byte list \<Rightarrow> byte list \<times> (source_error + nat)" where
  "slice_len bs = (bs, Ok (length bs))"

definition slice_eof :: "byte list \<Rightarrow> nat \<Rightarrow> nat \<Rightarrow> source_error" where
  "slice_eof bs offset n = UnexpectedEof offset n (Some (length bs))"

definition slice_read_at :: "(byte list, source_error) positional_read" where
  "slice_read_at bs offset n =
     (let start = min (case try_into usize_max offset of None \<Rightarrow> usize_max | Some s \<Rightarrow> s) (length bs);
          k = min (length bs - start) n
      in (bs, Ok (take k (drop start bs))))"

definition slice_read_exact_at :: "(byte list, source_error) positional_read" where
  "slice_read_exact_at bs offset n =
     (case try_into usize_max offset of
        None \<Rightarrow> (bs, Err (slice_eof bs offset n))
      | Some start \<Rightarrow> (case checked_add usize_max start n of
          None \<Rightarrow> (bs, Err (slice_eof bs offset n))
        | Some fin \<Rightarrow>
            if fin \<le> length bs then (bs, Ok (take n (drop start bs)))
            else (bs, Err (slice_eof bs offset n))))"

text \<open>A source whose answers are the bytes of a content that no operation changes.\<close>

locale positional_source =
  fixes ok :: "'s \<Rightarrow> bool" and content :: "'s \<Rightarrow> byte list" and read_at :: "('s, 'e) positional_read"
  assumes reads: "ok s \<Longrightarrow> read_at s offset n = (s', r) \<Longrightarrow>
      ok s' \<and> content s' = content s \<and> (\<forall>bs. r = Ok bs \<longrightarrow> bs = take n (drop offset (content s)))"

subsection \<open>A reader over a positional source\<close>

record 's reader =
  source :: 's
  position :: nat

definition reader_new :: "'s \<Rightarrow> 's reader" where
  "reader_new s = \<lparr> source = s, position = 0 \<rparr>"

text \<open>
  \<open>into_io\<close> gives a source's own error as an \<open>io::Error\<close>. The model takes it for a failure: it is
  about sources whose errors are not themselves an \<open>io::Error\<close> of kind \<open>Interrupted\<close>, which
  \<open>into_io\<close> would pass on as it is. Slices have no such error, and a file's read is retried by
  the source until it is not interrupted.
\<close>

definition reader_read ::
    "('s, 'e) positional_read \<Rightarrow> 's reader \<Rightarrow> nat \<Rightarrow> 's reader \<times> ('e reader_error io_error + byte list)" where
  "reader_read read_at r n =
     (if n = 0 then (r, Ok [])
      else case read_at (source r) (position r) n of
        (s, Inl e) \<Rightarrow> (r\<lparr>source := s\<rparr>, Err (Failed (FromSource e)))
      | (s, Inr bs) \<Rightarrow>
          if length bs > n then (r\<lparr>source := s\<rparr>, Err (Failed InvalidData))
          else case checked_add u64_max (position r) (length bs) of
            None \<Rightarrow> (r\<lparr>source := s\<rparr>, Err (Failed InvalidData))
          | Some p \<Rightarrow> (r\<lparr>source := s, position := p\<rparr>, Ok bs))"

datatype seek_from = SeekStart nat | SeekCurrent int | SeekEnd int

datatype 'e seek_error = SeekSource 'e | InvalidInput

definition checked_add_signed :: "nat \<Rightarrow> int \<Rightarrow> nat option" where
  "checked_add_signed a d = (let x = int a + d in if 0 \<le> x \<and> x \<le> int u64_max then Some (nat x) else None)"

definition reader_seek ::
    "('s \<Rightarrow> 's \<times> ('e + nat)) \<Rightarrow> 's reader \<Rightarrow> seek_from \<Rightarrow> 's reader \<times> ('e seek_error + nat)" where
  "reader_seek len r target =
     (let settle = (\<lambda>r p. case p of
        None \<Rightarrow> (r, Err InvalidInput) | Some p \<Rightarrow> (r\<lparr>position := p\<rparr>, Ok p))
      in case target of
           SeekStart n \<Rightarrow> settle r (Some n)
         | SeekCurrent d \<Rightarrow> settle r (checked_add_signed (position r) d)
         | SeekEnd d \<Rightarrow> (case len (source r) of
             (s, Inl e) \<Rightarrow> (r\<lparr>source := s\<rparr>, Err (SeekSource e))
           | (s, Inr n) \<Rightarrow> settle (r\<lparr>source := s\<rparr>) (checked_add_signed n d)))"

text \<open>
  The contract of \<open>std::io::Read\<close> over a stream: \<open>rest\<close> is what is left, \<open>interrupts\<close> bounds
  the interruptions before the next other answer.
\<close>

locale sequential_reader =
  fixes good :: "'r \<Rightarrow> bool" and rd :: "'r \<Rightarrow> nat \<Rightarrow> 'r \<times> ('e io_error + byte list)"
    and rest :: "'r \<Rightarrow> byte list" and interrupts :: "'r \<Rightarrow> nat"
  assumes stays_good: "good r \<Longrightarrow> rd r n = (r', x) \<Longrightarrow> good r'"
    and interrupted: "good r \<Longrightarrow> rd r n = (r', Err Interrupted) \<Longrightarrow>
      rest r' = rest r \<and> interrupts r' < interrupts r"
    and failed: "good r \<Longrightarrow> rd r n = (r', Err (Failed e)) \<Longrightarrow> rest r' = rest r"
    and delivers: "good r \<Longrightarrow> rd r n = (r', Ok bs) \<Longrightarrow>
      length bs \<le> n \<and> rest r = bs @ rest r' \<and> (bs = [] \<longrightarrow> n = 0 \<or> rest r = [])"

definition unread :: "('s \<Rightarrow> byte list) \<Rightarrow> 's reader \<Rightarrow> byte list" where
  "unread content r = drop (position r) (content (source r))"

sublocale positional_source \<subseteq>
  over: sequential_reader "\<lambda>r. ok (source r)" "reader_read read_at" "unread content" "\<lambda>_. 0"
proof
  fix r :: "'s reader" and n and r' :: "'s reader" and e and bs :: "byte list" and x
  assume good: "ok (source r)"
  note reads = reads[OF good, of "position r" n]
  show "reader_read read_at r n = (r', x) \<Longrightarrow> ok (source r')"
    using reads good by (auto simp: reader_read_def split: if_splits prod.splits sum.splits option.splits)
  show "reader_read read_at r n = (r', Err Interrupted) \<Longrightarrow>
      unread content r' = unread content r \<and> 0 < (0 :: nat)"
    by (auto simp: reader_read_def split: if_splits prod.splits sum.splits option.splits)
  show "reader_read read_at r n = (r', Err (Failed e)) \<Longrightarrow> unread content r' = unread content r"
    using reads
    by (auto simp: reader_read_def unread_def split: if_splits prod.splits sum.splits option.splits)
  assume read: "reader_read read_at r n = (r', Ok bs)"
  show "length bs \<le> n \<and> unread content r = bs @ unread content r' \<and> (bs = [] \<longrightarrow> n = 0 \<or> unread content r = [])"
  proof (cases "n = 0")
    case False
    then obtain s where s: "read_at (source r) (position r) n = (s, Ok bs)" "length bs \<le> n"
      "r' = r\<lparr>source := s, position := position r + length bs\<rparr>"
      using read by (auto simp: reader_read_def split: prod.splits sum.splits option.splits if_splits)
    define ys where "ys = drop (position r) (content (source r))"
    have "bs = take n ys" "unread content r = ys" "unread content r' = drop (length bs) ys"
      using reads[OF s(1)] s(3) by (auto simp: unread_def ys_def add.commute)
    then show ?thesis using False by (cases "n \<le> length ys") auto
  qed (use read in \<open>simp add: reader_read_def\<close>)
qed

definition addressable :: "byte list \<Rightarrow> bool" where
  "addressable bs \<longleftrightarrow> length bs \<le> u64_max"

interpretation slice: positional_source addressable "\<lambda>bs. bs" slice_read_at
proof
  fix s s' :: "byte list" and offset n and r :: "source_error + byte list"
  assume "addressable s" "slice_read_at s offset n = (s', r)"
  then show "addressable s' \<and> s' = s \<and> (\<forall>bs. r = Ok bs \<longrightarrow> bs = take n (drop offset s))"
    by (cases "offset \<le> length s")
      (auto simp: slice_read_at_def Let_def try_into_def addressable_def min_def not_le split: if_splits)
qed

lemma slice_default_read:
  assumes "length bs \<le> u64_max"
  shows "default_read_at slice_len slice_read_exact_at bs offset n =
    (if offset \<le> length bs then slice_read_at bs offset n
     else (bs, Err (UnexpectedEof offset 0 (Some (length bs)))))"
proof (cases "offset \<le> length bs")
  case True
  with assms show ?thesis
    by (simp add: default_read_at_def slice_len_def slice_read_exact_at_def slice_read_at_def Let_def
        try_into_def checked_add_def)
next
  case False
  then show ?thesis
    by (auto simp: default_read_at_def slice_len_def slice_read_exact_at_def slice_eof_def try_into_def
        checked_add_def)
qed

subsection \<open>A file\<close>

text \<open>
  \<open>zencodec-io/src/file.rs\<close>: the length is read once when the source is made; \<open>pread\<close> is the
  operating system's exact positional read of the open file.
\<close>

datatype 'e std_source_error = SourceFault source_error | Io 'e | AllocationFault nat

record 'e file_source =
  pread :: "nat \<Rightarrow> nat \<Rightarrow> 'e + byte list"
  file_len :: nat

definition file_new :: "(nat \<Rightarrow> nat \<Rightarrow> 'e + byte list) \<Rightarrow> 'e + nat \<Rightarrow> 'e std_source_error + 'e file_source" where
  "file_new f metadata_len = (case metadata_len of
     Inl e \<Rightarrow> Err (Io e) | Inr n \<Rightarrow> Ok \<lparr> pread = f, file_len = n \<rparr>)"

definition file_source_len :: "'e file_source \<Rightarrow> 'e file_source \<times> ('e std_source_error + nat)" where
  "file_source_len f = (f, Ok (file_len f))"

definition file_read_exact_at :: "('e file_source, 'e std_source_error) positional_read" where
  "file_read_exact_at f offset n =
     (if (case checked_add u64_max offset n of None \<Rightarrow> True | Some fin \<Rightarrow> fin > file_len f)
      then (f, Err (SourceFault (UnexpectedEof offset n (Some (file_len f)))))
      else (f, case pread f offset n of Inl e \<Rightarrow> Err (Io e) | Inr bs \<Rightarrow> Ok bs))"

definition file_read_at :: "('e file_source, 'e std_source_error) positional_read" where
  "file_read_at = default_read_at file_source_len file_read_exact_at"

text \<open>
  C34: \<open>FileReadAt\<close> takes its \<open>read_at\<close> from the trait (source.rs:168-173, file.rs:35-80). Inside
  the file it is one exact read of the bytes there are; past the end it asks for no byte at an
  offset outside the file, and the range check of \<open>read_exact_at\<close> refuses that, so it returns
  \<open>UnexpectedEof\<close> where the contract promises a count of zero. A reader over the file fails
  the same way after a seek past the end, where \<open>SliceReadAt\<close> reports the end.
\<close>

theorem file_read_past_end:
  assumes "file_len f \<le> u64_max"
  shows "file_read_at f offset n =
    (if offset \<le> file_len f
     then (f, case pread f offset (min (file_len f - offset) n) of Inl e \<Rightarrow> Err (Io e) | Inr bs \<Rightarrow> Ok bs)
     else (f, Err (SourceFault (UnexpectedEof offset 0 (Some (file_len f))))))"
  using assms
  by (auto simp: file_read_at_def default_read_at_def file_source_len_def file_read_exact_at_def
      checked_add_def)

theorem file_read_past_end_witness:
  "file_read_at \<lparr> pread = (\<lambda>o' n. if o' + n \<le> 2 then Ok (take n (drop o' [7, 8])) else Err ()), file_len = 2 \<rparr> 3 4 =
     (\<lparr> pread = (\<lambda>o' n. if o' + n \<le> 2 then Ok (take n (drop o' [7, 8])) else Err ()), file_len = 2 \<rparr>,
      Err (SourceFault (UnexpectedEof 3 0 (Some 2))))
   \<and> slice_read_at [7, 8] 3 4 = ([7, 8], Ok [])"
  using file_read_past_end[of "\<lparr> pread = (\<lambda>o' n. if o' + n \<le> 2 then Ok (take n (drop o' [7, 8])) else Err ()), file_len = 2 \<rparr>" 3 4]
  by (simp add: u64_max_def slice_read_at_def try_into_def Let_def)

end
