(* ===== verification/Buffered_Source.thy ===== *)
theory Buffered_Source
  imports Byte_Source
begin

text \<open>
  \<open>zencodec-io/src/buffered.rs\<close>: random access over a sequential stream. Two policies decide
  what is kept: a window of the most recent bytes, or a spool of all bytes up to a cap. The
  reader is an argument \<open>rd\<close> with its state in the record; \<open>al n\<close> says whether the retained
  vector can hold \<open>n\<close> bytes. A result \<open>None\<close> is a loop that does not end or a panic; for a
  reader that keeps the contract of \<open>std::io::Read\<close> neither happens.
\<close>

subsection \<open>Policies\<close>

datatype buffer_policy = Window nat | Spool nat

definition for_pattern :: "access_pattern \<Rightarrow> nat \<Rightarrow> buffer_policy" where
  "for_pattern p max_bytes = (case p of
     Sequential \<Rightarrow> Window (64 * 1024)
   | BoundedBacktrack w \<Rightarrow> Window (if w > max_bytes then max_bytes else w)
   | RandomAccess \<Rightarrow> Spool max_bytes)"

definition try_for_pattern :: "access_pattern \<Rightarrow> nat \<Rightarrow> source_error + buffer_policy" where
  "try_for_pattern p max_bytes = (case p of
     Sequential \<Rightarrow> Ok (Window (if max_bytes < 64 * 1024 then max_bytes else 64 * 1024))
   | BoundedBacktrack w \<Rightarrow>
       if w > max_bytes then Err (BeyondLimit w max_bytes) else Ok (Window w)
   | RandomAccess \<Rightarrow> Ok (Spool max_bytes))"

fun cap :: "buffer_policy \<Rightarrow> nat" where
  "cap (Window window_bytes) = window_bytes"
| "cap (Spool max_bytes) = max_bytes"

text \<open>What a policy retains is enough for a pattern.\<close>

fun serves :: "buffer_policy \<Rightarrow> access_pattern \<Rightarrow> bool" where
  "serves (Window w) Sequential \<longleftrightarrow> True"
| "serves (Window w) (BoundedBacktrack b) \<longleftrightarrow> b \<le> w"
| "serves (Window w) RandomAccess \<longleftrightarrow> False"
| "serves (Spool m) p \<longleftrightarrow> True"

text \<open>
  A driver that reads for several decoders can choose one policy for the most demanding of
  their patterns (source.rs:40-60, buffered.rs:47-80): it serves each of them, keeps at most
  the cap, and it is refused exactly when one needs a window above the cap and none needs
  random access.
\<close>

theorem most_demanding_policy_serves:
  "case try_for_pattern (most_demanding p q) m of
     Inr policy \<Rightarrow> serves policy p \<and> serves policy q \<and> cap policy \<le> m
   | Inl e \<Rightarrow> (\<exists>w. (p = BoundedBacktrack w \<or> q = BoundedBacktrack w) \<and> w > m \<and> e = BeyondLimit w m)
       \<and> p \<noteq> RandomAccess \<and> q \<noteq> RandomAccess"
  by (cases p; cases q) (auto simp: try_for_pattern_def)

subsection \<open>The buffered source\<close>

record 'r buffered =
  reader :: 'r
  policy :: buffer_policy
  retained :: "byte list"
  buf_start :: nat
  watermark :: nat
  eof :: bool
  exceeded :: "(nat \<times> nat) option"

definition buffered_new :: "'r \<Rightarrow> buffer_policy \<Rightarrow> 'r buffered" where
  "buffered_new r p = \<lparr> reader = r, policy = p, retained = [], buf_start = 0, watermark = 0,
     eof = False, exceeded = None \<rparr>"

definition retained_bytes :: "'r buffered \<Rightarrow> nat" where
  "retained_bytes s = length (retained s)"

definition len_hint :: "'r buffered \<Rightarrow> nat option" where
  "len_hint s = (if eof s then Some (watermark s) else None)"

type_synonym ('r, 'e) std_reader = "'r \<Rightarrow> nat \<Rightarrow> 'r \<times> ('e io_error + byte list)"
type_synonym ('r, 'e, 'a) source_run = "('r buffered \<times> ('e std_source_error + 'a)) option"

definition source_bind ::
    "('r, 'e, 'a) source_run \<Rightarrow> ('r buffered \<Rightarrow> 'a \<Rightarrow> ('r, 'e, 'b) source_run) \<Rightarrow> ('r, 'e, 'b) source_run" where
  "source_bind m f = (case m of
     None \<Rightarrow> None | Some (s, Inl e) \<Rightarrow> Some (s, Err e) | Some (s, Inr x) \<Rightarrow> f s x)"

lemma source_bind_simps [simp]:
  "source_bind None f = None" "source_bind (Some (s, Inl e)) f = Some (s, Inl e)"
  "source_bind (Some (s, Inr x)) f = f s x"
  by (simp_all add: source_bind_def)

definition check_live :: "'r buffered \<Rightarrow> 'e std_source_error + unit" where
  "check_live s = (case exceeded s of
     Some (needed, limit) \<Rightarrow> Err (SourceFault (BeyondLimit needed limit)) | None \<Rightarrow> Ok ())"

definition reserve_retained :: "(nat \<Rightarrow> bool) \<Rightarrow> nat \<Rightarrow> 'r buffered \<Rightarrow> 'e std_source_error + unit" where
  "reserve_retained al incoming s =
     (let needed = min (saturating_add usize_max (length (retained s)) incoming) (cap (policy s))
      in if al needed then Ok () else Err (AllocationFault needed))"

definition remember :: "byte list \<Rightarrow> 'r buffered \<Rightarrow> 'r buffered" where
  "remember bs s = (case policy s of
     Window w \<Rightarrow>
       let kept = (if length bs \<ge> w then drop (length bs - w) bs
                   else drop (saturating_add usize_max (length (retained s)) (length bs) - w) (retained s) @ bs)
       in s\<lparr>retained := kept, buf_start := watermark s - length kept\<rparr>
   | Spool m \<Rightarrow> s\<lparr>retained := retained s @ bs\<rparr>)"

text \<open>The loop that repeats an interrupted read.\<close>

partial_function (option) read_retry ::
    "('r, 'e) std_reader \<Rightarrow> nat \<Rightarrow> 'r \<Rightarrow> ('r \<times> ('e + byte list)) option" where
  "read_retry rd n r = (case rd r n of
     (r', Inl err) \<Rightarrow> (case err of Interrupted \<Rightarrow> read_retry rd n r' | Failed e \<Rightarrow> Some (r', Err e))
   | (r', Inr bs) \<Rightarrow> if length bs \<le> n then Some (r', Ok bs) else None)"

definition read_more ::
    "('r, 'e) std_reader \<Rightarrow> (nat \<Rightarrow> bool) \<Rightarrow> nat \<Rightarrow> 'r buffered \<Rightarrow> ('r, 'e, byte list) source_run" where
  "read_more rd al n s =
     (case check_live s of Inl e \<Rightarrow> Some (s, Err e) | Inr _ \<Rightarrow>
      if eof s \<or> n = 0 then Some (s, Ok [])
      else
        let probe = (case policy s of Window _ \<Rightarrow> None
              | Spool m \<Rightarrow> if min n (m - length (retained s)) = 0 then Some m else None);
            want = (case policy s of Window _ \<Rightarrow> n | Spool m \<Rightarrow> min n (m - length (retained s)))
        in case probe of
          Some limit \<Rightarrow> (case read_retry rd 1 (reader s) of
              None \<Rightarrow> None
            | Some (r, Inl e) \<Rightarrow> Some (s\<lparr>reader := r\<rparr>, Err (Io e))
            | Some (r, Inr bs) \<Rightarrow>
                if bs = [] then Some (s\<lparr>reader := r, eof := True\<rparr>, Ok [])
                else let w = wrap u64_max (watermark s + 1) in
                  Some (s\<lparr>reader := r, watermark := w, exceeded := Some (w, limit)\<rparr>,
                        Err (SourceFault (BeyondLimit w limit))))
        | None \<Rightarrow> (case reserve_retained al want s of
              Inl e \<Rightarrow> Some (s, Err e)
            | Inr _ \<Rightarrow> (case read_retry rd want (reader s) of
                None \<Rightarrow> None
              | Some (r, Inl e) \<Rightarrow> Some (s\<lparr>reader := r\<rparr>, Err (Io e))
              | Some (r, Inr bs) \<Rightarrow>
                  if bs = [] then Some (s\<lparr>reader := r, eof := True\<rparr>, Ok [])
                  else Some (remember bs (s\<lparr>reader := r,
                    watermark := wrap u64_max (watermark s + length bs)\<rparr>), Ok bs))))"

definition SCRATCH :: nat where "SCRATCH = 16 * 1024"

partial_function (option) advance_to ::
    "('r, 'e) std_reader \<Rightarrow> (nat \<Rightarrow> bool) \<Rightarrow> nat \<Rightarrow> 'r buffered \<Rightarrow> ('r, 'e, unit) source_run" where
  "advance_to rd al offset s =
     (if watermark s < offset \<and> \<not> eof s then
        case read_more rd al (min (offset - watermark s) SCRATCH) s of
          None \<Rightarrow> None
        | Some sx \<Rightarrow> (case sx of (s', Inl e) \<Rightarrow> Some (s', Err e) | (s', Inr _) \<Rightarrow> advance_to rd al offset s')
      else Some (s, Ok ()))"

partial_function (option) drain_len ::
    "('r, 'e) std_reader \<Rightarrow> (nat \<Rightarrow> bool) \<Rightarrow> 'r buffered \<Rightarrow> ('r, 'e, nat) source_run" where
  "drain_len rd al s =
     (case read_more rd al SCRATCH s of
        None \<Rightarrow> None
      | Some sx \<Rightarrow> (case sx of
          (s', Inl e) \<Rightarrow> Some (s', Err e)
        | (s', Inr bs) \<Rightarrow> if bs = [] then Some (s', Ok (watermark s')) else drain_len rd al s'))"

definition buffered_len ::
    "('r, 'e) std_reader \<Rightarrow> (nat \<Rightarrow> bool) \<Rightarrow> 'r buffered \<Rightarrow> ('r, 'e, nat) source_run" where
  "buffered_len rd al s = (case check_live s of Inl e \<Rightarrow> Some (s, Err e) | Inr _ \<Rightarrow> drain_len rd al s)"

partial_function (option) fill_out ::
    "('r, 'e) std_reader \<Rightarrow> (nat \<Rightarrow> bool) \<Rightarrow> nat \<Rightarrow> byte list \<Rightarrow> 'r buffered \<Rightarrow> ('r, 'e, byte list) source_run" where
  "fill_out rd al n filled s =
     (if length filled < n then
        case read_more rd al (n - length filled) s of
          None \<Rightarrow> None
        | Some sx \<Rightarrow> (case sx of
            (s', Inl e) \<Rightarrow> Some (s', Err e)
          | (s', Inr bs) \<Rightarrow> if bs = [] then Some (s', Ok filled) else fill_out rd al n (filled @ bs) s')
      else Some (s, Ok filled))"

definition buffered_read_at ::
    "('r, 'e) std_reader \<Rightarrow> (nat \<Rightarrow> bool) \<Rightarrow> nat \<Rightarrow> nat \<Rightarrow> 'r buffered \<Rightarrow> ('r, 'e, byte list) source_run" where
  "buffered_read_at rd al offset n s =
     (if n = 0 then Some (s, Ok [])
      else case check_live s of Inl e \<Rightarrow> Some (s, Err e) | Inr _ \<Rightarrow>
      if checked_add u64_max offset n = None
      then Some (s, Err (SourceFault (UnexpectedEof offset n (len_hint s))))
      else if offset < buf_start s then Some (s, Err (SourceFault (BeyondWindow offset (buf_start s))))
      else source_bind (advance_to rd al offset s) (\<lambda>s _.
        if offset > watermark s then Some (s, Ok [])
        else let filled = min (watermark s - offset) n; start = offset - buf_start s in
          if filled \<noteq> 0 \<and> length (retained s) < start + filled then None
          else fill_out rd al n (if filled = 0 then [] else take filled (drop start (retained s))) s))"

definition buffered_read_exact_at ::
    "('r, 'e) std_reader \<Rightarrow> (nat \<Rightarrow> bool) \<Rightarrow> nat \<Rightarrow> nat \<Rightarrow> 'r buffered \<Rightarrow> ('r, 'e, byte list) source_run" where
  "buffered_read_exact_at rd al offset n s =
     (if n = 0 then Some (s, Ok [])
      else case check_live s of Inl e \<Rightarrow> Some (s, Err e) | Inr _ \<Rightarrow>
      case checked_add u64_max offset n of
        None \<Rightarrow> Some (s, Err (SourceFault (UnexpectedEof offset n None)))
      | Some fin \<Rightarrow>
          if (case policy s of Spool m \<Rightarrow> fin > m | Window _ \<Rightarrow> False)
          then Some (s, Err (SourceFault (BeyondLimit fin (cap (policy s)))))
          else source_bind (buffered_read_at rd al offset n s) (\<lambda>s bs.
            if length bs \<noteq> n then Some (s, Err (SourceFault (UnexpectedEof offset n (len_hint s))))
            else Some (s, Ok bs)))"

text \<open>
  \<open>read_many_at\<close> sorts the requests in place by offset, so the buffers are filled in the sorted
  order: the result lists the requests in that order with their bytes. The sort is unstable;
  requests with one offset come in any order, which \<open>sort_key\<close> picks.
\<close>

fun read_each ::
    "('r, 'e) std_reader \<Rightarrow> (nat \<Rightarrow> bool) \<Rightarrow> (nat \<times> nat) list \<Rightarrow> 'r buffered \<Rightarrow> ('r, 'e, byte list list) source_run" where
  "read_each rd al [] s = Some (s, Ok [])"
| "read_each rd al ((offset, n) # reqs) s =
     source_bind (buffered_read_exact_at rd al offset n s) (\<lambda>s bs.
     source_bind (read_each rd al reqs s) (\<lambda>s bss. Some (s, Ok (bs # bss))))"

definition buffered_read_many_at ::
    "('r, 'e) std_reader \<Rightarrow> (nat \<Rightarrow> bool) \<Rightarrow> (nat \<times> nat) list \<Rightarrow> 'r buffered \<Rightarrow> ('r, 'e, byte list list) source_run" where
  "buffered_read_many_at rd al reqs s = read_each rd al (sort_key fst reqs) s"

subsection \<open>The invariant\<close>

text \<open>
  The buffered source over a stream \<open>c\<close>: what the reader has left is \<open>c\<close> past the watermark,
  and the retained bytes are the piece of \<open>c\<close> that ends at the watermark. The window keeps as
  much as it may, the spool everything; a spool that found a byte past its cap is dead.
\<close>

definition buffered_ok :: "('r \<Rightarrow> bool) \<Rightarrow> ('r \<Rightarrow> byte list) \<Rightarrow> byte list \<Rightarrow> 'r buffered \<Rightarrow> bool" where
  "buffered_ok good rest c s \<longleftrightarrow>
     good (reader s) \<and> length c \<le> u64_max
     \<and> watermark s \<le> length c \<and> rest (reader s) = drop (watermark s) c
     \<and> (eof s \<longrightarrow> watermark s = length c)
     \<and> (case policy s of
          Window w \<Rightarrow> exceeded s = None \<and> buf_start s = watermark s - w
            \<and> retained s = drop (watermark s - w) (take (watermark s) c)
        | Spool m \<Rightarrow> buf_start s = 0 \<and> (case exceeded s of
            None \<Rightarrow> watermark s \<le> m \<and> retained s = take (watermark s) c
          | Some e \<Rightarrow> watermark s = Suc m \<and> retained s = take m c \<and> e = (Suc m, m)))"

lemma buffered_ok_new:
  "good r \<Longrightarrow> length (rest r) \<le> u64_max \<Longrightarrow> buffered_ok good rest (rest r) (buffered_new r p)"
  by (auto simp: buffered_ok_def buffered_new_def split: buffer_policy.split)

lemma buffered_ok_cap: "buffered_ok good rest c s \<Longrightarrow> retained_bytes s \<le> cap (policy s)"
  by (auto simp: buffered_ok_def retained_bytes_def split: buffer_policy.splits option.splits)

lemma buffered_ok_live:
  assumes "buffered_ok good rest c s" "exceeded s = None"
  shows "retained s = drop (buf_start s) (take (watermark s) c)" "watermark s \<le> length c"
    "buf_start s \<le> watermark s" "length (retained s) = watermark s - buf_start s"
  using assms by (auto simp: buffered_ok_def split: buffer_policy.splits)

text \<open>Consuming \<open>bs\<close> from the stream and remembering it keeps the invariant.\<close>

lemma remember_ok:
  assumes ok: "buffered_ok good rest c s" and live: "exceeded s = None"
    and more: "drop (watermark s) c = bs @ rest r" and good: "good r"
    and fits: "\<And>m. policy s = Spool m \<Longrightarrow> length (retained s) + length bs \<le> m"
  shows "buffered_ok good rest c (remember bs (s\<lparr>reader := r, watermark := watermark s + length bs\<rparr>))"
proof -
  let ?w = "watermark s + length bs"
  have wm: "watermark s \<le> length c" and c: "length c \<le> u64_max" and eof: "eof s \<longrightarrow> bs = []"
    using ok more by (auto simp: buffered_ok_def)
  have "length (drop (watermark s) c) = length bs + length (rest r)" by (simp add: more)
  then have len: "?w \<le> length c" using wm by simp
  have "drop ?w c = drop (length bs) (drop (watermark s) c)" by (simp add: add.commute)
  then have rest: "rest r = drop ?w c" by (simp add: more)
  have take_w: "take ?w c = take (watermark s) c @ bs" by (simp add: take_add more)
  show ?thesis
  proof (cases "policy s")
    case (Spool m)
    with ok live have "retained s = take (watermark s) c" by (simp add: buffered_ok_def)
    then show ?thesis
      using ok live len rest c eof good fits[OF Spool] take_w Spool
      by (auto simp: buffered_ok_def remember_def)
  next
    case (Window w)
    have ret: "retained s = drop (watermark s - w) (take (watermark s) c)"
      using ok Window by (simp add: buffered_ok_def)
    have sat: "saturating_add u64_max (length (retained s)) (length bs) = length (retained s) + length bs"
      using len c by (simp add: saturating_add_def ret)
    define K where "K = (if length bs \<ge> w then drop (length bs - w) bs
        else drop (length (retained s) + length bs - w) (retained s) @ bs)"
    have "remember bs (s\<lparr>reader := r, watermark := ?w\<rparr>) =
        s\<lparr>reader := r, watermark := ?w, retained := K, buf_start := ?w - length K\<rparr>"
      by (simp add: remember_def Window Let_def K_def sat)
    moreover have K: "K = drop (?w - w) (take ?w c)"
      using wm by (cases "w \<le> watermark s") (auto simp: take_w ret K_def add.commute)
    moreover have "?w - length K = ?w - w" using len by (simp add: K)
    ultimately have "remember bs (s\<lparr>reader := r, watermark := ?w\<rparr>) =
        s\<lparr>reader := r, watermark := ?w, retained := drop (?w - w) (take ?w c), buf_start := ?w - w\<rparr>"
      by simp
    then show ?thesis using ok len rest c eof good Window by (auto simp: buffered_ok_def)
  qed
qed

subsection \<open>Reads\<close>

text \<open>What an error says of the stream \<open>c\<close>: on the way forward, and for a read of \<open>n\<close> bytes at \<open>offset\<close>.\<close>

fun stream_fault :: "(nat \<Rightarrow> bool) \<Rightarrow> byte list \<Rightarrow> buffer_policy \<Rightarrow> 'e std_source_error \<Rightarrow> bool" where
  "stream_fault al c p (SourceFault (BeyondLimit needed m)) \<longleftrightarrow> p = Spool m \<and> m < length c"
| "stream_fault al c p (SourceFault _) \<longleftrightarrow> False"
| "stream_fault al c p (Io e) \<longleftrightarrow> True"
| "stream_fault al c p (AllocationFault k) \<longleftrightarrow> \<not> al k \<and> k \<le> cap p"

definition read_fault ::
    "(nat \<Rightarrow> bool) \<Rightarrow> byte list \<Rightarrow> 'r buffered \<Rightarrow> nat \<Rightarrow> nat \<Rightarrow> 'e std_source_error \<Rightarrow> bool" where
  "read_fault al c s offset n e \<longleftrightarrow> (case e of
     SourceFault (UnexpectedEof o' n' t) \<Rightarrow> offset + n > u64_max
   | SourceFault (BeyondWindow o' oldest) \<Rightarrow> (\<exists>w. policy s = Window w \<and> offset + w < watermark s)
   | _ \<Rightarrow> stream_fault al c (policy s) e)"

lemma stream_read_fault: "stream_fault al c (policy s) e \<Longrightarrow> read_fault al c s offset n e"
  by (auto simp: read_fault_def split: std_source_error.splits source_error.splits)

context sequential_reader
begin

lemma retry:
  "good r \<Longrightarrow> \<exists>r' x. read_retry rd n r = Some (r', x) \<and> good r' \<and> (case x of
     Inl e \<Rightarrow> rest r' = rest r
   | Inr bs \<Rightarrow> length bs \<le> n \<and> rest r = bs @ rest r' \<and> (bs = [] \<longrightarrow> n = 0 \<or> rest r = []))"
proof (induction "interrupts r" arbitrary: r rule: less_induct)
  case less
  obtain r' x where rd: "rd r n = (r', x)" by fastforce
  show ?case
  proof (cases x)
    case (Inr bs)
    with rd delivers[OF less.prems, of n r' bs] stays_good[OF less.prems] show ?thesis
      by (subst read_retry.simps) auto
  next
    case (Inl err)
    show ?thesis
    proof (cases err)
      case Interrupted
      with Inl rd have "rest r' = rest r" "interrupts r' < interrupts r" "good r'"
        using interrupted[OF less.prems] stays_good[OF less.prems] by auto
      note IH = less.hyps[OF this(2,3), unfolded this(1)]
      from IH Inl Interrupted rd show ?thesis by (subst read_retry.simps) simp
    next
      case (Failed e)
      with Inl rd failed[OF less.prems] stays_good[OF less.prems] show ?thesis
        by (subst read_retry.simps) simp
    qed
  qed
qed

abbreviation buffers :: "byte list \<Rightarrow> 'r buffered \<Rightarrow> bool" where
  "buffers \<equiv> buffered_ok good rest"

text \<open>One step forward in the stream, or one fault.\<close>

definition moved :: "(nat \<Rightarrow> bool) \<Rightarrow> byte list \<Rightarrow> 'r buffered \<Rightarrow> 'r buffered \<Rightarrow> nat \<Rightarrow> ('e std_source_error + byte list) \<Rightarrow> bool" where
  "moved al c s s' n x \<longleftrightarrow> buffers c s' \<and> policy s' = policy s \<and> watermark s \<le> watermark s'
     \<and> (case x of
          Inl e \<Rightarrow> stream_fault al c (policy s) e
        | Inr bs \<Rightarrow> exceeded s' = None \<and> watermark s' = watermark s + length bs \<and> length bs \<le> n
            \<and> bs = take (length bs) (drop (watermark s) c) \<and> (bs = [] \<longrightarrow> n = 0 \<or> eof s'))"

lemma fill_moves:
  assumes ok: "buffers c s" "exceeded s = None" "0 < want"
    and fits: "\<And>m. policy s = Spool m \<Longrightarrow> length (retained s) + want \<le> m"
    and run: "read_retry rd want (reader s) = Some (r, Ok bs)"
  shows "moved al c s (if bs = [] then s\<lparr>reader := r, eof := True\<rparr>
     else remember bs (s\<lparr>reader := r, watermark := wrap u64_max (watermark s + length bs)\<rparr>)) want (Ok bs)"
proof -
  have good: "good (reader s)" and left: "rest (reader s) = drop (watermark s) c"
    and c: "length c \<le> u64_max" "watermark s \<le> length c" using ok(1) by (auto simp: buffered_ok_def)
  obtain r' x where "read_retry rd want (reader s) = Some (r', x)" "good r'" "case x of
     Inl e \<Rightarrow> rest r' = rest (reader s)
   | Inr bs \<Rightarrow> length bs \<le> want \<and> rest (reader s) = bs @ rest r' \<and> (bs = [] \<longrightarrow> want = 0 \<or> rest (reader s) = [])"
    using retry[OF good] by blast
  with run have ran: "good r" "length bs \<le> want" "drop (watermark s) c = bs @ rest r"
    "bs = [] \<Longrightarrow> rest (reader s) = []" using ok(3) left by auto
  then have bs: "bs = take (length bs) (drop (watermark s) c)" by simp
  show ?thesis
  proof (cases "bs = []")
    case True
    with ran have "rest r = []" "watermark s = length c" using left c by auto
    with True ok ran show ?thesis by (auto simp: moved_def buffered_ok_def split: buffer_policy.splits)
  next
    case False
    have "length bs + length (rest r) = length c - watermark s"
      using ran(3) by (metis length_append length_drop)
    then have w: "wrap u64_max (watermark s + length bs) = watermark s + length bs" using c by simp
    have "buffers c (remember bs (s\<lparr>reader := r, watermark := watermark s + length bs\<rparr>))"
      by (rule remember_ok[OF ok(1,2) ran(3,1)]) (use fits ran(2) in fastforce)
    with False ran(2) bs ok(2) show ?thesis
      by (auto simp: moved_def w remember_def Let_def split: buffer_policy.splits)
  qed
qed

lemma read_more_moves:
  assumes ok: "buffers c s"
  shows "\<exists>s' x. read_more rd al n s = Some (s', x) \<and> moved al c s s' n x"
proof (cases "exceeded s")
  case (Some e)
  then obtain m where "policy s = Spool m" "e = (Suc m, m)" "m < length c"
    using ok by (auto simp: buffered_ok_def split: buffer_policy.splits)
  with Some ok show ?thesis by (simp add: read_more_def check_live_def moved_def)
next
  case None
  note live = buffered_ok_live[OF ok None]
  have c: "length c \<le> u64_max" and good: "good (reader s)"
    and left: "rest (reader s) = drop (watermark s) c" using ok by (simp_all add: buffered_ok_def)
  show ?thesis
  proof (cases "eof s \<or> n = 0")
    case True
    with None ok show ?thesis by (auto simp: read_more_def check_live_def moved_def)
  next
    case False
    define want where "want = (case policy s of Window _ \<Rightarrow> n | Spool m \<Rightarrow> min n (m - length (retained s)))"
    obtain r x where run: "read_retry rd (if want = 0 then 1 else want) (reader s) = Some (r, x)" "good r"
      "case x of Inl e \<Rightarrow> rest r = rest (reader s)
       | Inr bs \<Rightarrow> length bs \<le> (if want = 0 then 1 else want) \<and> rest (reader s) = bs @ rest r
          \<and> (bs = [] \<longrightarrow> (if want = 0 then 1 else want) = 0 \<or> rest (reader s) = [])"
      using retry[OF good] by blast
    have ioerr: "moved al c s (s\<lparr>reader := r\<rparr>) n (Inl (Io e))" if "x = Inl e" for e
      using that run ok left None by (auto simp: moved_def buffered_ok_def split: buffer_policy.splits)
    show ?thesis
    proof (cases "want = 0")
      case True
      then obtain m where m: "policy s = Spool m" "m = length (retained s)"
        using False ok None by (auto simp: want_def buffered_ok_def min_def split: buffer_policy.splits if_splits)
      then have wm: "watermark s = m" using ok None live by (simp add: buffered_ok_def)
      show ?thesis
      proof (cases x)
        case (Inl e)
        then show ?thesis using ioerr run True False None m
          by (simp add: read_more_def check_live_def)
      next
        case (Inr bs)
        show ?thesis
        proof (cases "bs = []")
          case True
          then have "watermark s = length c" "rest r = []" using run(3) Inr left live \<open>want = 0\<close> by auto
          then have "moved al c s (s\<lparr>reader := r, eof := True\<rparr>) n (Ok [])"
            using ok None run(2) live by (auto simp: moved_def buffered_ok_def split: buffer_policy.splits)
          then show ?thesis using run True Inr \<open>want = 0\<close> False None m by (simp add: read_more_def check_live_def)
        next
          case nonempty: False
          then have one: "length bs = 1" using run(3) Inr True by (simp add: le_Suc_eq)
          have split: "drop m c = bs @ rest r" using run(3) Inr left wm by simp
          have "length c - m = Suc (length (rest r))"
            using arg_cong[OF split, of length] one by simp
          then have "length c = Suc (m + length (rest r))" by simp
          moreover have "rest r = drop (Suc m) c"
            using arg_cong[OF split, of "drop 1"] one by simp
          moreover have "buf_start s = 0" "retained s = take m c" "eof s \<longrightarrow> m = length c"
            using ok m(1) None wm by (simp_all add: buffered_ok_def)
          ultimately have "moved al c s (s\<lparr>reader := r, watermark := Suc m, exceeded := Some (Suc m, m)\<rparr>) n
              (Inl (SourceFault (BeyondLimit (Suc m) m)))"
            using m(1) wm c run(2) by (simp add: moved_def buffered_ok_def)
          moreover have "Suc m \<le> u64_max" using \<open>length c = Suc (m + length (rest r))\<close> c by simp
          ultimately show ?thesis using run nonempty Inr \<open>want = 0\<close> False None m wm
            by (simp add: read_more_def check_live_def Let_def)
        qed
      qed
    next
      case pos: False
      have probe: "(case policy s of Window _ \<Rightarrow> None
          | Spool m \<Rightarrow> if min n (m - length (retained s)) = 0 then Some m else None) = None"
        using pos by (cases "policy s") (simp_all add: want_def)
      have fits: "length (retained s) + want \<le> m" if "policy s = Spool m" for m
        using that pos by (auto simp: want_def)
      have "want \<le> n" by (simp add: want_def split: buffer_policy.split)
      have unfold: "read_more rd al n s = (case reserve_retained al want s of
              Inl e \<Rightarrow> Some (s, Err e)
            | Inr _ \<Rightarrow> (case read_retry rd want (reader s) of
                None \<Rightarrow> None
              | Some (r, Inl e) \<Rightarrow> Some (s\<lparr>reader := r\<rparr>, Err (Io e))
              | Some (r, Inr bs) \<Rightarrow>
                  if bs = [] then Some (s\<lparr>reader := r, eof := True\<rparr>, Ok [])
                  else Some (remember bs (s\<lparr>reader := r,
                    watermark := wrap u64_max (watermark s + length bs)\<rparr>), Ok bs)))"
        using False None unfolding read_more_def probe by (simp add: check_live_def want_def[symmetric] Let_def)
      show ?thesis
      proof (cases "reserve_retained al want s :: 'e std_source_error + unit")
        case (Inl e)
        then have "stream_fault al c (policy s) e" by (auto simp: reserve_retained_def Let_def split: if_splits)
        with Inl ok show ?thesis by (simp add: unfold moved_def)
      next
        case reserved: (Inr u)
        have weaken: "moved al c s s' n y" if "moved al c s s' want y" for s' y
          using that \<open>want \<le> n\<close> pos by (auto simp: moved_def split: sum.splits)
        show ?thesis
        proof (cases x)
          case (Inl e)
          then show ?thesis using ioerr run pos reserved by (simp add: unfold)
        next
          case (Inr bs)
          have "read_retry rd want (reader s) = Some (r, Ok bs)" using run Inr pos by simp
          from weaken[OF fill_moves[OF ok None _ fits this, of al]] this show ?thesis
            using pos reserved by (auto simp: unfold split: if_splits)
        qed
      qed
    qed
  qed
qed

lemma advance_moves:
  assumes "buffers c s" "exceeded s = None"
  shows "\<exists>s' x. advance_to rd al offset s = Some (s', x) \<and> buffers c s' \<and> policy s' = policy s
    \<and> (case x of Inl e \<Rightarrow> stream_fault al c (policy s) e
       | Inr _ \<Rightarrow> exceeded s' = None \<and> (eof s' \<or> offset \<le> watermark s') \<and> (offset \<le> watermark s \<longrightarrow> s' = s)
           \<and> (watermark s < offset \<longrightarrow> watermark s' \<le> offset))"
  using assms
proof (induction "offset - watermark s" arbitrary: s rule: less_induct)
  case less
  let ?n = "min (offset - watermark s) SCRATCH"
  show ?case
  proof (cases "watermark s < offset \<and> \<not> eof s")
    case False
    then show ?thesis using less.prems by (subst advance_to.simps) auto
  next
    case True
    have "0 < ?n" using True by (simp add: SCRATCH_def)
    obtain s1 x where step: "read_more rd al ?n s = Some (s1, x)" "moved al c s s1 ?n x"
      using read_more_moves[OF less.prems(1)] by blast
    show ?thesis
    proof (cases x)
      case (Inl e)
      with step True show ?thesis by (subst advance_to.simps) (simp add: moved_def)
    next
      case (Inr bs)
      with step(2) have m: "buffers c s1" "exceeded s1 = None" "policy s1 = policy s"
        "watermark s1 = watermark s + length bs" "length bs \<le> offset - watermark s" "bs = [] \<Longrightarrow> eof s1"
        using \<open>0 < ?n\<close> by (auto simp: moved_def)
      show ?thesis
      proof (cases "bs = []")
        case True
        with m have "advance_to rd al offset s1 = Some (s1, Ok ())" by (subst advance_to.simps) simp
        moreover have "eof s1" using m(6) True .
        ultimately show ?thesis
          using step(1) Inr True m \<open>watermark s < offset \<and> \<not> eof s\<close> by (subst advance_to.simps) simp
      next
        case False
        then have "0 < length bs" by simp
        then have "offset - watermark s1 < offset - watermark s" using m(4) True by arith
        from less.hyps[OF this m(1,2)] obtain s2 y where rec: "advance_to rd al offset s1 = Some (s2, y)"
          "buffers c s2" "policy s2 = policy s1" "case y of Inl e \<Rightarrow> stream_fault al c (policy s1) e
           | Inr _ \<Rightarrow> exceeded s2 = None \<and> (eof s2 \<or> offset \<le> watermark s2) \<and> (offset \<le> watermark s1 \<longrightarrow> s2 = s1)
               \<and> (watermark s1 < offset \<longrightarrow> watermark s2 \<le> offset)" by blast
        have "watermark s1 \<le> offset" using m(4,5) True[THEN conjunct1] by arith
        then have "case y of Inl e \<Rightarrow> stream_fault al c (policy s) e
           | Inr _ \<Rightarrow> exceeded s2 = None \<and> (eof s2 \<or> offset \<le> watermark s2) \<and> (offset \<le> watermark s \<longrightarrow> s2 = s)
               \<and> (watermark s < offset \<longrightarrow> watermark s2 \<le> offset)"
          using rec(4) m(3) True by (cases y) (auto simp: le_less)
        moreover have "advance_to rd al offset s = Some (s2, y)"
          using rec(1) step(1) Inr True by (subst advance_to.simps) simp
        ultimately show ?thesis using rec(2,3) m(3) by metis
      qed
    qed
  qed
qed

lemma fill_moves_out:
  assumes "buffers c s" "exceeded s = None" "filled = take (length filled) (drop offset c)"
    "length filled < n \<longrightarrow> watermark s = offset + length filled" "length filled \<le> n"
  shows "\<exists>s' x. fill_out rd al n filled s = Some (s', x) \<and> buffers c s' \<and> policy s' = policy s
    \<and> (case x of Inl e \<Rightarrow> stream_fault al c (policy s) e | Inr bs \<Rightarrow> bs = take n (drop offset c))"
  using assms
proof (induction "n - length filled" arbitrary: s filled rule: less_induct)
  case less
  show ?case
  proof (cases "length filled < n")
    case False
    then show ?thesis using less.prems by (subst fill_out.simps) auto
  next
    case True
    let ?n = "n - length filled"
    obtain s1 x where step: "read_more rd al ?n s = Some (s1, x)" "moved al c s s1 ?n x"
      using read_more_moves[OF less.prems(1)] by blast
    show ?thesis
    proof (cases x)
      case (Inl e)
      with step True show ?thesis by (subst fill_out.simps) (simp add: moved_def)
    next
      case (Inr bs)
      with step(2) have m: "buffers c s1" "exceeded s1 = None" "policy s1 = policy s"
        "watermark s1 = watermark s + length bs" "length bs \<le> ?n" "bs = [] \<Longrightarrow> eof s1"
        "bs = take (length bs) (drop (watermark s) c)"
        using True by (auto simp: moved_def)
      have at: "watermark s = offset + length filled" using less.prems(4) True by simp
      show ?thesis
      proof (cases "bs = []")
        case True
        then have "watermark s1 = length c" using m(1,6) by (auto simp: buffered_ok_def)
        then have "length (drop offset c) = length filled" using m(4) True at by simp
        then have "filled = take n (drop offset c)"
          using less.prems(3,5) by (metis take_all order_refl)
        with step(1) Inr True m \<open>length filled < n\<close> show ?thesis
          by (subst fill_out.simps) (auto simp: min_def split: if_splits)
      next
        case False
        have "filled @ bs = take (length filled + length bs) (drop offset c)"
          unfolding take_add drop_drop using less.prems(3) m(7) by (simp add: at add.commute)
        then have eq: "filled @ bs = take (length (filled @ bs)) (drop offset c)"
          unfolding length_append .
        have "0 < length bs" using False by simp
        then have lt: "n - length (filled @ bs) < n - length filled" and le: "length (filled @ bs) \<le> n"
          using \<open>length filled < n\<close> m(5) unfolding length_append by arith+
        have wm: "length (filled @ bs) < n \<longrightarrow> watermark s1 = offset + length (filled @ bs)"
          using m(4) at by simp
        obtain s2 y where rec: "fill_out rd al n (filled @ bs) s1 = Some (s2, y)" "buffers c s2"
          "policy s2 = policy s1"
          "case y of Inl e \<Rightarrow> stream_fault al c (policy s1) e | Inr bs \<Rightarrow> bs = take n (drop offset c)"
          using less.hyps[OF lt m(1,2) eq wm le] by blast
        moreover have "fill_out rd al n filled s = Some (s2, y)"
          using rec(1) step(1) Inr False \<open>length filled < n\<close> by (subst fill_out.simps) simp
        ultimately show ?thesis using m(3) by metis
      qed
    qed
  qed
qed

lemma read_at_exact:
  assumes "buffers c s"
  shows "\<exists>s' x. buffered_read_at rd al offset n s = Some (s', x) \<and> buffers c s' \<and> policy s' = policy s
    \<and> (case x of Inl e \<Rightarrow> read_fault al c s offset n e | Inr bs \<Rightarrow> bs = take n (drop offset c))"
proof -
  consider "n = 0" | e where "0 < n" "exceeded s = Some e" | "0 < n" "exceeded s = None" "offset + n > u64_max"
    | "0 < n" "exceeded s = None" "offset + n \<le> u64_max" "offset < buf_start s"
    | "0 < n" "exceeded s = None" "offset + n \<le> u64_max" "buf_start s \<le> offset"
    by (cases "exceeded s"; cases "n = 0"; cases "offset + n \<le> u64_max"; cases "buf_start s \<le> offset") auto
  then show ?thesis
  proof cases
    case 2
    then obtain m where "policy s = Spool m" "e = (Suc m, m)" "m < length c"
      using assms by (auto simp: buffered_ok_def split: buffer_policy.splits)
    with 2 assms show ?thesis by (simp add: buffered_read_at_def check_live_def read_fault_def)
  next
    case 4
    then have "\<exists>w. policy s = Window w \<and> offset + w < watermark s"
      using assms by (auto simp: buffered_ok_def split: buffer_policy.splits)
    with 4 assms show ?thesis by (simp add: buffered_read_at_def check_live_def read_fault_def)
  next
    case 5
    obtain s1 x where adv: "advance_to rd al offset s = Some (s1, x)" "buffers c s1" "policy s1 = policy s"
      "case x of Inl e \<Rightarrow> stream_fault al c (policy s) e
       | Inr _ \<Rightarrow> exceeded s1 = None \<and> (eof s1 \<or> offset \<le> watermark s1) \<and> (offset \<le> watermark s \<longrightarrow> s1 = s)
           \<and> (watermark s < offset \<longrightarrow> watermark s1 \<le> offset)"
      using advance_moves[OF assms 5(2)] by blast
    have unfold: "buffered_read_at rd al offset n s = source_bind (Some (s1, x)) (\<lambda>s _.
        if offset > watermark s then Some (s, Ok [])
        else let filled = min (watermark s - offset) n; start = offset - buf_start s in
          if filled \<noteq> 0 \<and> length (retained s) < start + filled then None
          else fill_out rd al n (if filled = 0 then [] else take filled (drop start (retained s))) s)"
      using 5 adv(1) by (simp add: buffered_read_at_def check_live_def)
    show ?thesis
    proof (cases x)
      case (Inl e)
      then show ?thesis using adv stream_read_fault[of al c s e offset n] by (simp add: unfold)
    next
      case (Inr u)
      then have a: "exceeded s1 = None" "eof s1 \<or> offset \<le> watermark s1" "offset \<le> watermark s \<Longrightarrow> s1 = s"
        "watermark s < offset \<Longrightarrow> watermark s1 \<le> offset" using adv(4) by auto
      note live = buffered_ok_live[OF adv(2) a(1)]
      show ?thesis
      proof (cases "offset > watermark s1")
        case True
        then have "length c < offset" using a(2) adv(2) by (auto simp: buffered_ok_def)
        then show ?thesis using True adv(2,3) Inr by (simp add: unfold)
      next
        case False
        define filled where "filled = min (watermark s1 - offset) n"
        define old where "old = (if filled = 0 then [] else take filled (drop (offset - buf_start s1) (retained s1)))"
        have reach: "buf_start s1 \<le> offset" if "filled \<noteq> 0"
        proof -
          have "offset < watermark s1" using that by (auto simp: filled_def)
          then have "s1 = s" using a(3,4) by (metis leD not_le_imp_less)
          then show ?thesis using 5(4) by simp
        qed
        then have room: "\<not> (filled \<noteq> 0 \<and> length (retained s1) < offset - buf_start s1 + filled)"
          using live(3,4) by (auto simp: filled_def)
        have len: "length old = filled"
          using room reach live(4) by (auto simp: old_def)
        have "old = take filled (drop offset c)" if "filled \<noteq> 0"
        proof -
          have "drop (offset - buf_start s1) (retained s1) = drop offset (take (watermark s1) c)"
            using reach[OF that] by (simp add: live(1))
          then have "old = take filled (take (watermark s1 - offset) (drop offset c))"
            using that by (simp add: old_def drop_take)
          then show ?thesis by (simp add: filled_def)
        qed
        then have old: "old = take (length old) (drop offset c)" using len by (cases "filled = 0") (auto simp: old_def)
        have "length old < n \<longrightarrow> watermark s1 = offset + length old" "length old \<le> n"
          using False len by (auto simp: filled_def)
        from fill_moves_out[OF adv(2) a(1) old this, of al] obtain s2 y where out:
          "fill_out rd al n old s1 = Some (s2, y)" "buffers c s2" "policy s2 = policy s1"
          "case y of Inl e \<Rightarrow> stream_fault al c (policy s1) e | Inr bs \<Rightarrow> bs = take n (drop offset c)" by blast
        have "buffered_read_at rd al offset n s = fill_out rd al n old s1"
          unfolding unfold using False room Inr
          by (auto simp: Let_def filled_def[symmetric] old_def[symmetric])
        with out adv(3) stream_read_fault[of al c s _ offset n] show ?thesis
          by (intro exI[of _ s2] exI[of _ y]) (auto split: sum.splits)
      qed
    qed
  qed (use assms in \<open>auto simp: buffered_read_at_def check_live_def read_fault_def\<close>)
qed

lemma drain_exact:
  assumes "buffers c s"
  shows "\<exists>s' x. drain_len rd al s = Some (s', x) \<and> buffers c s' \<and> policy s' = policy s
    \<and> (case x of Inl e \<Rightarrow> stream_fault al c (policy s) e | Inr n \<Rightarrow> n = length c)"
  using assms
proof (induction "length c - watermark s" arbitrary: s rule: less_induct)
  case less
  obtain s1 x where step: "read_more rd al SCRATCH s = Some (s1, x)" "moved al c s s1 SCRATCH x"
    using read_more_moves[OF less.prems] by blast
  show ?case
  proof (cases x)
    case (Inl e)
    with step show ?thesis by (subst drain_len.simps) (simp add: moved_def)
  next
    case (Inr bs)
    with step(2) have m: "buffers c s1" "policy s1 = policy s" "watermark s1 = watermark s + length bs"
      "bs = [] \<Longrightarrow> eof s1"
      by (auto simp: moved_def SCRATCH_def)
    show ?thesis
    proof (cases "bs = []")
      case True
      then have "watermark s1 = length c" using m(1,4) by (simp add: buffered_ok_def)
      with step(1) Inr True m show ?thesis by (subst drain_len.simps) simp
    next
      case False
      then have "0 < length bs" by simp
      moreover have "watermark s1 \<le> length c" using m(1) by (simp add: buffered_ok_def)
      ultimately have "length c - watermark s1 < length c - watermark s" using m(3) by arith
      from less.hyps[OF this m(1), unfolded m(2)] step(1) Inr False show ?thesis by (subst drain_len.simps) simp
    qed
  qed
qed

lemma len_exact:
  assumes "buffers c s"
  shows "\<exists>s' x. buffered_len rd al s = Some (s', x) \<and> buffers c s' \<and> policy s' = policy s
    \<and> (case x of Inl e \<Rightarrow> stream_fault al c (policy s) e | Inr n \<Rightarrow> n = length c)"
proof (cases "exceeded s")
  case None
  then show ?thesis using drain_exact[OF assms] by (simp add: buffered_len_def check_live_def)
next
  case (Some e)
  then obtain m where "policy s = Spool m" "e = (Suc m, m)" "m < length c"
    using assms by (auto simp: buffered_ok_def split: buffer_policy.splits)
  with Some assms show ?thesis by (simp add: buffered_len_def check_live_def)
qed

lemma read_exact_at_exact:
  assumes "buffers c s"
  shows "\<exists>s' x. buffered_read_exact_at rd al offset n s = Some (s', x) \<and> buffers c s'
    \<and> (\<forall>bs. x = Ok bs \<longrightarrow> length bs = n \<and> bs = take n (drop offset c))"
proof -
  obtain s1 x where read: "buffered_read_at rd al offset n s = Some (s1, x)" "buffers c s1"
    "case x of Inl e \<Rightarrow> read_fault al c s offset n e | Inr bs \<Rightarrow> bs = take n (drop offset c)"
    using read_at_exact[OF assms] by blast
  show ?thesis
    using read assms
    by (cases x) (auto simp: buffered_read_exact_at_def split: sum.split option.split buffer_policy.split)
qed

lemma read_each_exact:
  assumes "buffers c s"
  shows "\<exists>s' x. read_each rd al reqs s = Some (s', x) \<and> buffers c s'
    \<and> (\<forall>bss. x = Ok bss \<longrightarrow> bss = map (\<lambda>(offset, n). take n (drop offset c)) reqs
          \<and> (\<forall>(offset, n) \<in> set reqs. n = 0 \<or> offset + n \<le> length c))"
  using assms
proof (induction reqs arbitrary: s)
  case (Cons r reqs)
  obtain offset n where r: "r = (offset, n)" by (cases r)
  obtain s1 x where one: "buffered_read_exact_at rd al offset n s = Some (s1, x)" "buffers c s1"
    "\<forall>bs. x = Ok bs \<longrightarrow> length bs = n \<and> bs = take n (drop offset c)"
    using read_exact_at_exact[OF Cons.prems] by blast
  obtain s2 y where all: "read_each rd al reqs s1 = Some (s2, y)" "buffers c s2"
    "\<forall>bss. y = Ok bss \<longrightarrow> bss = map (\<lambda>(offset, n). take n (drop offset c)) reqs
          \<and> (\<forall>(offset, n) \<in> set reqs. n = 0 \<or> offset + n \<le> length c)"
    using Cons.IH[OF one(2)] by blast
  show ?case using one all by (cases x; cases y) (auto simp: r)
qed simp

end

subsection \<open>The source over any conforming reader\<close>

text \<open>
  C8: \<open>BufferedReadAt::read_at\<close> (buffered.rs:158-327) always returns and never returns wrong
  bytes: over any reader that keeps the contract of \<open>std::io::Read\<close>, with short reads and
  interruptions, a read returns exactly the bytes of the stream at its offset, short only at
  the end of the stream. It fails only for a reader error, a refused allocation, an offset
  that overflows, an offset older than the window, or a stream longer than the spool; and
  the bytes retained never pass the cap.
\<close>

theorem buffered_read_at_exact:
  assumes "sequential_reader good rd rest interrupts" "buffered_ok good rest c s"
  shows "\<exists>s' x. buffered_read_at rd al offset n s = Some (s', x)
    \<and> buffered_ok good rest c s' \<and> retained_bytes s' \<le> cap (policy s)
    \<and> (case x of Inr bs \<Rightarrow> bs = take n (drop offset c) | Inl e \<Rightarrow> read_fault al c s offset n e)"
proof -
  obtain s' x where "buffered_read_at rd al offset n s = Some (s', x)" "buffered_ok good rest c s'"
    "policy s' = policy s" "case x of Inr bs \<Rightarrow> bs = take n (drop offset c) | Inl e \<Rightarrow> read_fault al c s offset n e"
    using sequential_reader.read_at_exact[OF assms, of al offset n] by blast
  then show ?thesis using buffered_ok_cap[of good rest c s'] by metis
qed

lemma buffered_over_slice:
  assumes "length c \<le> u64_max"
  shows "buffered_ok (\<lambda>r. addressable (source r)) (unread (\<lambda>bs. bs)) c (buffered_new (reader_new c) p)"
  using buffered_ok_new[of "\<lambda>r. addressable (source r)" "reader_new c" "unread (\<lambda>bs. bs)" p] assms
  by (simp add: addressable_def reader_new_def unread_def)

theorem buffered_read_at_exact_witness:
  "\<exists>s' x. buffered_read_at (reader_read slice_read_at) (\<lambda>_. True) 1 2
       (buffered_new (reader_new [7, 8, 9]) (Window 2)) = Some (s', x)
     \<and> retained_bytes s' \<le> 2 \<and> (\<forall>bs. x = Ok bs \<longrightarrow> bs = [8, 9])"
proof -
  have "buffered_ok (\<lambda>r. addressable (source r)) (unread (\<lambda>bs. bs)) [7, 8, 9]
      (buffered_new (reader_new [7, 8, 9]) (Window 2))"
    by (rule buffered_over_slice) (simp add: u64_max_def)
  from buffered_read_at_exact[OF slice.over.sequential_reader_axioms this, of "\<lambda>_. True" 1 2]
  obtain s' x where run: "buffered_read_at (reader_read slice_read_at) (\<lambda>_. True) 1 2
       (buffered_new (reader_new [7, 8, 9]) (Window 2)) = Some (s', x)"
    "retained_bytes s' \<le> cap (policy (buffered_new (reader_new [7, 8, 9 :: byte]) (Window 2)))"
    "case x of Inr bs \<Rightarrow> bs = take 2 (drop 1 [7, 8, 9]) | Inl e \<Rightarrow> read_fault (\<lambda>_. True) [7, 8, 9]
       (buffered_new (reader_new [7, 8, 9 :: byte]) (Window 2)) 1 2 e"
    by blast
  have "retained_bytes s' \<le> 2" "\<forall>bs. x = Ok bs \<longrightarrow> bs = [8, 9]"
    using run(2,3) by (auto simp: buffered_new_def)
  with run(1) show ?thesis by blast
qed

text \<open>
  \<open>BufferedReadAt::len\<close> (buffered.rs:249-254) returns after reading to the end: the length of
  the stream, or the fault that stopped it, which under a window is never a limit.
\<close>

theorem buffered_len_exact:
  assumes "sequential_reader good rd rest interrupts" "buffered_ok good rest c s"
  shows "\<exists>s' x. buffered_len rd al s = Some (s', x) \<and> buffered_ok good rest c s'
    \<and> (case x of Inr n \<Rightarrow> n = length c | Inl e \<Rightarrow> stream_fault al c (policy s) e)"
  using sequential_reader.len_exact[OF assms, of al] by blast

theorem buffered_len_exact_witness:
  "\<exists>s' x. buffered_len (reader_read slice_read_at) (\<lambda>_. True)
       (buffered_new (reader_new [7, 8, 9]) (Window 2)) = Some (s', x)
     \<and> (case x of Inr n \<Rightarrow> n = 3 | Inl e \<Rightarrow> stream_fault (\<lambda>_. True) [7, 8, 9] (Window 2) e)"
proof -
  have "buffered_ok (\<lambda>r. addressable (source r)) (unread (\<lambda>bs. bs)) [7, 8, 9]
      (buffered_new (reader_new [7, 8, 9]) (Window 2))"
    by (rule buffered_over_slice) (simp add: u64_max_def)
  from buffered_len_exact[OF slice.over.sequential_reader_axioms this, of "\<lambda>_. True"]
  obtain s' x where "buffered_len (reader_read slice_read_at) (\<lambda>_. True)
       (buffered_new (reader_new [7, 8, 9]) (Window 2)) = Some (s', x)"
    "case x of Inr n \<Rightarrow> n = length [7, 8, 9 :: byte]
     | Inl e \<Rightarrow> stream_fault (\<lambda>_. True) [7, 8, 9] (policy (buffered_new (reader_new [7, 8, 9 :: byte]) (Window 2))) e"
    by blast
  then show ?thesis by (intro exI[of _ s'] exI[of _ x]) (auto simp: buffered_new_def split: sum.splits)
qed

text \<open>
  A batch (buffered.rs:333-340) always returns; if it succeeds it has filled every buffer, in
  the order of the offsets, with exactly the bytes of its range, and then every non-empty
  range lies inside the stream.
\<close>

theorem buffered_batch_exact:
  assumes "sequential_reader good rd rest interrupts" "buffered_ok good rest c s"
  shows "\<exists>s' x. buffered_read_many_at rd al reqs s = Some (s', x) \<and> buffered_ok good rest c s'
    \<and> (\<forall>bss. x = Ok bss \<longrightarrow> bss = map (\<lambda>(offset, n). take n (drop offset c)) (sort_key fst reqs)
          \<and> (\<forall>(offset, n) \<in> set reqs. n = 0 \<or> offset + n \<le> length c))"
  using sequential_reader.read_each_exact[OF assms, of al "sort_key fst reqs"]
  by (simp add: buffered_read_many_at_def)

theorem buffered_batch_exact_witness:
  "\<exists>s' x. buffered_read_many_at (reader_read slice_read_at) (\<lambda>_. True) [(2, 1), (0, 2)]
       (buffered_new (reader_new [7, 8, 9]) (Spool 3)) = Some (s', x)
     \<and> (\<forall>bss. x = Ok bss \<longrightarrow> bss = [[7, 8], [9]])"
proof -
  have "buffered_ok (\<lambda>r. addressable (source r)) (unread (\<lambda>bs. bs)) [7, 8, 9]
      (buffered_new (reader_new [7, 8, 9]) (Spool 3))"
    by (rule buffered_over_slice) (simp add: u64_max_def)
  from buffered_batch_exact[OF slice.over.sequential_reader_axioms this, of "\<lambda>_. True" "[(2, 1), (0, 2)]"]
  show ?thesis by auto
qed

end
