(* ===== verification/Incremental.thy ===== *)
theory Incremental
  imports Prelude
begin

text \<open>
  The dialogue between a decoder and whoever holds the bytes:
  \<open>src/src/traits/incremental.rs\<close> (requests, inputs, events, and \<open>Fused\<close>, which enforces the
  termination rules on any decoder) and \<open>src/src/traits/control.rs\<close> (mandatory suspension
  before output, and the sink guard). The wrapped decoder is an argument: one of its steps is
  a program \<open>'d prog\<close> that calls the sink any number of times, choosing each call by the
  answers before, and ends in a result, or in \<open>None\<close> when it unwinds. Pixel descriptors and
  the boxed errors of sinks are types of their own packages, here type variables.
\<close>

subsection \<open>Ranges, requests, inputs\<close>

record byte_range =
  br_offset :: nat
  br_length :: nat

definition range_new :: "nat \<Rightarrow> nat \<Rightarrow> byte_range" where
  "range_new offset n = \<lparr> br_offset = offset, br_length = n \<rparr>"

definition range_end :: "byte_range \<Rightarrow> nat" where
  "range_end r = saturating_add u64_max (br_offset r) (br_length r)"

definition range_is_empty :: "byte_range \<Rightarrow> bool" where
  "range_is_empty r \<longleftrightarrow> br_length r = 0"

definition range_contains :: "byte_range \<Rightarrow> nat \<Rightarrow> bool" where
  "range_contains r target \<longleftrightarrow> target \<ge> br_offset r \<and> target < range_end r"

datatype input_request = AtLeast nat nat | RangeOf byte_range | Len

fun request_offset :: "input_request \<Rightarrow> nat option" where
  "request_offset (AtLeast offset min_len) = Some offset"
| "request_offset (RangeOf r) = Some (br_offset r)"
| "request_offset Len = None"

record input =
  in_offset :: nat
  in_bytes :: "byte list"
  in_total :: "nat option"

definition input_new :: "nat \<Rightarrow> byte list \<Rightarrow> input" where
  "input_new offset bs = \<lparr> in_offset = offset, in_bytes = bs, in_total = None \<rparr>"

definition input_empty :: input where
  "input_empty = \<lparr> in_offset = 0, in_bytes = [], in_total = None \<rparr>"

definition with_total_len :: "nat \<Rightarrow> input \<Rightarrow> input" where
  "with_total_len n i = i\<lparr>in_total := Some n\<rparr>"

definition with_total_len_opt :: "nat option \<Rightarrow> input \<Rightarrow> input" where
  "with_total_len_opt n i = i\<lparr>in_total := n\<rparr>"

definition input_end :: "input \<Rightarrow> nat" where
  "input_end i = saturating_add u64_max (in_offset i) (length (in_bytes i))"

definition reaches_end :: "input \<Rightarrow> bool" where
  "reaches_end i \<longleftrightarrow> in_total i = Some (input_end i)"

fun is_satisfied_by :: "input_request \<Rightarrow> input \<Rightarrow> bool" where
  "is_satisfied_by (AtLeast offset min_len) i \<longleftrightarrow>
     in_offset i = offset \<and> (length (in_bytes i) \<ge> min_len \<or> in_total i = Some (input_end i))"
| "is_satisfied_by (RangeOf r) i \<longleftrightarrow>
     in_offset i = br_offset r \<and> (length (in_bytes i) \<ge> br_length r \<or> in_total i = Some (input_end i))"
| "is_satisfied_by Len i \<longleftrightarrow> in_total i \<noteq> None"

subsection \<open>Events\<close>

datatype metadata_update = HeaderReady | ColorReady | Updated

fun is_header_ready :: "metadata_update \<Rightarrow> bool" where
  "is_header_ready HeaderReady = True"
| "is_header_ready ColorReady = True"
| "is_header_ready Updated = True"

record batch_meta =
  meta_y :: nat
  meta_pass :: nat
  meta_is_final :: bool

definition batch_meta_new :: "nat \<Rightarrow> bool \<Rightarrow> batch_meta" where
  "batch_meta_new y final = \<lparr> meta_y = y, meta_pass = 0, meta_is_final = final \<rparr>"

definition final_rows :: "nat \<Rightarrow> batch_meta" where
  "final_rows y = batch_meta_new y True"

definition with_pass :: "nat \<Rightarrow> batch_meta \<Rightarrow> batch_meta" where
  "with_pass n m = m\<lparr>meta_pass := n\<rparr>"

record ('p, 'o) output_info =
  out_width :: nat
  out_height :: nat
  native_format :: 'p
  out_has_alpha :: bool
  orientation_applied :: 'o
  crop_applied :: "(nat \<times> nat \<times> nat \<times> nat) option"

datatype ('p, 'o) event =
    Need
  | Rows batch_meta nat
  | MetadataReady metadata_update
  | Done "('p, 'o) output_info"

record ('p, 'o) progress =
  consumed :: nat
  event_of :: "('p, 'o) event"

definition progress_new :: "nat \<Rightarrow> ('p, 'o) event \<Rightarrow> ('p, 'o) progress" where
  "progress_new n e = \<lparr> consumed = n, event_of = e \<rparr>"

subsection \<open>Suspension\<close>

datatype interpretation_state = Pending | Provisional | Final | Unavailable

datatype interpretation_unavailable =
    LateColorMetadata | ForbiddenColorMetadata | IncompleteColorMetadata | UnsupportedColor
  | UnqualifiedOutput

record 'p facts =
  f_width :: nat
  f_height :: nat
  f_descriptor :: "'p option"
  f_state :: interpretation_state
  f_unavailable :: "interpretation_unavailable option"

definition facts_new :: "nat \<Rightarrow> nat \<Rightarrow> 'p option \<Rightarrow> interpretation_state \<Rightarrow> 'p facts" where
  "facts_new w h d s = \<lparr> f_width = w, f_height = h, f_descriptor = d, f_state = s, f_unavailable = None \<rparr>"

definition with_unavailable :: "interpretation_unavailable \<Rightarrow> 'p facts \<Rightarrow> 'p facts" where
  "with_unavailable r f = f\<lparr>f_state := Unavailable, f_unavailable := Some r\<rparr>"

record 'p boundary =
  b_id :: nat
  b_facts :: "'p facts"

datatype boundary_action = ContinueReading | AdoptInterpretation

fun permits :: "boundary_action \<Rightarrow> 'p facts \<Rightarrow> bool" where
  "permits ContinueReading f \<longleftrightarrow> f_state f = Pending \<or> f_state f = Provisional"
| "permits AdoptInterpretation f \<longleftrightarrow>
     f_state f = Final \<and> f_descriptor f \<noteq> None \<and> f_unavailable f = None"

datatype control_error =
    UnhandledBoundary | NotControlled | InvalidReply | OutputBeforeInterpretation
  | FinalInterpretationChanged | InconsistentFacts | IdentityExhausted

text \<open>
  The identity counter of \<open>DecodeBoundary::new\<close>: the counter before, and the identity handed out.
\<close>

definition boundary_new :: "nat \<Rightarrow> 'p facts \<Rightarrow> nat \<times> (control_error + 'p boundary)" where
  "boundary_new next f = (case checked_add usize_max next 1 of
     None \<Rightarrow> (next, Err IdentityExhausted)
   | Some next' \<Rightarrow> (next', Ok \<lparr> b_id = next, b_facts = f \<rparr>))"

datatype ('p, 'o) controlled_progress =
    Decode "('p, 'o) progress"
  | Suspended nat "'p boundary"

fun controlled_consumed :: "('p, 'o) controlled_progress \<Rightarrow> nat" where
  "controlled_consumed (Decode p) = consumed p"
| "controlled_consumed (Suspended n b) = n"

subsection \<open>The sink and its guard\<close>

text \<open>A boxed error of a sink: a cause of its own, or a refusal of the guard.\<close>

datatype 'x sink_error = Cause 'x | Refusal control_error

datatype 'p sink_call =
    Begin nat nat 'p
  | NextBuffer nat nat nat 'p
  | PassBuffer batch_meta nat nat 'p
  | Finish

type_synonym ('p, 'x, 's) sink = "'p sink_call \<Rightarrow> 's \<Rightarrow> 's \<times> ('x sink_error + unit)"

record ('p, 'x, 's) guarded =
  g_inner :: 's
  g_facts :: "'p facts option"
  g_refused :: "control_error option"
  g_sink_error :: "'x sink_error option"

definition guarded_new :: "'s \<Rightarrow> 'p facts option \<Rightarrow> ('p, 'x, 's) guarded" where
  "guarded_new s f = \<lparr> g_inner = s, g_facts = f, g_refused = None, g_sink_error = None \<rparr>"

definition guard_error ::
    "'p facts option \<Rightarrow> nat option \<Rightarrow> (nat \<times> nat) option \<Rightarrow> 'p option \<Rightarrow> control_error option" where
  "guard_error facts width extent descriptor = (case facts of
     None \<Rightarrow> Some OutputBeforeInterpretation
   | Some f \<Rightarrow>
       if (case width of None \<Rightarrow> False | Some w \<Rightarrow> w \<noteq> f_width f)
         \<or> (case descriptor of None \<Rightarrow> False | Some d \<Rightarrow> f_descriptor f \<noteq> Some d)
         \<or> (case extent of None \<Rightarrow> False | Some (y, rows) \<Rightarrow>
              (case checked_add u32_max y rows of None \<Rightarrow> True | Some fin \<Rightarrow> fin > f_height f))
       then Some InconsistentFacts else None)"

definition guard_check ::
    "nat option \<Rightarrow> (nat \<times> nat) option \<Rightarrow> 'p option \<Rightarrow> ('p, 'x, 's) guarded
      \<Rightarrow> ('p, 'x, 's) guarded \<times> ('x sink_error + unit)" where
  "guard_check width extent descriptor g = (case g_sink_error g of
     Some cause \<Rightarrow> (g, Err cause)
   | None \<Rightarrow>
       (case (case g_refused g of Some e \<Rightarrow> Some e | None \<Rightarrow> guard_error (g_facts g) width extent descriptor) of
          Some e \<Rightarrow> (g\<lparr>g_refused := Some e\<rparr>, Err (Refusal e))
        | None \<Rightarrow> (g, Ok ())))"

definition retain_failure ::
    "'s \<times> ('x sink_error + unit) \<Rightarrow> ('p, 'x, 's) guarded \<Rightarrow> ('p, 'x, 's) guarded \<times> ('x sink_error + unit)" where
  "retain_failure r g = (case r of
     (s, Inl e) \<Rightarrow> (g\<lparr>g_inner := s, g_sink_error := Some e\<rparr>, Err e)
   | (s, Inr _) \<Rightarrow> (g\<lparr>g_inner := s\<rparr>, Ok ()))"

fun check_call :: "'p sink_call \<Rightarrow> ('p, 'x, 's) guarded \<Rightarrow> ('p, 'x, 's) guarded \<times> ('x sink_error + unit)" where
  "check_call (Begin w h d) = guard_check (Some w) (Some (0, h)) (Some d)"
| "check_call (NextBuffer y h w d) = guard_check (Some w) (Some (y, h)) (Some d)"
| "check_call (PassBuffer m h w d) = guard_check (Some w) (Some (meta_y m, h)) (Some d)"
| "check_call Finish = guard_check None None None"

fun other_height :: "'p facts option \<Rightarrow> 'p sink_call \<Rightarrow> bool" where
  "other_height (Some f) (Begin w h d) \<longleftrightarrow> f_height f \<noteq> h"
| "other_height _ _ \<longleftrightarrow> False"

definition guarded_call ::
    "('p, 'x, 's) sink \<Rightarrow> 'p sink_call \<Rightarrow> ('p, 'x, 's) guarded \<Rightarrow> ('p, 'x, 's) guarded \<times> ('x sink_error + unit)" where
  "guarded_call snk c g = (case check_call c g of
     (g, Inl e) \<Rightarrow> (g, Err e)
   | (g, Inr _) \<Rightarrow>
       if other_height (g_facts g) c
       then (g\<lparr>g_refused := Some InconsistentFacts\<rparr>, Err (Refusal InconsistentFacts))
       else retain_failure (snk c (g_inner g)) g)"

datatype ('p, 'x, 'a) prog =
    Return 'a
  | Call "'p sink_call" "('x sink_error + unit) \<Rightarrow> ('p, 'x, 'a) prog"

primrec run_prog ::
    "('p sink_call \<Rightarrow> 's \<Rightarrow> 's \<times> ('x sink_error + unit)) \<Rightarrow> ('p, 'x, 'a) prog \<Rightarrow> 's \<Rightarrow> 's \<times> 'a" where
  "run_prog snk (Return a) = (\<lambda>s. (s, a))"
| "run_prog snk (Call c k) = (\<lambda>s. case snk c s of (s', r) \<Rightarrow> run_prog snk (k r) s')"

subsection \<open>The fused decoder\<close>

datatype ('e, 'x, 'r) step_error =
    Codec 'e
  | SinkFailed "'x sink_error"
  | Cancelled 'r
  | Finished
  | Control control_error

datatype ('p, 'o) fused_state = Running | AtBoundary "'p boundary" | Complete "('p, 'o) output_info" | Failed

record ('d, 'p, 'o) fused =
  inner :: 'd
  fstate :: "('p, 'o) fused_state"
  controlled :: bool
  interpretation_of :: "'p facts option"
  details_taken :: bool

definition fused_new :: "'d \<Rightarrow> ('d, 'p, 'o) fused" where
  "fused_new d = \<lparr> inner = d, fstate = Running, controlled = False, interpretation_of = None,
     details_taken = False \<rparr>"

definition fused_controlled :: "'d \<Rightarrow> ('d, 'p, 'o) fused" where
  "fused_controlled d = (fused_new d)\<lparr>controlled := True\<rparr>"

text \<open>
  One call of the wrapped decoder: its state after and its result, \<open>None\<close> when it unwound.
  The pulse is checked before and after a native call: \<open>before\<close> and \<open>after\<close> are the answers.
\<close>

type_synonym ('d, 'p, 'x, 'a) native = "('p, 'x, 'd \<times> 'a option) prog"

definition fused_step ::
    "'r option \<Rightarrow> 'r option
      \<Rightarrow> ('d \<Rightarrow> input \<Rightarrow> ('d, 'p, 'x, ('e, 'x, 'r) step_error + ('p, 'o) progress) native)
      \<Rightarrow> input \<Rightarrow> ('p, 'x, 's) sink \<Rightarrow> ('d, 'p, 'o) fused \<Rightarrow> 's
      \<Rightarrow> ('d, 'p, 'o) fused \<times> 's \<times> (('e, 'x, 'r) step_error + ('p, 'o) progress) option" where
  "fused_step before after native i snk d s = (case fstate d of
     Complete info \<Rightarrow> (d, s, Some (Ok (progress_new 0 (Done info))))
   | Failed \<Rightarrow> (d, s, Some (Err Finished))
   | AtBoundary b \<Rightarrow> (d\<lparr>fstate := Failed\<rparr>, s, Some (Err (Control UnhandledBoundary)))
   | Running \<Rightarrow>
       if controlled d then (d\<lparr>fstate := Failed\<rparr>, s, Some (Err (Control UnhandledBoundary)))
       else (case before of
         Some reason \<Rightarrow> (d\<lparr>fstate := Failed\<rparr>, s, Some (Err (Cancelled reason)))
       | None \<Rightarrow> (case run_prog snk (native (inner d) i) s of (s', inner', result) \<Rightarrow>
           let d = d\<lparr>inner := inner', fstate := Failed\<rparr> in
           case result of
             None \<Rightarrow> (d, s', None)
           | Some (Inl e) \<Rightarrow> (d, s', Some (Err e))
           | Some (Inr p) \<Rightarrow> (case after of
               Some reason \<Rightarrow> (d, s', Some (Err (Cancelled reason)))
             | None \<Rightarrow> (d\<lparr>fstate := (case event_of p of Done info \<Rightarrow> Complete info | _ \<Rightarrow> Running)\<rparr>,
                        s', Some (Ok p))))))"

definition fused_requested :: "('d \<Rightarrow> input_request list) \<Rightarrow> ('d, 'p, 'o) fused \<Rightarrow> input_request list" where
  "fused_requested requested d = (case fstate d of Running \<Rightarrow> requested (inner d) | _ \<Rightarrow> [])"

definition fused_take_details ::
    "('d \<Rightarrow> 'd \<times> 'k option) \<Rightarrow> ('d, 'p, 'o) fused \<Rightarrow> ('d, 'p, 'o) fused \<times> 'k option" where
  "fused_take_details take_details d =
     (if (case fstate d of Complete _ \<Rightarrow> False | _ \<Rightarrow> True) \<or> details_taken d then (d, None)
      else case take_details (inner d) of (inner', k) \<Rightarrow> (d\<lparr>inner := inner', details_taken := True\<rparr>, k))"

definition facts_match :: "'p facts \<Rightarrow> ('p, 'o) output_info \<Rightarrow> bool" where
  "facts_match f info \<longleftrightarrow> f_width f = out_width info \<and> f_height f = out_height info
     \<and> f_descriptor f = Some (native_format info)"

text \<open>The checks on what a controlled native step returned, in the order of the code.\<close>

definition settle ::
    "'p facts option \<Rightarrow> ('p, 'o) controlled_progress
      \<Rightarrow> control_error + (('p, 'o) fused_state \<times> ('p, 'o) controlled_progress)" where
  "settle facts p =
     (if facts = None \<and> (case p of Decode q \<Rightarrow> (case event_of q of Done _ \<Rightarrow> True | Rows _ _ \<Rightarrow> True | _ \<Rightarrow> False)
                          | Suspended _ _ \<Rightarrow> False)
      then Err OutputBeforeInterpretation
      else if (case p of Suspended _ b \<Rightarrow> (case facts of None \<Rightarrow> False | Some f \<Rightarrow> f \<noteq> b_facts b) | _ \<Rightarrow> False)
      then Err FinalInterpretationChanged
      else case p of
        Suspended n b \<Rightarrow> Ok (AtBoundary b, p)
      | Decode q \<Rightarrow> (case event_of q of
          Done info \<Rightarrow>
            if (case facts of None \<Rightarrow> False | Some f \<Rightarrow> \<not> facts_match f info)
            then Err InconsistentFacts else Ok (Complete info, p)
        | _ \<Rightarrow> Ok (Running, p)))"

text \<open>What becomes of a native result: the guard's verdict first, then the sink's, the codec's, the pulse's.\<close>

definition conclude ::
    "'r option \<Rightarrow> ('p, 'x, 's) guarded \<Rightarrow> ('e, 'x, 'r) step_error + ('p, 'o) controlled_progress
      \<Rightarrow> ('d, 'p, 'o) fused \<Rightarrow> ('d, 'p, 'o) fused \<times> (('e, 'x, 'r) step_error + ('p, 'o) controlled_progress)" where
  "conclude after g r d = (case g_refused g of
     Some e \<Rightarrow> (d, Err (Control e))
   | None \<Rightarrow> (case g_sink_error g of
       Some e \<Rightarrow> (d, Err (SinkFailed e))
     | None \<Rightarrow> (case r of
         Inl e \<Rightarrow> (d, Err e)
       | Inr p \<Rightarrow> (case after of
           Some reason \<Rightarrow> (d, Err (Cancelled reason))
         | None \<Rightarrow> (case settle (interpretation_of d) p of
             Inl e \<Rightarrow> (d, Err (Control e))
           | Inr (st, p) \<Rightarrow> (d\<lparr>fstate := st\<rparr>, Ok p))))))"

definition fused_step_controlled ::
    "'r option \<Rightarrow> 'r option
      \<Rightarrow> ('d \<Rightarrow> input \<Rightarrow> ('d, 'p, 'x, ('e, 'x, 'r) step_error + ('p, 'o) controlled_progress) native)
      \<Rightarrow> input \<Rightarrow> ('p, 'x, 's) sink \<Rightarrow> ('d, 'p, 'o) fused \<Rightarrow> 's
      \<Rightarrow> ('d, 'p, 'o) fused \<times> 's \<times> (('e, 'x, 'r) step_error + ('p, 'o) controlled_progress) option" where
  "fused_step_controlled before after native i snk d0 s =
     (let d = d0\<lparr>controlled := True\<rparr> in
      case fstate d of
        Complete info \<Rightarrow> (d, s, Some (Ok (Decode (progress_new 0 (Done info)))))
      | Failed \<Rightarrow> (d, s, Some (Err Finished))
      | _ \<Rightarrow> (case before of
          Some reason \<Rightarrow> (d\<lparr>fstate := Failed\<rparr>, s, Some (Err (Cancelled reason)))
        | None \<Rightarrow> (case fstate d of
            AtBoundary b \<Rightarrow> (d, s, Some (Ok (Suspended 0 b)))
          | _ \<Rightarrow>
            (case run_prog (guarded_call snk) (native (inner d) i) (guarded_new s (interpretation_of d)) of
               (g, inner', result) \<Rightarrow>
                 let d = d\<lparr>inner := inner', fstate := Failed\<rparr> in
                 case result of
                   None \<Rightarrow> (d, g_inner g, None)
                 | Some r \<Rightarrow> (case conclude after g r d of (d, r) \<Rightarrow> (d, g_inner g, Some r))))))"

definition fused_resume ::
    "'r option \<Rightarrow> 'r option
      \<Rightarrow> ('d \<Rightarrow> nat \<Rightarrow> boundary_action \<Rightarrow> 'd \<times> (('e, 'x, 'r) step_error + unit) option)
      \<Rightarrow> nat \<Rightarrow> boundary_action \<Rightarrow> ('d, 'p, 'o) fused
      \<Rightarrow> ('d, 'p, 'o) fused \<times> (('e, 'x, 'r) step_error + unit) option" where
  "fused_resume before after native n action d0 =
     (let d = d0\<lparr>fstate := Failed\<rparr> in
      case fstate d0 of
        AtBoundary b \<Rightarrow> (case before of
          Some reason \<Rightarrow> (d, Some (Err (Cancelled reason)))
        | None \<Rightarrow>
            if b_id b \<noteq> n \<or> \<not> permits action (b_facts b) then (d, Some (Err (Control InvalidReply)))
            else (case native (inner d) n action of (inner', result) \<Rightarrow>
              let d = d\<lparr>inner := inner'\<rparr> in
              case result of
                None \<Rightarrow> (d, None)
              | Some (Inl e) \<Rightarrow> (d, Some (Err e))
              | Some (Inr _) \<Rightarrow> (case after of
                  Some reason \<Rightarrow> (d, Some (Err (Cancelled reason)))
                | None \<Rightarrow>
                    (d\<lparr>interpretation_of := (if action = AdoptInterpretation then Some (b_facts b)
                                           else interpretation_of d),
                       fstate := Running\<rparr>, Some (Ok ())))))
      | _ \<Rightarrow> (d, Some (Err Finished)))"

subsection \<open>Any history of calls\<close>

datatype ('d, 'p, 'o, 'x, 'e, 'r, 'k) operation =
    Step "'r option" "'r option"
      "'d \<Rightarrow> input \<Rightarrow> ('d, 'p, 'x, ('e, 'x, 'r) step_error + ('p, 'o) progress) native" input
  | StepControlled "'r option" "'r option"
      "'d \<Rightarrow> input \<Rightarrow> ('d, 'p, 'x, ('e, 'x, 'r) step_error + ('p, 'o) controlled_progress) native" input
  | Resume "'r option" "'r option"
      "'d \<Rightarrow> nat \<Rightarrow> boundary_action \<Rightarrow> 'd \<times> (('e, 'x, 'r) step_error + unit) option" nat boundary_action
  | TakeDetails "'d \<Rightarrow> 'd \<times> 'k option"

datatype ('p, 'o, 'x, 'e, 'r, 'k) outcome =
    Unwound
  | Raised "('e, 'x, 'r) step_error"
  | Progressed "('p, 'o) controlled_progress"
  | Resumed
  | Details "'k option"

fun outcome_of :: "('a \<Rightarrow> ('p, 'o, 'x, 'e, 'r, 'k) outcome) \<Rightarrow> (('e, 'x, 'r) step_error + 'a) option
    \<Rightarrow> ('p, 'o, 'x, 'e, 'r, 'k) outcome" where
  "outcome_of f None = Unwound"
| "outcome_of f (Some (Inl e)) = Raised e"
| "outcome_of f (Some (Inr x)) = f x"

fun perform ::
    "('p, 'x, 's) sink \<Rightarrow> ('d, 'p, 'o, 'x, 'e, 'r, 'k) operation \<Rightarrow> ('d, 'p, 'o) fused \<times> 's
      \<Rightarrow> (('d, 'p, 'o) fused \<times> 's) \<times> ('p, 'o, 'x, 'e, 'r, 'k) outcome" where
  "perform snk (Step before after native i) (d, s) = (case fused_step before after native i snk d s of
     (d', s', r) \<Rightarrow> ((d', s'), outcome_of (\<lambda>p. Progressed (Decode p)) r))"
| "perform snk (StepControlled before after native i) (d, s) =
     (case fused_step_controlled before after native i snk d s of
        (d', s', r) \<Rightarrow> ((d', s'), outcome_of Progressed r))"
| "perform snk (Resume before after native n action) (d, s) = (case fused_resume before after native n action d of
     (d', r) \<Rightarrow> ((d', s), outcome_of (\<lambda>_. Resumed) r))"
| "perform snk (TakeDetails take_details) (d, s) = (case fused_take_details take_details d of
     (d', k) \<Rightarrow> ((d', s), Details k))"

fun perform_all ::
    "('p, 'x, 's) sink \<Rightarrow> ('d, 'p, 'o, 'x, 'e, 'r, 'k) operation list \<Rightarrow> ('d, 'p, 'o) fused \<times> 's
      \<Rightarrow> (('d, 'p, 'o) fused \<times> 's) \<times> ('p, 'o, 'x, 'e, 'r, 'k) outcome list" where
  "perform_all snk [] st = (st, [])"
| "perform_all snk (op # ops) st = (case perform snk op st of
     (st', out) \<Rightarrow> (case perform_all snk ops st' of (st'', outs) \<Rightarrow> (st'', out # outs)))"

definition failure :: "('p, 'o, 'x, 'e, 'r, 'k) outcome \<Rightarrow> bool" where
  "failure out \<longleftrightarrow> out = Unwound \<or> (\<exists>e. out = Raised e)"

lemma outcome_failure:
  "failure (outcome_of f r) \<longleftrightarrow> r = None \<or> (\<exists>e. r = Some (Err e)) \<or> (\<exists>x. r = Some (Ok x) \<and> failure (f x))"
  by (cases "(f, r)" rule: outcome_of.cases) (auto simp: failure_def)

lemma failure_simps [simp]:
  "failure Unwound" "failure (Raised e)" "\<not> failure (Progressed p)" "\<not> failure Resumed" "\<not> failure (Details k)"
  by (simp_all add: failure_def)

lemma step_failure:
  "fused_step before after native i snk d s = (d', s', r) \<Longrightarrow> r = None \<or> (\<exists>e. r = Some (Err e)) \<Longrightarrow> fstate d' = Failed"
  by (auto simp: fused_step_def Let_def split: fused_state.splits if_splits option.splits prod.splits sum.splits)

lemma conclude_failure:
  "conclude after g r d = (d', Err e) \<Longrightarrow> d' = d"
  by (auto simp: conclude_def split: option.splits sum.splits)

lemma step_controlled_failure:
  assumes "fused_step_controlled before after native i snk d s = (d', s', r)" "r = None \<or> (\<exists>e. r = Some (Err e))"
  shows "fstate d' = Failed"
proof (cases "fstate d")
  case Running
  show ?thesis
  proof (cases before)
    case None
    obtain g inner' result where run:
      "run_prog (guarded_call snk) (native (inner d) i) (guarded_new s (interpretation_of d)) = (g, inner', result)"
      by (metis prod_cases3)
    show ?thesis
      using assms Running None run
      by (cases result) (auto simp: fused_step_controlled_def Let_def split: prod.splits dest!: conclude_failure)
  qed (use assms Running in \<open>auto simp: fused_step_controlled_def Let_def\<close>)
qed (use assms in \<open>auto simp: fused_step_controlled_def Let_def split: option.splits\<close>)

lemma resume_failure:
  "fused_resume before after native n action d = (d', r) \<Longrightarrow> r = None \<or> (\<exists>e. r = Some (Err e)) \<Longrightarrow> fstate d' = Failed"
  by (auto simp: fused_resume_def Let_def split: fused_state.splits if_splits option.splits prod.splits sum.splits)

lemma perform_failure:
  assumes "perform snk op (d, s) = ((d', s'), out)" "failure out"
  shows "fstate d' = Failed"
proof (cases op)
  case (Step before after native i)
  with assms(1) obtain r where run: "fused_step before after native i snk d s = (d', s', r)"
    and "out = outcome_of (\<lambda>p. Progressed (Decode p)) r" by (auto split: prod.splits)
  with assms(2) show ?thesis using step_failure[OF run] by (simp add: outcome_failure)
next
  case (StepControlled before after native i)
  with assms(1) obtain r where run: "fused_step_controlled before after native i snk d s = (d', s', r)"
    and "out = outcome_of Progressed r" by (auto split: prod.splits)
  with assms(2) show ?thesis using step_controlled_failure[OF run] by (simp add: outcome_failure)
next
  case (Resume before after native n action)
  with assms(1) obtain r where run: "fused_resume before after native n action d = (d', r)"
    and "out = outcome_of (\<lambda>_. Resumed) r" by (auto split: prod.splits)
  with assms(2) show ?thesis using resume_failure[OF run] by (simp add: outcome_failure)
next
  case (TakeDetails take_details)
  with assms show ?thesis by (auto split: prod.splits)
qed

lemma perform_failed:
  assumes "fstate d = Failed" "perform snk op (d, s) = ((d', s'), out)"
  shows "fstate d' = Failed \<and> inner d' = inner d \<and> s' = s \<and> (out = Raised Finished \<or> out = Details None)"
  using assms
  by (cases op) (auto simp: fused_step_def fused_step_controlled_def fused_resume_def fused_take_details_def Let_def)

text \<open>
  C26: \<open>Fused\<close> (incremental.rs:656-824) makes failure final, whatever decoder it wraps: after any
  call that returned an error or unwound, every later step and resume returns
  \<open>StepError::Finished\<close>, no details can be taken, the wrapped decoder is not called again
  and the sink is not touched.
\<close>

theorem fused_failure_final:
  assumes "perform snk op (d, s) = ((d1, s1), out)" "failure out"
    "perform_all snk ops (d1, s1) = ((d2, s2), outs)"
  shows "inner d2 = inner d1 \<and> s2 = s1 \<and> set outs \<subseteq> {Raised Finished, Details None}
    \<and> length outs = length ops"
proof -
  have "fstate d1 = Failed" by (rule perform_failure[OF assms(1,2)])
  then show ?thesis using assms(3)
  proof (induction ops arbitrary: d1 s1 outs)
    case (Cons op ops)
    then obtain d' s' o1 os where one: "perform snk op (d1, s1) = ((d', s'), o1)"
      and rest: "perform_all snk ops (d', s') = ((d2, s2), os)" and outs: "outs = o1 # os"
      by (auto split: prod.splits)
    from perform_failed[OF Cons.prems(1) one] Cons.IH[OF _ rest] outs show ?case by auto
  qed simp
qed

text \<open>A decoder of unit type that asks for more bytes for ever.\<close>

definition idle_step :: "unit \<Rightarrow> input
    \<Rightarrow> (unit, unit, unit, (unit, unit, unit) step_error + (unit, unit) progress) native" where
  "idle_step d i = Return (d, Some (Ok (progress_new 0 Need)))"

definition unit_sink :: "(unit, unit, unit) sink" where
  "unit_sink c s = (s, Ok ())"

type_synonym unit_operation = "(unit, unit, unit, unit, unit, unit, unit) operation"

definition tripped_step :: unit_operation where
  "tripped_step = Step (Some ()) None idle_step input_empty"

definition later_calls :: "unit_operation list" where
  "later_calls = [Step None None idle_step input_empty, TakeDetails (\<lambda>d. (d, Some ()))]"

theorem fused_failure_final_witness:
  "perform unit_sink tripped_step (fused_new (), ()) = (((fused_new ())\<lparr>fstate := Failed\<rparr>, ()), Raised (Cancelled ()))
   \<and> set (snd (perform_all unit_sink later_calls ((fused_new ())\<lparr>fstate := Failed\<rparr>, ())))
       \<subseteq> {Raised Finished, Details None}"
proof -
  have one: "perform unit_sink tripped_step (fused_new (), ()) =
      (((fused_new ())\<lparr>fstate := Failed\<rparr>, ()), Raised (Cancelled ()))"
    by (simp add: tripped_step_def fused_step_def fused_new_def)
  obtain d2 outs where all: "perform_all unit_sink later_calls ((fused_new ())\<lparr>fstate := Failed\<rparr>, ()) =
      ((d2, ()), outs)" by (metis (full_types) old.unit.exhaust prod.collapse)
  from fused_failure_final[OF one _ all] show ?thesis using one all by simp
qed

subsection \<open>Output waits for the interpretation\<close>

text \<open>A sink that writes down the calls that reach it and answers as it likes.\<close>

definition recorder :: "('p sink_call \<Rightarrow> 'p sink_call list \<Rightarrow> 'x sink_error + unit) \<Rightarrow> ('p, 'x, 'p sink_call list) sink" where
  "recorder answer c log = (log @ [c], answer c log)"

fun call_within :: "'p facts \<Rightarrow> 'p sink_call \<Rightarrow> bool" where
  "call_within f (Begin w h d) \<longleftrightarrow> w = f_width f \<and> h = f_height f \<and> f_descriptor f = Some d"
| "call_within f (NextBuffer y h w d) \<longleftrightarrow> w = f_width f \<and> y + h \<le> f_height f \<and> f_descriptor f = Some d"
| "call_within f (PassBuffer m h w d) \<longleftrightarrow> w = f_width f \<and> meta_y m + h \<le> f_height f \<and> f_descriptor f = Some d"
| "call_within f Finish \<longleftrightarrow> True"

lemma guard_check_Ok:
  assumes "guard_check w e d g = (g', Ok ())"
  shows "g' = g" "guard_error (g_facts g) w e d = None"
  using assms by (auto simp: guard_check_def split: option.splits)

lemma guard_check_same [simp]:
  "g_facts (fst (guard_check w e d g)) = g_facts g" "g_inner (fst (guard_check w e d g)) = g_inner g"
  by (auto simp: guard_check_def split: option.splits)

lemma check_call_same [simp]:
  "g_facts (fst (check_call c g)) = g_facts g" "g_inner (fst (check_call c g)) = g_inner g"
  by (cases c; simp)+

lemma check_call_Ok:
  assumes "check_call c g = (g', Ok ())"
  shows "\<exists>f. g_facts g = Some f \<and> (\<not> other_height (Some f) c \<longrightarrow> call_within f c)"
proof -
  obtain w e d where ok: "guard_check w e d g = (g', Ok ())" using assms by (cases c) auto
  obtain f where f: "g_facts g = Some f"
    using guard_check_Ok(2)[OF ok] by (auto simp: guard_error_def split: option.splits)
  have "\<not> other_height (Some f) c \<longrightarrow> call_within f c"
    using assms f
    by (cases c) (auto dest!: guard_check_Ok(2) simp: guard_error_def checked_add_def split: if_splits)
  with f show ?thesis by blast
qed

lemma guarded_call_within:
  assumes "guarded_call (recorder answer) c g = (g', r)"
  shows "g_facts g' = g_facts g \<and> (g_inner g' = g_inner g
    \<or> g_inner g' = g_inner g @ [c] \<and> (\<exists>f. g_facts g = Some f \<and> call_within f c))"
proof -
  obtain g1 r1 where chk: "check_call c g = (g1, r1)" by fastforce
  have same: "g_facts g1 = g_facts g" "g_inner g1 = g_inner g"
    using check_call_same[of c g] by (simp_all add: chk)
  show ?thesis
  proof (cases r1)
    case (Inl e)
    then show ?thesis using assms chk same by (simp add: guarded_call_def)
  next
    case (Inr u)
    obtain f where f: "g_facts g = Some f" "\<not> other_height (Some f) c \<longrightarrow> call_within f c"
      using check_call_Ok[of c g g1] chk Inr by auto
    have unfold: "guarded_call (recorder answer) c g =
        (if other_height (Some f) c
         then (g1\<lparr>g_refused := Some InconsistentFacts\<rparr>, Err (Refusal InconsistentFacts))
         else retain_failure (recorder answer c (g_inner g1)) g1)"
      by (simp add: guarded_call_def chk Inr same f(1))
    show ?thesis
      using assms f same unfolding unfold
      by (auto simp: retain_failure_def recorder_def split: if_splits sum.splits)
  qed
qed

lemma run_guarded_within:
  assumes "run_prog (guarded_call (recorder answer)) prg g = (g', a)"
  shows "g_facts g' = g_facts g \<and> (\<exists>calls. g_inner g' = g_inner g @ calls
    \<and> (\<forall>c \<in> set calls. \<exists>f. g_facts g = Some f \<and> call_within f c))"
  using assms
proof (induction prg arbitrary: g)
  case (Call c k)
  obtain g1 r where one: "guarded_call (recorder answer) c g = (g1, r)" by fastforce
  then have rest: "run_prog (guarded_call (recorder answer)) (k r) g1 = (g', a)" using Call.prems by simp
  obtain calls where calls: "g_inner g' = g_inner g1 @ calls" "g_facts g' = g_facts g1"
    "\<forall>c \<in> set calls. \<exists>f. g_facts g1 = Some f \<and> call_within f c"
    using Call.IH[OF _ rest] by auto
  from guarded_call_within[OF one] show ?case
  proof (elim conjE disjE)
    assume "g_facts g1 = g_facts g" "g_inner g1 = g_inner g"
    then show ?thesis using calls by auto
  next
    assume "g_facts g1 = g_facts g" "g_inner g1 = g_inner g @ [c]" "\<exists>f. g_facts g = Some f \<and> call_within f c"
    then show ?thesis using calls by (intro conjI exI[of _ "c # calls"]) auto
  qed
qed simp

text \<open>
  C5: The guard (control.rs:327-449) lets no decoder, however faulty, touch the sink before the
  final interpretation was adopted, and afterwards only with calls that agree with it: the
  adopted width and descriptor, the adopted height on \<open>begin\<close>, rows inside the image. A call it
  refused makes the step an error even when the decoder ignored the refusal.
\<close>

theorem output_waits_for_interpretation:
  assumes "fused_step_controlled before after native i (recorder answer) d log = (d', log', r)"
  shows "(interpretation_of d = None \<longrightarrow> log' = log)
    \<and> (\<exists>calls. log' = log @ calls \<and> (\<forall>c \<in> set calls. \<exists>f. interpretation_of d = Some f \<and> call_within f c))"
proof -
  have "\<exists>calls. log' = log @ calls \<and> (\<forall>c \<in> set calls. \<exists>f. interpretation_of d = Some f \<and> call_within f c)"
  proof (cases "fstate d = Running \<and> before = None")
    case False
    then have "log' = log"
      using assms by (auto simp: fused_step_controlled_def Let_def split: fused_state.splits option.splits)
    then show ?thesis by simp
  next
    case True
    obtain g inner' result where run: "run_prog (guarded_call (recorder answer)) (native (inner d) i)
        (guarded_new log (interpretation_of d)) = (g, inner', result)"
      by (metis prod_cases3)
    have "log' = g_inner g"
      using assms True run by (cases result) (auto simp: fused_step_controlled_def Let_def split: prod.splits)
    with run_guarded_within[OF run] show ?thesis by (simp add: guarded_new_def)
  qed
  then show ?thesis by auto
qed

text \<open>A decoder that begins its output at once, ignores the answer and reports progress.\<close>

definition eager_step :: "unit \<Rightarrow> input
    \<Rightarrow> (unit, unit, unit, (unit, unit, unit) step_error + (unit, unit) controlled_progress) native" where
  "eager_step d i = Call (Begin 4 4 ()) (\<lambda>_. Return (d, Some (Ok (Decode (progress_new 0 Need)))))"

theorem output_waits_for_interpretation_witness:
  "fused_step_controlled None None eager_step input_empty (recorder (\<lambda>_ _. Ok ())) (fused_controlled ()) []
     = ((fused_controlled ())\<lparr>fstate := Failed\<rparr>, [], Some (Err (Control OutputBeforeInterpretation)))
   \<and> (\<exists>calls. [] = [] @ calls \<and> (\<forall>c \<in> set calls. \<exists>f.
        interpretation_of (fused_controlled () :: (unit, unit, unit) fused) = Some f \<and> call_within f (c :: unit sink_call)))"
proof -
  have run: "fused_step_controlled None None eager_step input_empty (recorder (\<lambda>_ _. Ok ())) (fused_controlled ()) []
     = ((fused_controlled ())\<lparr>fstate := Failed\<rparr>, [], Some (Err (Control OutputBeforeInterpretation)))"
    by (simp add: fused_step_controlled_def fused_controlled_def fused_new_def eager_step_def guarded_call_def
        guard_check_def guard_error_def guarded_new_def conclude_def)
  from output_waits_for_interpretation[OF run] show ?thesis using run by blast
qed

subsection \<open>One final interpretation\<close>

definition final_facts :: "'p facts \<Rightarrow> bool" where
  "final_facts f \<longleftrightarrow> f_state f = Final \<and> f_descriptor f \<noteq> None \<and> f_unavailable f = None"

definition controlled_ok :: "('d, 'p, 'o) fused \<Rightarrow> bool" where
  "controlled_ok d \<longleftrightarrow> controlled d
     \<and> (\<forall>f. interpretation_of d = Some f \<longrightarrow> final_facts f)
     \<and> (case fstate d of
          Complete info \<Rightarrow> (\<exists>f. interpretation_of d = Some f \<and> facts_match f info)
        | AtBoundary b \<Rightarrow> (\<forall>f. interpretation_of d = Some f \<longrightarrow> b_facts b = f)
        | _ \<Rightarrow> True)"

definition keeps_facts :: "('d, 'p, 'o) fused \<Rightarrow> ('d, 'p, 'o) fused \<Rightarrow> bool" where
  "keeps_facts d d' \<longleftrightarrow> (\<forall>f. interpretation_of d = Some f \<longrightarrow> interpretation_of d' = Some f)"

text \<open>What an outcome claims about the image is backed by the adopted facts.\<close>

definition backed :: "('d, 'p, 'o) fused \<Rightarrow> ('p, 'o, 'x, 'e, 'r, 'k) outcome \<Rightarrow> bool" where
  "backed d out \<longleftrightarrow> (\<forall>p. out = Progressed (Decode p) \<longrightarrow>
     (case event_of p of
        Rows m n \<Rightarrow> \<exists>f. interpretation_of d = Some f \<and> final_facts f
      | Done info \<Rightarrow> \<exists>f. interpretation_of d = Some f \<and> final_facts f \<and> facts_match f info
      | _ \<Rightarrow> True))"

lemma backed_mono: "backed d out \<Longrightarrow> keeps_facts d d' \<Longrightarrow> backed d' out"
  by (fastforce simp: backed_def keeps_facts_def split: event.splits)

lemma settle_Ok:
  assumes "settle facts p = Ok (st, q)"
  shows "q = p"
    "case st of Complete info \<Rightarrow> (\<exists>f. facts = Some f \<and> facts_match f info)
       | AtBoundary b \<Rightarrow> (\<forall>f. facts = Some f \<longrightarrow> b_facts b = f) | _ \<Rightarrow> True"
    "\<And>r. p = Decode r \<Longrightarrow> case event_of r of Rows m n \<Rightarrow> facts \<noteq> None
       | Done info \<Rightarrow> (\<exists>f. facts = Some f \<and> facts_match f info) | _ \<Rightarrow> True"
  using assms
  by (auto simp: settle_def split: if_splits controlled_progress.splits event.splits option.splits)

lemma conclude_ok:
  assumes "conclude after g r d = (d', x)" "fstate d = Failed" "controlled d"
    "\<And>f. interpretation_of d = Some f \<Longrightarrow> final_facts f"
  shows "controlled_ok d' \<and> interpretation_of d' = interpretation_of d \<and> backed d' (outcome_of Progressed (Some x))"
proof (cases x)
  case (Inl e)
  then have "d' = d" using assms(1) conclude_failure by blast
  with assms Inl show ?thesis by (simp add: controlled_ok_def backed_def)
next
  case (Inr q)
  then obtain p st where "settle (interpretation_of d) p = Ok (st, q)" "d' = d\<lparr>fstate := st\<rparr>"
    using assms(1) by (auto simp: conclude_def split: option.splits sum.splits)
  with settle_Ok[OF this(1)] assms(3,4) Inr show ?thesis
    by (auto simp: controlled_ok_def backed_def split: fused_state.splits event.splits)
qed

lemma step_controlled_ok:
  assumes "fused_step_controlled before after native i snk d s = (d', s', r)" "controlled_ok d"
  shows "controlled_ok d' \<and> interpretation_of d' = interpretation_of d \<and> backed d' (outcome_of Progressed r)"
proof -
  have facts: "\<And>f. interpretation_of d = Some f \<Longrightarrow> final_facts f" "controlled d" "d\<lparr>controlled := True\<rparr> = d"
    using assms(2) by (simp_all add: controlled_ok_def)
  show ?thesis
  proof (cases "fstate d = Running \<and> before = None")
    case False
    then show ?thesis
      using assms facts
      by (auto simp: fused_step_controlled_def Let_def controlled_ok_def backed_def progress_new_def
          split: fused_state.splits option.splits)
  next
    case True
    obtain g inner' result where run: "run_prog (guarded_call snk) (native (inner d) i)
        (guarded_new s (interpretation_of d)) = (g, inner', result)"
      by (metis prod_cases3)
    let ?d = "d\<lparr>inner := inner', fstate := Failed\<rparr>"
    show ?thesis
    proof (cases result)
      case None
      with assms(1) True run facts(3) have "d' = ?d" "r = None"
        by (auto simp: fused_step_controlled_def Let_def)
      then show ?thesis using facts by (auto simp: controlled_ok_def backed_def)
    next
      case (Some y)
      obtain d1 x where c: "conclude after g y ?d = (d1, x)" by fastforce
      then have "d' = d1" "r = Some x"
        using assms(1) True run Some facts(3) by (auto simp: fused_step_controlled_def Let_def)
      then show ?thesis using conclude_ok[OF c] facts by simp
    qed
  qed
qed

lemma perform_controlled_ok:
  assumes "perform snk op (d, s) = ((d', s'), out)" "controlled_ok d"
  shows "controlled_ok d' \<and> keeps_facts d d' \<and> backed d' out"
proof (cases op)
  case (Step before after native i)
  with assms show ?thesis
    by (auto simp: fused_step_def controlled_ok_def keeps_facts_def backed_def progress_new_def
        split: fused_state.splits)
next
  case (StepControlled before after native i)
  with assms(1) obtain r where "fused_step_controlled before after native i snk d s = (d', s', r)"
    "out = outcome_of Progressed r" by (auto split: prod.splits)
  with step_controlled_ok[OF this(1) assms(2)] show ?thesis by (auto simp: keeps_facts_def)
next
  case (Resume before after native n action)
  with assms show ?thesis
    by (auto simp: fused_resume_def Let_def controlled_ok_def keeps_facts_def backed_def final_facts_def
        split: fused_state.splits option.splits if_splits prod.splits sum.splits)
next
  case (TakeDetails take_details)
  with assms show ?thesis
    by (auto simp: fused_take_details_def controlled_ok_def keeps_facts_def backed_def
        split: fused_state.splits if_splits prod.splits)
qed

lemma perform_all_controlled_ok:
  assumes "perform_all snk ops (d, s) = ((d2, s2), outs)" "controlled_ok d"
  shows "controlled_ok d2 \<and> keeps_facts d d2 \<and> (\<forall>out \<in> set outs. backed d2 out)"
  using assms
proof (induction ops arbitrary: d s outs)
  case Nil
  then show ?case by (simp add: keeps_facts_def)
next
  case (Cons op ops)
  then obtain d1 s1 o1 os where one: "perform snk op (d, s) = ((d1, s1), o1)"
    and rest: "perform_all snk ops (d1, s1) = ((d2, s2), os)" and outs: "outs = o1 # os"
    by (auto split: prod.splits)
  from perform_controlled_ok[OF one Cons.prems(2)]
  have first: "controlled_ok d1" "keeps_facts d d1" "backed d1 o1" by blast+
  from Cons.IH[OF rest first(1)]
  have later: "controlled_ok d2" "keeps_facts d1 d2" "\<forall>out \<in> set os. backed d2 out" by blast+
  with first outs show ?case by (auto intro: backed_mono simp: keeps_facts_def)
qed

text \<open>
  C17: One final interpretation: a controlled decoder (incremental.rs:729-824, control.rs:139-155),
  whatever it wraps and however its calls interleave, reports rows or completion only once the
  client adopted an interpretation that is final, available and has a pixel descriptor. All of
  the reports rest on the same adopted facts, and a completed image has exactly their width,
  height and descriptor.
\<close>

theorem one_final_interpretation:
  assumes "perform_all snk ops (fused_controlled d0, s) = ((d, s'), outs)"
  shows "controlled_ok d \<and> (\<forall>out \<in> set outs. backed d out)"
proof -
  have "controlled_ok (fused_controlled d0)"
    by (simp add: controlled_ok_def fused_controlled_def fused_new_def)
  from perform_all_controlled_ok[OF assms this] show ?thesis by blast
qed

text \<open>A decoder of a two by two image: it suspends once, then reports completion.\<close>

definition two_facts :: "unit facts" where
  "two_facts = facts_new 2 2 (Some ()) Final"

definition two_info :: "(unit, unit) output_info" where
  "two_info = \<lparr> out_width = 2, out_height = 2, native_format = (), out_has_alpha = False,
     orientation_applied = (), crop_applied = None \<rparr>"

definition two_step :: "bool \<Rightarrow> input
    \<Rightarrow> (bool, unit, unit, (unit, unit, unit) step_error + (unit, unit) controlled_progress) native" where
  "two_step d i = (if d then Return (d, Some (Ok (Decode (progress_new 0 (Done two_info)))))
     else Return (d, Some (Ok (Suspended 0 \<lparr> b_id = 7, b_facts = two_facts \<rparr>))))"

definition two_calls :: "(bool, unit, unit, unit, unit, unit, unit) operation list" where
  "two_calls = [StepControlled None None two_step input_empty,
     Resume None None (\<lambda>_ _ _. (True, Some (Ok ()))) 7 AdoptInterpretation,
     StepControlled None None two_step input_empty]"

theorem one_final_interpretation_witness:
  "\<exists>d. perform_all unit_sink two_calls (fused_controlled False, ()) =
     ((d, ()), [Progressed (Suspended 0 \<lparr> b_id = 7, b_facts = two_facts \<rparr>), Resumed,
       Progressed (Decode (progress_new 0 (Done two_info)))]) \<and> controlled_ok d
     \<and> interpretation_of d = Some two_facts"
proof -
  let ?d = "\<lparr> inner = True, fstate = Complete two_info, controlled = True, interpretation_of = Some two_facts,
     details_taken = False \<rparr>"
  have all: "perform_all unit_sink two_calls (fused_controlled False, ()) =
     ((?d, ()), [Progressed (Suspended 0 \<lparr> b_id = 7, b_facts = two_facts \<rparr>), Resumed,
       Progressed (Decode (progress_new 0 (Done two_info)))])"
    by (simp add: two_calls_def two_step_def fused_controlled_def fused_new_def fused_step_controlled_def
        Let_def fused_resume_def guarded_new_def conclude_def settle_def progress_new_def two_facts_def
        facts_new_def facts_match_def two_info_def)
  from one_final_interpretation[OF all] show ?thesis using all by auto
qed

end
