(* ===== verification/Admission.thy ===== *)
theory Admission
  imports Incremental "HOL-Library.Product_Lexorder" "HOL-Library.Multiset"
begin

text \<open>
  What an input driver may hold and in which reads it fetches it:
  \<open>zencodec-io/src/admission.rs\<close> (the limits, the choice of a request, the plan of one batch of
  range reads, the storage for it), \<open>coalesce_into\<close> of \<open>zencodec-io/src/drive.rs\<close>, and
  \<open>zencodec-io/src/work_quota.rs\<close>. The allocator is an argument: asked for a capacity it refuses
  or says how much more than that it grants.
\<close>

subsection \<open>Limits\<close>

record io_limits =
  input_bytes :: nat
  ranges :: nat
  in_flight :: nat

definition limits_new :: "nat \<Rightarrow> nat \<Rightarrow> nat \<Rightarrow> io_limits" where
  "limits_new b r f = \<lparr> input_bytes = b, ranges = r, in_flight = f \<rparr>"

definition limits_unlimited :: io_limits where
  "limits_unlimited = limits_new usize_max usize_max usize_max"

datatype input_error =
    LimitHit nat nat
  | RangesDisabled
  | ReadsDisabled
  | Allocation nat

definition admit_bytes :: "io_limits \<Rightarrow> nat \<Rightarrow> input_error + nat" where
  "admit_bytes l needed =
     (if needed > input_bytes l then Err (LimitHit needed (input_bytes l))
      else ok_or (LimitHit needed (input_bytes l)) (try_into usize_max needed))"

definition admit_reading :: "io_limits \<Rightarrow> input_error + unit" where
  "admit_reading l = (if in_flight l = 0 then Err ReadsDisabled else Ok ())"

definition quota_new :: "nat \<Rightarrow> nat option" where
  "quota_new steps = (if steps = 0 then None else Some steps)"

definition quota_unlimited :: nat where
  "quota_unlimited = usize_max"

subsection \<open>Storage\<close>

record vec =
  vec_bytes :: "byte list"
  vec_cap :: nat

type_synonym alloc = "nat \<Rightarrow> nat option"

definition vec_empty :: vec where
  "vec_empty = \<lparr> vec_bytes = [], vec_cap = 0 \<rparr>"

definition wf_vec :: "vec \<Rightarrow> bool" where
  "wf_vec v \<longleftrightarrow> length (vec_bytes v) \<le> vec_cap v"

definition reserve :: "alloc \<Rightarrow> nat \<Rightarrow> vec \<Rightarrow> vec \<times> (input_error + unit)" where
  "reserve al want v =
     (if want - length (vec_bytes v) \<le> vec_cap v - length (vec_bytes v) then (v, Ok ())
      else case al want of
        None \<Rightarrow> (v, Err (Allocation want))
      | Some extra \<Rightarrow> (v\<lparr>vec_cap := want + extra\<rparr>, Ok ()))"

text \<open>\<open>reserve\<close> on a vector of elements of \<open>size\<close> bytes whose contents matter to nobody.\<close>

definition reserve_elements :: "alloc \<Rightarrow> nat \<Rightarrow> nat \<Rightarrow> input_error + unit" where
  "reserve_elements al bytes_each n =
     (case al n of None \<Rightarrow> Err (Allocation (saturating_mul usize_max n bytes_each)) | Some _ \<Rightarrow> Ok ())"

definition resize_zero :: "nat \<Rightarrow> vec \<Rightarrow> vec" where
  "resize_zero n v = v\<lparr>vec_bytes := take n (vec_bytes v) @ replicate (n - length (vec_bytes v)) 0\<rparr>"

lemma reserve_Ok:
  assumes "reserve al want v = (v', Ok u)" "wf_vec v"
  shows "want \<le> vec_cap v' \<and> vec_bytes v' = vec_bytes v \<and> vec_cap v \<le> vec_cap v' \<and> wf_vec v'"
  using assms by (auto simp: reserve_def wf_vec_def split: if_splits option.splits)

subsection \<open>Which request to serve\<close>

definition admit_request :: "io_limits \<Rightarrow> input_request \<Rightarrow> input_error + unit" where
  "admit_request l request = (case request of
     AtLeast offset min_len \<Rightarrow> and_then (admit_bytes l (max min_len 1)) (\<lambda>_. Ok ())
   | RangeOf r \<Rightarrow> and_then (admit_bytes l (br_length r)) (\<lambda>_.
       if ranges l = 0 then Err RangesDisabled else Ok ())
   | Len \<Rightarrow> Ok ())"

fun select_from :: "io_limits \<Rightarrow> input_error option \<Rightarrow> input_request list \<Rightarrow> input_error + input_request" where
  "select_from l first_error [] = Err (case first_error of None \<Rightarrow> RangesDisabled | Some e \<Rightarrow> e)"
| "select_from l first_error (request # requests) = (case admit_request l request of
     Inr _ \<Rightarrow> Ok request
   | Inl e \<Rightarrow> select_from l (case first_error of None \<Rightarrow> Some e | Some _ \<Rightarrow> first_error) requests)"

definition select :: "io_limits \<Rightarrow> input_request list \<Rightarrow> input_error + input_request" where
  "select l requests = select_from l None requests"

lemma select_from_Ok:
  "select_from l e requests = Ok r \<longleftrightarrow>
    (\<exists>before after. requests = before @ r # after \<and> is_ok (admit_request l r)
      \<and> (\<forall>q \<in> set before. \<not> is_ok (admit_request l q)))"
proof (induction requests arbitrary: e)
  case (Cons q qs)
  show ?case
  proof (cases "admit_request l q")
    case (Inl x)
    have "(\<exists>before after. q # qs = before @ r # after \<and> is_ok (admit_request l r)
        \<and> (\<forall>p \<in> set before. \<not> is_ok (admit_request l p)))
      \<longleftrightarrow> (\<exists>before after. qs = before @ r # after \<and> is_ok (admit_request l r)
        \<and> (\<forall>p \<in> set before. \<not> is_ok (admit_request l p)))" (is "?L \<longleftrightarrow> ?R")
    proof
      assume ?L
      then obtain before after where b: "q # qs = before @ r # after" "is_ok (admit_request l r)"
        "\<forall>p \<in> set before. \<not> is_ok (admit_request l p)" by blast
      then show ?R using Inl by (cases before) auto
    next
      assume ?R
      then obtain before after where b: "qs = before @ r # after" "is_ok (admit_request l r)"
        "\<forall>p \<in> set before. \<not> is_ok (admit_request l p)" by blast
      then show ?L using Inl by (intro exI[of _ "q # before"] exI[of _ after]) auto
    qed
    with Cons.IH Inl show ?thesis by simp
  next
    case (Inr x)
    then have "(\<exists>before after. q # qs = before @ r # after \<and> is_ok (admit_request l r)
        \<and> (\<forall>p \<in> set before. \<not> is_ok (admit_request l p))) \<longleftrightarrow> q = r"
      by (auto simp: Cons_eq_append_conv)
    with Inr show ?thesis by auto
  qed
qed simp

lemma select_Ok: "select l requests = Ok r \<Longrightarrow> r \<in> set requests \<and> is_ok (admit_request l r)"
  by (auto simp: select_def select_from_Ok)

subsection \<open>Merging sorted ranges\<close>

definition by_offset :: "byte_range list \<Rightarrow> byte_range list" where
  "by_offset = sort_key (\<lambda>r. (br_offset r, br_length r))"

definition join :: "byte_range \<Rightarrow> byte_range \<Rightarrow> byte_range" where
  "join a b = a\<lparr>br_length := max (range_end a) (range_end b) - br_offset a\<rparr>"

text \<open>The loop of \<open>coalesce_into\<close>: \<open>current\<close> is \<open>out[write]\<close>, what comes before it is final.\<close>

fun merge_within :: "nat \<Rightarrow> byte_range \<Rightarrow> byte_range list \<Rightarrow> byte_range list" where
  "merge_within gap current [] = [current]"
| "merge_within gap current (r # rs) =
     (if br_offset r \<le> saturating_add u64_max (range_end current) gap
      then merge_within gap (join current r) rs
      else current # merge_within gap r rs)"

definition coalesce_into :: "byte_range list \<Rightarrow> nat \<Rightarrow> byte_range list" where
  "coalesce_into rs max_gap = (case by_offset (filter (\<lambda>r. \<not> range_is_empty r) rs) of
     [] \<Rightarrow> [] | r # rs \<Rightarrow> merge_within max_gap r rs)"

text \<open>
  The loop of \<open>plan\<close>, which also keeps \<open>bytes\<close>, the sum of the lengths, inside the allowance.
  An underflow of that sum would be a panic, here \<open>None\<close>.
\<close>

fun merge_admitted :: "nat \<Rightarrow> nat \<Rightarrow> nat \<Rightarrow> byte_range \<Rightarrow> byte_range list \<Rightarrow> byte_range list option" where
  "merge_admitted gap allowance bytes current [] = Some [current]"
| "merge_admitted gap allowance bytes current (r # rs) =
     (if br_offset r \<le> saturating_add u64_max (range_end current) gap
        \<and> br_offset r - range_end current \<le> allowance - bytes
      then if bytes < br_length current + br_length r then None
        else merge_admitted gap allowance
               (bytes - br_length current - br_length r + br_length (join current r)) (join current r) rs
      else map_option (Cons current) (merge_admitted gap allowance bytes r rs))"

fun admit_ranges :: "io_limits \<Rightarrow> byte_range \<Rightarrow> byte_range list \<Rightarrow> nat \<Rightarrow> input_request list
    \<Rightarrow> byte_range list \<times> nat" where
  "admit_ranges l first out bytes [] = (out, bytes)"
| "admit_ranges l first out bytes (RangeOf r # requests) =
     (if range_is_empty r \<or> r = first \<or> length out = ranges l
      then admit_ranges l first out bytes requests
      else case checked_add u64_max bytes (br_length r) of
        None \<Rightarrow> admit_ranges l first out bytes requests
      | Some sm \<Rightarrow>
          if sm \<le> input_bytes l then admit_ranges l first (out @ [r]) sm requests
          else admit_ranges l first out bytes requests)"
| "admit_ranges l first out bytes (_ # requests) = admit_ranges l first out bytes requests"

definition plan :: "alloc \<Rightarrow> byte_range \<Rightarrow> input_request list \<Rightarrow> nat \<Rightarrow> io_limits
    \<Rightarrow> (input_error + byte_range list) option" where
  "plan al first requests gap l =
     (case and_then (admit_reading l) (\<lambda>_. and_then (admit_bytes l (br_length first)) (\<lambda>_.
           if ranges l = 0 then Err RangesDisabled
           else reserve_elements al 16 (min (length requests) (ranges l)))) of
        Inl e \<Rightarrow> Some (Err e)
      | Inr _ \<Rightarrow> (case admit_ranges l first [first] (br_length first) requests of
          (out, bytes) \<Rightarrow> (case by_offset out of
            [] \<Rightarrow> Some (Ok [])
          | r # rs \<Rightarrow> map_option Ok (merge_admitted gap (input_bytes l) bytes r rs))))"

subsection \<open>Copies and storage of a round\<close>

definition copy_requests :: "alloc \<Rightarrow> nat \<Rightarrow> io_limits \<Rightarrow> input_request list \<Rightarrow> input_error + input_request list" where
  "copy_requests al request_size l requests =
     and_then (select l requests) (\<lambda>first.
     let is_range = (case first of RangeOf _ \<Rightarrow> True | _ \<Rightarrow> False);
         count = (if is_range then min (length requests) (ranges l) else 1)
     in and_then (reserve_elements al request_size count) (\<lambda>_.
        Ok (if is_range
            then first # take (count - 1) (filter (\<lambda>r. r \<noteq> first \<and>
              (case r of RangeOf b \<Rightarrow> br_length b \<le> input_bytes l | _ \<Rightarrow> False)) requests)
            else [first])))"

type_synonym fetched = "(nat \<times> vec) list"

definition fetched_capacity :: "fetched \<Rightarrow> nat" where
  "fetched_capacity fs = fold (\<lambda>(_, v) s. saturating_add usize_max s (vec_cap v)) fs 0"

definition make_room :: "nat \<Rightarrow> fetched \<Rightarrow> nat \<Rightarrow> io_limits \<Rightarrow> fetched" where
  "make_room window_capacity fs target l =
     (if saturating_add usize_max (fetched_capacity fs) (max window_capacity target) > input_bytes l
      then [] else fs)"

fun allocate_each :: "alloc \<Rightarrow> io_limits \<Rightarrow> nat \<Rightarrow> byte_range list \<Rightarrow> fetched
    \<Rightarrow> fetched \<times> (input_error + unit)" where
  "allocate_each al l used (r # rs) ((offset, v) # fs) =
     (case admit_bytes l (br_length r) of
        Inl e \<Rightarrow> ((offset, v) # fs, Err e)
      | Inr len \<Rightarrow> (case reserve al len v of
          (v', Inl e) \<Rightarrow> ((br_offset r, v') # fs, Err e)
        | (v', Inr _) \<Rightarrow>
            let used = saturating_add usize_max used (vec_cap v') in
            case admit_bytes l used of
              Inl e \<Rightarrow> ((br_offset r, v') # fs, Err e)
            | Inr _ \<Rightarrow> (case allocate_each al l used rs fs of
                (fs', res) \<Rightarrow> ((br_offset r, resize_zero len v') # fs', res))))"
| "allocate_each al l used _ fs = (fs, Ok ())"

definition reusable :: "byte_range list \<Rightarrow> fetched \<Rightarrow> nat" where
  "reusable rs fs = fold (\<lambda>(i, r) s. saturating_add usize_max s
      (max (if i < length fs then vec_cap (snd (fs ! i)) else 0) (br_length r)))
      (enumerate 0 rs) 0"

definition allocate_ranges :: "alloc \<Rightarrow> nat \<Rightarrow> byte_range list \<Rightarrow> io_limits \<Rightarrow> fetched
    \<Rightarrow> fetched \<times> (input_error + unit)" where
  "allocate_ranges al entry_size rs l fs =
     (let fs = take (length rs) fs;
          fs = (if reusable rs fs > input_bytes l then [] else fs)
      in case reserve_elements al entry_size (length rs) of
           Inl e \<Rightarrow> (fs, Err e)
         | Inr _ \<Rightarrow> allocate_each al l 0 rs (fs @ replicate (length rs - length fs) (0, vec_empty)))"

subsection \<open>What merging keeps\<close>

definition inside :: "byte_range \<Rightarrow> byte_range \<Rightarrow> bool" where
  "inside r out \<longleftrightarrow> br_offset out \<le> br_offset r \<and> range_end r \<le> range_end out"

text \<open>A byte is asked for, or lies in a gap of at most \<open>gap\<close> bytes between two ranges asked for.\<close>

definition wanted :: "nat \<Rightarrow> byte_range set \<Rightarrow> nat \<Rightarrow> bool" where
  "wanted gap rs x \<longleftrightarrow> (\<exists>r \<in> rs. range_contains r x)
     \<or> (\<exists>a \<in> rs. \<exists>b \<in> rs. range_end a \<le> x \<and> x < br_offset b \<and> br_offset b \<le> range_end a + gap)"

text \<open>Both loops merge a range only when the gap allows it and keep it apart only when it is disjoint.\<close>

inductive merging :: "nat \<Rightarrow> byte_range \<Rightarrow> byte_range list \<Rightarrow> byte_range list \<Rightarrow> bool" for gap where
  last: "merging gap c [] [c]"
| joined: "br_offset r \<le> saturating_add u64_max (range_end c) gap \<Longrightarrow> merging gap (join c r) rs out
    \<Longrightarrow> merging gap c (r # rs) out"
| apart: "range_end c < br_offset r \<Longrightarrow> merging gap r rs out \<Longrightarrow> merging gap c (r # rs) (c # out)"

lemma range_end_le: "range_end r \<le> u64_max" "range_end r \<le> br_offset r + br_length r"
  by (simp_all add: range_end_def saturating_add_def)

lemma join_offset [simp]: "br_offset (join a b) = br_offset a"
  by (simp add: join_def)

lemma join_end:
  assumes "br_offset a \<le> u64_max"
  shows "range_end (join a b) = max (range_end a) (range_end b)"
proof -
  have "br_offset a \<le> range_end a" using assms by (simp add: range_end_def saturating_add_def)
  then have "br_offset a + br_length (join a b) = max (range_end a) (range_end b)"
    by (simp add: join_def)
  then show ?thesis
    using range_end_le(1)[of a] range_end_le(1)[of b]
    by (simp add: range_end_def[of "join a b"] saturating_add_def)
qed

lemma wanted_join:
  assumes "wanted gap (insert (join c r) rs) x" "br_offset c \<le> br_offset r" "br_offset c \<le> u64_max"
    "br_offset r \<le> saturating_add u64_max (range_end c) gap"
  shows "wanted gap (insert c (insert r rs)) x"
proof -
  note e = join_end[OF assms(3), of r]
  have g: "br_offset r \<le> range_end c + gap" using assms(4) by (simp add: saturating_add_def)
  consider q where "q \<in> insert (join c r) rs" "range_contains q x"
    | a b where "a \<in> insert (join c r) rs" "b \<in> insert (join c r) rs"
      "range_end a \<le> x" "x < br_offset b" "br_offset b \<le> range_end a + gap"
    using assms(1) unfolding wanted_def by blast
  then show ?thesis
  proof cases
    case 1
    then have "q \<in> rs \<or> range_contains c x \<or> range_contains r x \<or> (range_end c \<le> x \<and> x < br_offset r)"
      using e by (auto simp: range_contains_def)
    then show ?thesis using g 1 unfolding wanted_def by blast
  next
    case 2
    define a' where "a' = (if a = join c r then if range_end c \<le> range_end r then r else c else a)"
    define b' where "b' = (if b = join c r then c else b)"
    have "a' \<in> insert c (insert r rs)" "b' \<in> insert c (insert r rs)"
      "range_end a' = range_end a" "br_offset b' = br_offset b"
      using 2(1,2) e by (auto simp: a'_def b'_def)
    then show ?thesis using 2(3-5) unfolding wanted_def by metis
  qed
qed

lemma wanted_mono: "wanted gap rs x \<Longrightarrow> rs \<subseteq> qs \<Longrightarrow> wanted gap qs x"
  unfolding wanted_def by blast

lemma merging_sound:
  assumes "merging gap c rs out" "sorted (map br_offset (c # rs))" "\<forall>r \<in> set (c # rs). br_offset r \<le> u64_max"
  shows "(\<forall>q \<in> set out. br_offset c \<le> br_offset q)
    \<and> sorted_wrt (\<lambda>a b. range_end a < br_offset b) out
    \<and> (\<forall>r \<in> set (c # rs). \<exists>q \<in> set out. inside r q)
    \<and> (\<forall>q \<in> set out. \<forall>x. range_contains q x \<longrightarrow> wanted gap (set (c # rs)) x)
    \<and> length out \<le> length (c # rs)"
  using assms
proof (induction rule: merging.induct)
  case (last c)
  then show ?case by (auto simp: inside_def wanted_def)
next
  case (joined r c rs out)
  then have le: "br_offset c \<le> br_offset r" "br_offset c \<le> u64_max" by auto
  have IH: "\<forall>q \<in> set out. br_offset c \<le> br_offset q"
    "sorted_wrt (\<lambda>a b. range_end a < br_offset b) out"
    "\<forall>r \<in> set (join c r # rs). \<exists>q \<in> set out. inside r q"
    "\<forall>q \<in> set out. \<forall>x. range_contains q x \<longrightarrow> wanted gap (set (join c r # rs)) x"
    "length out \<le> length (join c r # rs)"
    using joined by auto
  have "\<forall>q \<in> set out. \<forall>x. range_contains q x \<longrightarrow> wanted gap (set (c # r # rs)) x"
    using IH(4) wanted_join[OF _ le joined.hyps(1)] by simp
  moreover obtain q where "q \<in> set out" "inside (join c r) q" using IH(3) by auto
  then have "q \<in> set out" "inside c q" "inside r q"
    using le join_end[OF le(2), of r] by (auto simp: inside_def)
  ultimately show ?case using IH by auto
next
  case (apart c r rs out)
  then have IH: "\<forall>q \<in> set out. br_offset r \<le> br_offset q"
    "sorted_wrt (\<lambda>a b. range_end a < br_offset b) out"
    "\<forall>r \<in> set (r # rs). \<exists>q \<in> set out. inside r q"
    "\<forall>q \<in> set out. \<forall>x. range_contains q x \<longrightarrow> wanted gap (set (r # rs)) x"
    "length out \<le> length (r # rs)" "br_offset c \<le> br_offset r"
    by auto
  have "wanted gap (set (r # rs)) x \<Longrightarrow> wanted gap (set (c # r # rs)) x" for x
    by (erule wanted_mono) auto
  moreover have "range_contains c x \<Longrightarrow> wanted gap (set (c # r # rs)) x" for x
    by (auto simp: wanted_def)
  moreover have "inside c c" by (simp add: inside_def)
  ultimately show ?case using IH apart.hyps(1) by fastforce
qed

lemma merging_offsets: "merging gap c rs out \<Longrightarrow> br_offset ` set out \<subseteq> br_offset ` set (c # rs)"
  by (induction rule: merging.induct) auto

lemma merge_within_merging: "merging gap c rs (merge_within gap c rs)"
proof (induction gap c rs rule: merge_within.induct)
  case (2 gap c r rs)
  then show ?case
    using range_end_le(1)[of c]
    by (auto simp: saturating_add_def not_le intro!: merging.joined merging.apart)
qed (simp add: merging.last)

lemma by_offset_sorted: "sorted (map br_offset (by_offset rs))"
proof -
  have "sorted (map (\<lambda>r. (br_offset r, br_length r)) (by_offset rs))" by (simp add: by_offset_def)
  then show ?thesis unfolding sorted_wrt_map by (rule sorted_wrt_mono_rel[rotated]) auto
qed

lemma by_offset_set [simp]: "set (by_offset rs) = set rs" "length (by_offset rs) = length rs"
  by (simp_all add: by_offset_def)

subsection \<open>Coalescing\<close>

lemma coalesce_into_cases:
  obtains (none) "filter (\<lambda>r. \<not> range_is_empty r) rs = []" "coalesce_into rs gap = []"
  | (some) c cs where "by_offset (filter (\<lambda>r. \<not> range_is_empty r) rs) = c # cs"
      "coalesce_into rs gap = merge_within gap c cs"
      "set (c # cs) = {r \<in> set rs. \<not> range_is_empty r}"
proof (cases "by_offset (filter (\<lambda>r. \<not> range_is_empty r) rs)")
  case Nil
  then have "filter (\<lambda>r. \<not> range_is_empty r) rs = []" by (metis by_offset_set(2) length_0_conv)
  then show thesis using Nil none by (simp add: coalesce_into_def)
next
  case (Cons c cs)
  then have "set (c # cs) = {r \<in> set rs. \<not> range_is_empty r}" by (metis by_offset_set(1) set_filter)
  then show thesis using Cons some by (simp add: coalesce_into_def)
qed

lemma merge_within_separated:
  assumes "sorted (map br_offset (c # rs))" "\<forall>r \<in> set (c # rs). br_offset r \<le> u64_max"
  shows "sorted_wrt (\<lambda>a b. saturating_add u64_max (range_end a) gap < br_offset b) (merge_within gap c rs)"
  using assms
proof (induction gap c rs rule: merge_within.induct)
  case (2 gap c r rs)
  show ?case
  proof (cases "br_offset r \<le> saturating_add u64_max (range_end c) gap")
    case True
    then show ?thesis using 2 by auto
  next
    case False
    have "\<forall>q \<in> set (merge_within gap r rs). br_offset r \<le> br_offset q"
      using merging_sound[OF merge_within_merging[of gap r rs]] 2(3,4) by auto
    then show ?thesis using 2 False by fastforce
  qed
qed simp

lemma coalesce_sound:
  assumes "\<forall>r \<in> set rs. br_offset r \<le> u64_max"
  shows "r \<in> set rs \<Longrightarrow> \<not> range_is_empty r \<Longrightarrow> \<exists>q \<in> set (coalesce_into rs gap). inside r q"
    and "sorted_wrt (\<lambda>a b. saturating_add u64_max (range_end a) gap < br_offset b) (coalesce_into rs gap)"
    and "q \<in> set (coalesce_into rs gap) \<Longrightarrow> range_contains q x \<Longrightarrow> wanted gap (set rs) x"
proof -
  have "(\<forall>r \<in> set rs. \<not> range_is_empty r \<longrightarrow> (\<exists>q \<in> set (coalesce_into rs gap). inside r q))
    \<and> sorted_wrt (\<lambda>a b. saturating_add u64_max (range_end a) gap < br_offset b) (coalesce_into rs gap)
    \<and> (\<forall>q \<in> set (coalesce_into rs gap). \<forall>x. range_contains q x \<longrightarrow> wanted gap (set rs) x)"
  proof (cases rule: coalesce_into_cases[of rs gap])
    case none
    then show ?thesis by (auto simp: filter_empty_conv)
  next
    case (some c cs)
    have sorted: "sorted (map br_offset (c # cs))" using by_offset_sorted some(1) by metis
    have bounded: "\<forall>r \<in> set (c # cs). br_offset r \<le> u64_max" using assms some(3) by auto
    have "set (c # cs) \<subseteq> set rs" using some(3) by auto
    then have mono: "wanted gap (set (c # cs)) x \<Longrightarrow> wanted gap (set rs) x" for x by (rule wanted_mono[rotated])
    have all: "r \<in> set rs \<Longrightarrow> \<not> range_is_empty r \<Longrightarrow> r \<in> set (c # cs)" for r using some(3) by simp
    note sound = merging_sound[OF merge_within_merging[of gap] sorted bounded]
    show ?thesis unfolding some(2)
      using sound merge_within_separated[OF sorted bounded, of gap] mono all by blast
  qed
  then show "r \<in> set rs \<Longrightarrow> \<not> range_is_empty r \<Longrightarrow> \<exists>q \<in> set (coalesce_into rs gap). inside r q"
    and "sorted_wrt (\<lambda>a b. saturating_add u64_max (range_end a) gap < br_offset b) (coalesce_into rs gap)"
    and "q \<in> set (coalesce_into rs gap) \<Longrightarrow> range_contains q x \<Longrightarrow> wanted gap (set rs) x"
    by blast+
qed

lemma wanted_no_gap: "wanted 0 rs x \<longleftrightarrow> (\<exists>r \<in> rs. range_contains r x)"
  unfolding wanted_def by fastforce

lemma inside_contains: "inside r q \<Longrightarrow> range_contains r x \<Longrightarrow> range_contains q x"
  by (simp add: inside_def range_contains_def)

lemma contains_nonempty: "range_contains r x \<Longrightarrow> \<not> range_is_empty r"
  by (auto simp: range_contains_def range_is_empty_def range_end_def saturating_add_def)

text \<open>
  C25: \<open>coalesce_into\<close> (drive.rs:91-110), for any list of ranges, overlapping, adjacent or
  repeated, puts every nonempty range inside one of its reads; the reads are in order and
  further apart than the gap; and every byte they fetch was asked for or lies in a gap between
  two requested ranges that is no wider than \<open>max_gap\<close>. With a gap of zero exactly the
  bytes asked for are fetched, each once.
\<close>

theorem coalesce_exact:
  assumes "\<forall>r \<in> set rs. br_offset r \<le> u64_max"
  shows "(\<forall>r \<in> set rs. \<not> range_is_empty r \<longrightarrow> (\<exists>q \<in> set (coalesce_into rs gap). inside r q))
    \<and> sorted_wrt (\<lambda>a b. saturating_add u64_max (range_end a) gap < br_offset b) (coalesce_into rs gap)
    \<and> (\<forall>q \<in> set (coalesce_into rs gap). \<forall>x. range_contains q x \<longrightarrow> wanted gap (set rs) x)
    \<and> ((\<exists>q \<in> set (coalesce_into rs 0). range_contains q x) \<longleftrightarrow> (\<exists>r \<in> set rs. range_contains r x))"
proof (intro conjI iffI)
  note sound = coalesce_sound[OF assms]
  show "\<forall>r \<in> set rs. \<not> range_is_empty r \<longrightarrow> (\<exists>q \<in> set (coalesce_into rs gap). inside r q)"
    using sound(1) by blast
  show "sorted_wrt (\<lambda>a b. saturating_add u64_max (range_end a) gap < br_offset b) (coalesce_into rs gap)"
    by (rule sound(2))
  show "\<forall>q \<in> set (coalesce_into rs gap). \<forall>x. range_contains q x \<longrightarrow> wanted gap (set rs) x"
    using sound(3) by blast
  show "\<exists>q \<in> set (coalesce_into rs 0). range_contains q x \<Longrightarrow> \<exists>r \<in> set rs. range_contains r x"
    using sound(3)[where gap = 0] by (auto simp: wanted_no_gap)
  show "\<exists>r \<in> set rs. range_contains r x \<Longrightarrow> \<exists>q \<in> set (coalesce_into rs 0). range_contains q x"
    using sound(1)[where gap = 0] contains_nonempty inside_contains by metis
qed

theorem coalesce_exact_witness:
  "coalesce_into [range_new 500 100, range_new 100 50, range_new 180 20] 64 = [range_new 100 100, range_new 500 100]
   \<and> wanted 64 {range_new 500 100, range_new 100 50, range_new 180 20} 160"
proof -
  let ?rs = "[range_new 500 100, range_new 100 50, range_new 180 20]"
  have run: "coalesce_into ?rs 64 = [range_new 100 100, range_new 500 100]"
    by (simp add: coalesce_into_def range_is_empty_def range_new_def by_offset_def range_end_def
        join_def width_eval)
  have "range_contains (range_new 100 100) 160"
    by (simp add: range_contains_def range_new_def range_end_def saturating_add_def u64_max_def)
  moreover have "\<forall>r \<in> set ?rs. br_offset r \<le> u64_max" by (simp add: range_new_def u64_max_def)
  ultimately show ?thesis using coalesce_exact[of ?rs 64] run by simp
qed

subsection \<open>The plan of a round\<close>

lemma join_length: "br_length (join c r) \<le> br_length c + br_length r + (br_offset r - range_end c)"
  using range_end_le(2)[of c] range_end_le(2)[of r] by (auto simp: join_def)

lemma merge_admitted_total:
  assumes "br_length c + sum_list (map br_length rs) \<le> bytes" "\<forall>r \<in> set rs. br_offset r \<le> u64_max"
  shows "\<exists>out. merge_admitted gap allowance bytes c rs = Some out \<and> merging gap c rs out
    \<and> (bytes \<le> allowance \<longrightarrow>
       sum_list (map br_length out) + bytes \<le> allowance + br_length c + sum_list (map br_length rs))"
  using assms
proof (induction rs arbitrary: c bytes)
  case Nil
  then show ?case by (auto intro: merging.last)
next
  case (Cons r rs)
  show ?case
  proof (cases "br_offset r \<le> saturating_add u64_max (range_end c) gap
      \<and> br_offset r - range_end c \<le> allowance - bytes")
    case True
    let ?bytes = "bytes - br_length c - br_length r + br_length (join c r)"
    have "br_length (join c r) + sum_list (map br_length rs) \<le> ?bytes" using Cons.prems(1) by simp
    then obtain out where out: "merge_admitted gap allowance ?bytes (join c r) rs = Some out"
      "merging gap (join c r) rs out" "?bytes \<le> allowance \<longrightarrow>
        sum_list (map br_length out) + ?bytes
          \<le> allowance + br_length (join c r) + sum_list (map br_length rs)"
      using Cons.IH[of "join c r" ?bytes] Cons.prems(2) by (meson list.set_intros(2))
    have "sum_list (map br_length out) + bytes
        \<le> allowance + br_length c + (br_length r + sum_list (map br_length rs))" if "bytes \<le> allowance"
      using out(3) True Cons.prems(1) join_length[of c r] that by auto
    then show ?thesis using out(1,2) True Cons.prems(1) by (auto intro: merging.joined)
  next
    case False
    then have apart: "range_end c < br_offset r"
      using range_end_le(1)[of c] Cons.prems(2) by (auto simp: saturating_add_def)
    obtain out where out: "merge_admitted gap allowance bytes r rs = Some out"
      "merging gap r rs out" "bytes \<le> allowance \<longrightarrow>
        sum_list (map br_length out) + bytes \<le> allowance + br_length r + sum_list (map br_length rs)"
      using Cons.IH[of r bytes] Cons.prems by auto
    have "merge_admitted gap allowance bytes c (r # rs) = Some (c # out)" using out(1) False by auto
    then show ?thesis using out apart by (auto intro: merging.apart)
  qed
qed

lemma admit_ranges_sound:
  assumes "admit_ranges l first out bytes requests = (out', bytes')"
    "bytes = sum_list (map br_length out)" "bytes \<le> input_bytes l" "length out \<le> ranges l"
  shows "set out \<subseteq> set out' \<and> set out' \<subseteq> set out \<union> {r. RangeOf r \<in> set requests}
    \<and> bytes' = sum_list (map br_length out') \<and> bytes' \<le> input_bytes l \<and> length out' \<le> ranges l"
  using assms
  by (induction l first out bytes requests rule: admit_ranges.induct)
    (fastforce split: if_splits option.splits)+

definition requested_ranges :: "byte_range \<Rightarrow> input_request list \<Rightarrow> byte_range set" where
  "requested_ranges first requests = insert first {r. RangeOf r \<in> set requests}"

definition plan_ok :: "byte_range \<Rightarrow> input_request list \<Rightarrow> nat \<Rightarrow> io_limits \<Rightarrow> byte_range list \<Rightarrow> bool" where
  "plan_ok first requests gap l out \<longleftrightarrow>
     length out \<le> ranges l \<and> sum_list (map br_length out) \<le> input_bytes l
     \<and> (\<exists>q \<in> set out. inside first q)
     \<and> sorted_wrt (\<lambda>a b. range_end a < br_offset b) out
     \<and> (\<forall>q \<in> set out. \<forall>x. range_contains q x \<longrightarrow> wanted gap (requested_ranges first requests) x)"

lemma plan_total:
  assumes "\<forall>r \<in> requested_ranges first requests. br_offset r \<le> u64_max"
  shows "case plan al first requests gap l of
      None \<Rightarrow> False | Some (Inl e) \<Rightarrow> True
    | Some (Inr out) \<Rightarrow> plan_ok first requests gap l out
        \<and> br_offset ` set out \<subseteq> br_offset ` requested_ranges first requests \<and> in_flight l \<noteq> 0"
proof (cases "and_then (admit_reading l) (\<lambda>_. and_then (admit_bytes l (br_length first)) (\<lambda>_.
           if ranges l = 0 then Err RangesDisabled
           else reserve_elements al 16 (min (length requests) (ranges l))))")
  case (Inl e)
  then show ?thesis by (simp add: plan_def)
next
  case (Inr u)
  then have limits: "br_length first \<le> input_bytes l" "1 \<le> ranges l" "in_flight l \<noteq> 0"
    by (auto simp: admit_bytes_def admit_reading_def split: if_splits)
  obtain out bytes where admitted: "admit_ranges l first [first] (br_length first) requests = (out, bytes)"
    by fastforce
  from admit_ranges_sound[OF admitted] limits have out: "first \<in> set out"
    "set out \<subseteq> requested_ranges first requests" "bytes = sum_list (map br_length out)"
    "bytes \<le> input_bytes l" "length out \<le> ranges l"
    by (auto simp: requested_ranges_def)
  obtain c rs where sorted: "by_offset out = c # rs"
    using out(1) by (metis by_offset_set(1) empty_iff empty_set neq_Nil_conv)
  then have set: "set (c # rs) = set out" and len: "length (c # rs) = length out"
    by (metis by_offset_set(1), metis by_offset_set(2))
  have "mset (map br_length (c # rs)) = mset (map br_length out)"
    using sorted by (metis by_offset_def mset_map mset_sort)
  then have bytes: "bytes = br_length c + sum_list (map br_length rs)"
    using out(3) by (metis list.simps(9) sum_list.Cons sum_mset_sum_list)
  have bounded: "\<forall>r \<in> set (c # rs). br_offset r \<le> u64_max" using set out(2) assms by blast
  obtain final where final: "merge_admitted gap (input_bytes l) bytes c rs = Some final"
    "merging gap c rs final" "sum_list (map br_length final) \<le> input_bytes l"
    using merge_admitted_total[of c rs bytes gap "input_bytes l"] bytes out(4) bounded by auto
  have "plan al first requests gap l = Some (Ok final)"
    by (simp add: plan_def Inr admitted sorted final(1))
  moreover have "plan_ok first requests gap l final
      \<and> br_offset ` set final \<subseteq> br_offset ` requested_ranges first requests"
  proof -
    have "sorted (map br_offset (c # rs))" using by_offset_sorted sorted by metis
    note sound = merging_sound[OF final(2) this bounded]
    moreover have "wanted gap (set (c # rs)) x \<Longrightarrow> wanted gap (requested_ranges first requests) x" for x
      using wanted_mono out(2) set by blast
    moreover have "first \<in> set (c # rs)" using set out(1) by simp
    moreover have "length final \<le> ranges l" using sound len out(5) by linarith
    moreover have "br_offset ` set final \<subseteq> br_offset ` requested_ranges first requests"
      using merging_offsets[OF final(2)] set out(2) by blast
    ultimately show ?thesis using final(3) unfolding plan_ok_def by blast
  qed
  ultimately show ?thesis using limits(3) by simp
qed

text \<open>
  C10: \<open>plan\<close> (admission.rs:170-221), given requests whose ends are addresses, never panics. A plan
  it returns is within every limit: at most \<open>ranges\<close> reads and at most \<open>input_bytes\<close> bytes
  together, gaps included. It fetches the selected request whole, in one of its reads;
  the reads are disjoint and in order; and every byte of them was requested or lies in a gap between
  requested ranges no wider than the gap allowed.
\<close>

theorem plan_admits:
  assumes "\<forall>r \<in> requested_ranges first requests. br_offset r \<le> u64_max"
  shows "case plan al first requests gap l of
      None \<Rightarrow> False | Some (Inl e) \<Rightarrow> True | Some (Inr out) \<Rightarrow> plan_ok first requests gap l out"
  using plan_total[OF assms, where al = al and gap = gap and l = l] by (auto split: option.splits sum.splits)

theorem plan_admits_witness:
  "\<exists>out. plan Some (range_new 6 2) [RangeOf (range_new 6 2), RangeOf (range_new 0 4)] 2 (limits_new 8 2 1) = Some (Ok out)
     \<and> out = [range_new 0 8]
     \<and> plan_ok (range_new 6 2) [RangeOf (range_new 6 2), RangeOf (range_new 0 4)] 2 (limits_new 8 2 1) out"
proof -
  let ?requests = "[RangeOf (range_new 6 2), RangeOf (range_new 0 4)]"
  have run: "plan Some (range_new 6 2) ?requests 2 (limits_new 8 2 1) = Some (Ok [range_new 0 8])"
    by (simp add: plan_def admit_reading_def limits_new_def admit_bytes_def reserve_elements_def
        range_new_def range_is_empty_def by_offset_def range_end_def join_def width_eval)
  have "\<forall>r \<in> requested_ranges (range_new 6 2) ?requests. br_offset r \<le> u64_max"
    by (auto simp: requested_ranges_def range_new_def u64_max_def)
  from plan_admits[OF this, where al = Some and gap = 2 and l = "limits_new 8 2 1"] show ?thesis
    by (simp add: run del: One_nat_def)
qed

subsection \<open>Storage of a round\<close>

definition prepared :: "byte_range \<Rightarrow> nat \<times> vec \<Rightarrow> bool" where
  "prepared r entry \<longleftrightarrow> fst entry = br_offset r \<and> length (vec_bytes (snd entry)) = br_length r \<and> wf_vec (snd entry)"

lemma admit_bytes_Ok: "admit_bytes l n = Ok m \<longleftrightarrow> m = n \<and> n \<le> input_bytes l \<and> n \<le> usize_max"
  by (auto simp: admit_bytes_def)

lemma allocate_each_Ok:
  assumes "allocate_each al l used rs fs = (fs', Ok u)" "length fs = length rs" "\<forall>(x, v) \<in> set fs. wf_vec v"
    "used \<le> input_bytes l"
  shows "list_all2 prepared rs fs'
    \<and> fold (\<lambda>(_, v) s. saturating_add usize_max s (vec_cap v)) fs' used \<le> input_bytes l"
  using assms
proof (induction al l used rs fs arbitrary: fs' rule: allocate_each.induct)
  case (1 al l used r rs offset v fs)
  from 1(2) obtain len v' rest where steps: "admit_bytes l (br_length r) = Ok len"
    "reserve al len v = (v', Ok ())"
    "admit_bytes l (saturating_add usize_max used (vec_cap v')) = Ok (saturating_add usize_max used (vec_cap v'))"
    "allocate_each al l (saturating_add usize_max used (vec_cap v')) rs fs = (rest, Ok u)"
    "fs' = (br_offset r, resize_zero len v') # rest"
    by (auto simp: Let_def admit_bytes_Ok split: sum.splits prod.splits)
  have v': "wf_vec v'" "len \<le> vec_cap v'" using reserve_Ok[OF steps(2)] 1(4) by auto
  have "prepared r (br_offset r, resize_zero len v')"
    using v' steps(1) by (auto simp: prepared_def resize_zero_def wf_vec_def admit_bytes_Ok)
  moreover have "list_all2 prepared rs rest \<and> fold (\<lambda>(_, v) s. saturating_add usize_max s (vec_cap v)) rest
      (saturating_add usize_max used (vec_cap v')) \<le> input_bytes l"
    using 1(1)[OF steps(1) steps(2)[symmetric] refl _ steps(3) steps(4)] 1(3,4) steps(3)
    by (auto simp: admit_bytes_Ok)
  ultimately show ?case unfolding steps(5) by (simp add: resize_zero_def)
qed auto

lemma allocate_ranges_Ok:
  assumes "allocate_ranges al m rs l fs = (fs', Ok u)" "\<forall>(x, v) \<in> set fs. wf_vec v"
  shows "list_all2 prepared rs fs' \<and> fetched_capacity fs' \<le> input_bytes l"
proof -
  define fs1 where "fs1 = (if reusable rs (take (length rs) fs) > input_bytes l then [] else take (length rs) fs)"
  have run: "allocate_each al l 0 rs (fs1 @ replicate (length rs - length fs1) (0, vec_empty)) = (fs', Ok u)"
    using assms(1)
    by (cases "input_bytes l < reusable rs (take (length rs) fs)")
      (simp_all add: allocate_ranges_def Let_def fs1_def split: sum.splits)
  have len: "length (fs1 @ replicate (length rs - length fs1) (0, vec_empty)) = length rs"
    by (simp add: fs1_def)
  have "set fs1 \<subseteq> set fs" by (auto simp: fs1_def dest: in_set_takeD)
  then have wf: "\<forall>(x, v) \<in> set (fs1 @ replicate (length rs - length fs1) (0, vec_empty)). wf_vec v"
    using assms(2) by (auto simp: wf_vec_def vec_empty_def)
  from allocate_each_Ok[OF run len wf] show ?thesis by (simp add: fetched_capacity_def)
qed

lemma fetched_capacity_mono:
  "fold (\<lambda>(_, v) s. saturating_add usize_max s (vec_cap v)) fs a
    = min usize_max (a + sum_list (map (\<lambda>(_, v). vec_cap v) fs))" if "a \<le> usize_max"
  using that by (induction fs arbitrary: a) (auto simp: saturating_add_def)

lemma fetched_capacity_sum:
  "fetched_capacity fs = min usize_max (sum_list (map (\<lambda>(_, v). vec_cap v) fs))"
  by (simp add: fetched_capacity_def fetched_capacity_mono)

lemma make_room_bound:
  "fetched_capacity (make_room cap fs target l) = 0 \<or>
   (make_room cap fs target l = fs
     \<and> saturating_add usize_max (fetched_capacity fs) (max cap target) \<le> input_bytes l)"
  by (auto simp: make_room_def fetched_capacity_def)

end
