(* ===== verification/Input_Window.thy ===== *)
theory Input_Window
  imports Admission
begin

text \<open>
  The input buffer every driver owns and the protocol checks they share:
  \<open>zencodec-io/src/window.rs\<close>. The window shows \<open>w_buf[w_head..w_end]\<close>, the source's bytes
  from \<open>w_base\<close>. The invariant \<open>holds f w\<close> says that what it shows is a piece of the file \<open>f\<close>;
  every operation keeps it.
\<close>

subsection \<open>The window\<close>

record window =
  w_buf :: vec
  w_head :: nat
  w_end :: nat
  w_base :: nat
  w_total :: "nat option"

definition window_new :: window where
  "window_new = \<lparr> w_buf = vec_empty, w_head = 0, w_end = 0, w_base = 0, w_total = None \<rparr>"

definition window_len :: "window \<Rightarrow> nat" where
  "window_len w = w_end w - w_head w"

definition window_end :: "window \<Rightarrow> nat" where
  "window_end w = wrap u64_max (w_base w + window_len w)"

definition window_bytes :: "window \<Rightarrow> byte list" where
  "window_bytes w = take (w_end w - w_head w) (drop (w_head w) (vec_bytes (w_buf w)))"

definition window_capacity :: "window \<Rightarrow> nat" where
  "window_capacity w = vec_cap (w_buf w)"

definition release :: "window \<Rightarrow> window" where
  "release w = w\<lparr>w_buf := vec_empty, w_head := 0, w_end := 0\<rparr>"

definition window_input :: "window \<Rightarrow> input" where
  "window_input w = with_total_len_opt (w_total w) (input_new (w_base w) (window_bytes w))"

definition window_consume :: "nat \<Rightarrow> window \<Rightarrow> window" where
  "window_consume n w =
     (let n = min n (window_len w);
          w = w\<lparr>w_head := w_head w + n, w_base := wrap u64_max (w_base w + n)\<rparr>
      in if w_head w = w_end w then w\<lparr>w_head := 0, w_end := 0\<rparr> else w)"

definition reset_to :: "nat \<Rightarrow> window \<Rightarrow> window" where
  "reset_to offset w = w\<lparr>w_head := 0, w_end := 0, w_base := offset\<rparr>"

definition adopt :: "nat \<Rightarrow> vec \<Rightarrow> window \<Rightarrow> window" where
  "adopt offset v w = w\<lparr>w_end := length (vec_bytes v), w_buf := v, w_head := 0, w_base := offset\<rparr>"

definition commit :: "nat \<Rightarrow> window \<Rightarrow> window" where
  "commit n w = w\<lparr>w_end := w_end w + n\<rparr>"

text \<open>
  The candidates \<open>position\<close> looks at: fetched buffers that contain the offset. The one chosen
  is the last of those whose end is greatest (\<open>max_by_key\<close>).
\<close>

definition entry_end :: "nat \<times> vec \<Rightarrow> nat" where
  "entry_end e = saturating_add u64_max (fst e) (length (vec_bytes (snd e)))"

definition contains_offset :: "nat \<Rightarrow> nat \<times> vec \<Rightarrow> bool" where
  "contains_offset offset e \<longleftrightarrow> offset \<ge> fst e \<and> offset < entry_end e"

fun last_longest :: "nat \<Rightarrow> nat \<Rightarrow> (nat \<times> nat) option \<Rightarrow> fetched \<Rightarrow> nat option" where
  "last_longest offset i best [] = map_option fst best"
| "last_longest offset i best (e # es) =
     last_longest offset (Suc i)
       (if contains_offset offset e
           \<and> (case best of None \<Rightarrow> True | Some (_, fin) \<Rightarrow> fin \<le> entry_end e)
        then Some (i, entry_end e) else best) es"

definition swap_remove :: "nat \<Rightarrow> 'a list \<Rightarrow> 'a list" where
  "swap_remove i xs = butlast (xs[i := last xs])"

definition is_active :: "nat \<Rightarrow> window \<Rightarrow> bool" where
  "is_active offset w \<longleftrightarrow> offset \<ge> w_base w \<and> offset < window_end w"

definition move_to :: "nat \<Rightarrow> window \<Rightarrow> fetched \<Rightarrow> window \<times> fetched \<times> bool" where
  "move_to offset w fs =
     (let active_end = (if is_active offset w then window_end w else offset)
      in case last_longest offset 0 None fs of
           Some i \<Rightarrow>
             if entry_end (fs ! i) > active_end
             then (window_consume (offset - fst (fs ! i)) (adopt (fst (fs ! i)) (snd (fs ! i)) w),
                   swap_remove i fs, True)
             else if is_active offset w then (window_consume (offset - w_base w) w, fs, True)
             else (reset_to offset w, fs, False)
         | None \<Rightarrow>
             if is_active offset w then (window_consume (offset - w_base w) w, fs, True)
             else (reset_to offset w, fs, False))"

text \<open>
  Room for \<open>n\<close> more bytes. The caller then writes the bytes of a read into the spare part
  (\<open>window_fill\<close>) and commits them.
\<close>

definition compact :: "nat \<Rightarrow> window \<Rightarrow> window" where
  "compact n w =
     (if length (vec_bytes (w_buf w)) - w_end w < n \<and> w_head w > 0
      then w\<lparr>w_buf := (w_buf w)\<lparr>vec_bytes :=
                 take (w_end w - w_head w) (drop (w_head w) (vec_bytes (w_buf w)))
                 @ drop (w_end w - w_head w) (vec_bytes (w_buf w))\<rparr>,
             w_end := w_end w - w_head w, w_head := 0\<rparr>
      else w)"

definition try_spare :: "alloc \<Rightarrow> nat \<Rightarrow> nat \<Rightarrow> window \<Rightarrow> window \<times> (input_error + unit)" where
  "try_spare al n limit w = (case checked_add usize_max (window_len w) n of
     None \<Rightarrow> (w, Err (LimitHit u64_max limit))
   | Some needed \<Rightarrow>
       if needed > limit then (w, Err (LimitHit needed limit))
       else let w = compact n w in
         if length (vec_bytes (w_buf w)) - w_end w < n
         then let want = min (max (w_end w + n) (saturating_mul usize_max (length (vec_bytes (w_buf w))) 2)) limit
           in case reserve al want (w_buf w) of
             (v, Inl e) \<Rightarrow> (w\<lparr>w_buf := v\<rparr>, Err e)
           | (v, Inr _) \<Rightarrow>
               if vec_cap v > limit then (release (w\<lparr>w_buf := v\<rparr>), Err (LimitHit (vec_cap v) limit))
               else (w\<lparr>w_buf := resize_zero want v\<rparr>, Ok ())
         else (w, Ok ()))"

definition window_fill :: "byte list \<Rightarrow> window \<Rightarrow> window" where
  "window_fill bs w = w\<lparr>w_buf := (w_buf w)\<lparr>vec_bytes :=
     take (w_end w) (vec_bytes (w_buf w)) @ bs @ drop (w_end w + length bs) (vec_bytes (w_buf w))\<rparr>\<rparr>"

definition read_target :: "nat \<Rightarrow> nat \<Rightarrow> nat" where
  "read_target min_len read_size =
     (let unit = max min_len 1; size' = max read_size unit
      in saturating_mul usize_max ((size' + unit - 1) div unit) unit)"

subsection \<open>What a Need may ask\<close>

datatype protocol_violation =
    EmptyRequest
  | AddressOverflow input_request
  | NoProgress input_request
  | NeedPastEnd input_request nat

fun request_span :: "input_request \<Rightarrow> (nat \<times> nat) option" where
  "request_span (AtLeast offset min_len) = Some (offset, max min_len 1)"
| "request_span (RangeOf r) = Some (br_offset r, br_length r)"
| "request_span Len = None"

definition address_overflows :: "input_request \<Rightarrow> bool" where
  "address_overflows r = (case request_span r of
     None \<Rightarrow> False | Some (offset, n) \<Rightarrow> checked_add u64_max offset n = None)"

fun past_end :: "nat \<Rightarrow> input_request \<Rightarrow> bool" where
  "past_end extent (AtLeast offset min_len) \<longleftrightarrow> offset > extent"
| "past_end extent (RangeOf r) \<longleftrightarrow> range_end r > extent"
| "past_end extent Len \<longleftrightarrow> False"

definition check_need :: "input_request list \<Rightarrow> input \<Rightarrow> nat \<Rightarrow> protocol_violation + unit" where
  "check_need requests offered taken =
     (if requests = [] then Err EmptyRequest
      else case find address_overflows requests of
        Some r \<Rightarrow> Err (AddressOverflow r)
      | None \<Rightarrow> (case Option.bind (in_total offered) (\<lambda>extent.
            map_option (\<lambda>r. (r, extent)) (find (past_end extent) requests)) of
          Some (r, extent) \<Rightarrow> Err (NeedPastEnd r extent)
        | None \<Rightarrow>
            if taken = 0 then (case find (\<lambda>r. is_satisfied_by r offered) requests of
                Some r \<Rightarrow> Err (NoProgress r) | None \<Rightarrow> Ok ())
            else Ok ()))"

subsection \<open>A piece of the file\<close>

definition piece :: "byte list \<Rightarrow> nat \<Rightarrow> byte list \<Rightarrow> bool" where
  "piece f offset bs \<longleftrightarrow> bs = take (length bs) (drop offset f)"

definition holds :: "byte list \<Rightarrow> window \<Rightarrow> bool" where
  "holds f w \<longleftrightarrow> w_head w \<le> w_end w \<and> w_end w \<le> length (vec_bytes (w_buf w)) \<and> wf_vec (w_buf w)
     \<and> piece f (w_base w) (window_bytes w) \<and> w_base w \<le> u64_max"

definition holds_entry :: "byte list \<Rightarrow> nat \<times> vec \<Rightarrow> bool" where
  "holds_entry f e \<longleftrightarrow> piece f (fst e) (vec_bytes (snd e)) \<and> wf_vec (snd e) \<and> fst e \<le> u64_max"

lemma piece_Nil [simp]: "piece f n []"
  by (simp add: piece_def)

lemma piece_iff: "piece f offset bs \<longleftrightarrow>
    bs = [] \<or> (offset + length bs \<le> length f \<and> (\<forall>k < length bs. bs ! k = f ! (offset + k)))"
proof
  assume p: "piece f offset bs"
  show "bs = [] \<or> (offset + length bs \<le> length f \<and> (\<forall>k < length bs. bs ! k = f ! (offset + k)))"
  proof (cases "bs = []")
    case False
    from p have "length bs = min (length bs) (length f - offset)"
      unfolding piece_def by (metis length_drop length_take min.commute)
    then have le: "offset + length bs \<le> length f" using False by (cases "offset \<le> length f") auto
    have "bs ! k = f ! (offset + k)" if "k < length bs" for k
      using p that le unfolding piece_def by (metis add_leD1 nth_drop nth_take)
    with le show ?thesis by blast
  qed simp
next
  assume "bs = [] \<or> (offset + length bs \<le> length f \<and> (\<forall>k < length bs. bs ! k = f ! (offset + k)))"
  then show "piece f offset bs"
    by (auto simp: piece_def intro!: nth_equalityI)
qed

lemma piece_drop: "piece f offset bs \<Longrightarrow> n \<le> length bs \<Longrightarrow> piece f (offset + n) (drop n bs)"
  by (auto simp: piece_iff add.assoc)

lemma piece_append: "piece f offset bs \<Longrightarrow> piece f (offset + length bs) cs \<Longrightarrow> piece f offset (bs @ cs)"
  by (auto simp: piece_iff nth_append add.assoc)

lemma piece_take: "piece f offset (take n (drop offset f))"
  by (auto simp: piece_iff)

lemma window_bytes_length: "holds f w \<Longrightarrow> length (window_bytes w) = window_len w"
  by (auto simp: holds_def window_bytes_def window_len_def)

lemma window_end_exact:
  assumes "holds f w" "length f \<le> u64_max"
  shows "window_end w = w_base w + window_len w"
    and "window_len w > 0 \<Longrightarrow> w_base w + window_len w \<le> length f"
proof -
  have h: "piece f (w_base w) (window_bytes w)" "w_base w \<le> u64_max" using assms(1) by (auto simp: holds_def)
  note len = window_bytes_length[OF assms(1)]
  show le: "window_len w > 0 \<Longrightarrow> w_base w + window_len w \<le> length f"
    using h(1) len by (auto simp: piece_iff)
  show "window_end w = w_base w + window_len w"
    using h(2) le assms(2) by (cases "window_len w = 0") (auto simp: window_end_def)
qed

subsection \<open>Every operation keeps a piece of the file\<close>

lemma holds_new: "holds f window_new"
  by (simp add: holds_def window_new_def wf_vec_def vec_empty_def window_bytes_def)

lemma holds_release: "w_base w \<le> u64_max \<Longrightarrow> holds f (release w)"
  by (simp add: holds_def release_def wf_vec_def vec_empty_def window_bytes_def)

lemma holds_reset: "holds f w \<Longrightarrow> offset \<le> u64_max \<Longrightarrow> holds f (reset_to offset w)"
  by (auto simp: holds_def reset_to_def window_bytes_def)

lemma holds_adopt: "holds_entry f (offset, v) \<Longrightarrow> holds f (adopt offset v w)"
  by (auto simp: holds_def holds_entry_def adopt_def window_bytes_def)

lemma window_consume_holds:
  assumes "holds f w" "length f \<le> u64_max"
  shows "holds f (window_consume n w)"
    and "w_base (window_consume n w) = w_base w + min n (window_len w)"
    and "window_len (window_consume n w) = window_len w - min n (window_len w)"
    and "window_bytes (window_consume n w) = drop (min n (window_len w)) (window_bytes w)"
proof -
  let ?n = "min n (window_len w)"
  note e = window_end_exact[OF assms]
  have h: "w_head w \<le> w_end w" "w_end w \<le> length (vec_bytes (w_buf w))" "wf_vec (w_buf w)"
    "piece f (w_base w) (window_bytes w)" "w_base w \<le> u64_max"
    using assms(1) by (auto simp: holds_def)
  have base: "w_base w + ?n \<le> u64_max" using e h(5) assms(2) by (cases "window_len w") auto
  show bytes: "window_bytes (window_consume n w) = drop ?n (window_bytes w)"
    using h by (auto simp: window_consume_def Let_def window_bytes_def window_len_def drop_take add.commute min_def)
  show wb: "w_base (window_consume n w) = w_base w + ?n"
    using base by (auto simp: window_consume_def Let_def)
  show "window_len (window_consume n w) = window_len w - ?n"
    using h by (auto simp: window_consume_def Let_def window_len_def)
  have "piece f (w_base w + ?n) (drop ?n (window_bytes w))"
    using piece_drop[OF h(4)] window_bytes_length[OF assms(1)] by simp
  then show "holds f (window_consume n w)"
    using h base unfolding holds_def bytes wb
    by (auto simp: window_consume_def Let_def window_len_def)
qed

subsection \<open>Moving the window\<close>

lemma last_longest_spec:
  "case last_longest offset k best es of
     None \<Rightarrow> best = None \<and> (\<forall>e \<in> set es. \<not> contains_offset offset e)
   | Some i \<Rightarrow> (\<exists>fin. best = Some (i, fin) \<and> (\<forall>e \<in> set es. contains_offset offset e \<longrightarrow> entry_end e < fin))
       \<or> (\<exists>j < length es. i = k + j \<and> contains_offset offset (es ! j)
            \<and> (\<forall>e \<in> set es. contains_offset offset e \<longrightarrow> entry_end e \<le> entry_end (es ! j))
            \<and> (\<forall>m fin. best = Some (m, fin) \<longrightarrow> fin \<le> entry_end (es ! j)))"
proof (induction es arbitrary: k best)
  case (Cons e es)
  define best' where "best' = (if contains_offset offset e
      \<and> (case best of None \<Rightarrow> True | Some (_, fin) \<Rightarrow> fin \<le> entry_end e) then Some (k, entry_end e) else best)"
  have step: "last_longest offset k best (e # es) = last_longest offset (Suc k) best' es"
    by (simp add: best'_def)
  show ?case
  proof (cases "last_longest offset (Suc k) best' es")
    case None
    with Cons.IH[where k = "Suc k" and best = best'] have "best' = None" "\<forall>e \<in> set es. \<not> contains_offset offset e" by auto
    then show ?thesis using None unfolding step by (auto simp: best'_def split: if_splits option.splits)
  next
    case (Some i)
    with Cons.IH[where k = "Suc k" and best = best']
    consider fin where "best' = Some (i, fin)" "\<forall>e \<in> set es. contains_offset offset e \<longrightarrow> entry_end e < fin"
      | j where "j < length es" "i = Suc k + j" "contains_offset offset (es ! j)"
        "\<forall>e \<in> set es. contains_offset offset e \<longrightarrow> entry_end e \<le> entry_end (es ! j)"
        "\<forall>m fin. best' = Some (m, fin) \<longrightarrow> fin \<le> entry_end (es ! j)"
      by auto
    then show ?thesis
    proof cases
      case 1
      show ?thesis
      proof (cases "best' = best")
        case True
        then show ?thesis using 1 Some unfolding step
          by (auto simp: best'_def not_le split: if_splits option.splits prod.splits)
      next
        case False
        then have "contains_offset offset e" "i = k" "fin = entry_end e"
          "\<forall>m fin. best = Some (m, fin) \<longrightarrow> fin \<le> entry_end e"
          using 1(1) by (auto simp: best'_def split: if_splits option.splits)
        then show ?thesis using 1(2) Some unfolding step by (auto intro!: exI[of _ 0])
      qed
    next
      case 2
      have "\<forall>m fin. best = Some (m, fin) \<longrightarrow> fin \<le> entry_end (es ! j)"
        "contains_offset offset e \<longrightarrow> entry_end e \<le> entry_end (es ! j)"
        using 2(5) by (auto simp: best'_def split: if_splits option.splits)
      then show ?thesis using 2 Some unfolding step
        by (auto intro!: exI[of _ "Suc j"])
    qed
  qed
qed (auto split: option.splits)

lemma last_longest_None: "last_longest offset 0 None fs = None \<Longrightarrow> e \<in> set fs \<Longrightarrow> \<not> contains_offset offset e"
  using last_longest_spec[where offset = offset and k = 0 and best = None and es = fs] by simp

lemma last_longest_Some:
  assumes "last_longest offset 0 None fs = Some i"
  shows "i < length fs" "contains_offset offset (fs ! i)"
    "e \<in> set fs \<Longrightarrow> contains_offset offset e \<Longrightarrow> entry_end e \<le> entry_end (fs ! i)"
  using assms last_longest_spec[where offset = offset and k = 0 and best = None and es = fs] by auto

lemma swap_remove_set:
  assumes "i < length xs"
  shows "set (swap_remove i xs) \<subseteq> set xs"
proof
  fix x assume "x \<in> set (swap_remove i xs)"
  then have "x \<in> set (xs[i := last xs])" unfolding swap_remove_def by (rule in_set_butlastD)
  then have "x = last xs \<or> x \<in> set xs" using set_update_subset_insert by fastforce
  moreover have "last xs \<in> set xs" using assms by (intro last_in_set) auto
  ultimately show "x \<in> set xs" by auto
qed

lemma entry_end_exact:
  assumes "holds_entry f e" "length f \<le> u64_max" "contains_offset offset e"
  shows "entry_end e = fst e + length (vec_bytes (snd e))"
  using assms by (auto simp: holds_entry_def entry_end_def contains_offset_def piece_iff saturating_add_def)

lemma adopt_len: "window_len (adopt offset v w) = length (vec_bytes v)"
  by (simp add: adopt_def window_len_def)

definition kept_all :: "nat \<Rightarrow> window \<Rightarrow> fetched \<Rightarrow> window \<Rightarrow> bool" where
  "kept_all offset w fs w' \<longleftrightarrow> (is_active offset w \<longrightarrow> window_end w \<le> window_end w')
     \<and> (\<forall>e \<in> set fs. contains_offset offset e \<longrightarrow> entry_end e \<le> window_end w')"

lemma move_by_consume:
  assumes "holds f w" "length f \<le> u64_max" "is_active offset w"
  shows "holds f (window_consume (offset - w_base w) w) \<and> w_base (window_consume (offset - w_base w) w) = offset
    \<and> window_end (window_consume (offset - w_base w) w) = window_end w
    \<and> 0 < window_len (window_consume (offset - w_base w) w)"
proof -
  note e = window_end_exact[OF assms(1,2)]
  have n: "offset - w_base w < window_len w" "w_base w \<le> offset"
    using assms(3) e(1) by (auto simp: is_active_def)
  note c = window_consume_holds[OF assms(1,2), of "offset - w_base w"]
  show ?thesis using c n e window_end_exact(1)[OF c(1) assms(2)] by auto
qed

lemma move_to_spec:
  assumes w: "holds f w" and fs: "\<forall>e \<in> set fs. holds_entry f e" and f: "length f \<le> u64_max"
    and offset: "offset \<le> u64_max" and run: "move_to offset w fs = (w', fs', found)"
  shows "holds f w' \<and> w_base w' = offset \<and> w_total w' = w_total w \<and> set fs' \<subseteq> set fs
    \<and> (found \<longleftrightarrow> is_active offset w \<or> (\<exists>e \<in> set fs. contains_offset offset e))
    \<and> (if found then 0 < window_len w' \<and> kept_all offset w fs w' else window_len w' = 0 \<and> fs' = fs)
    \<and> (found \<longrightarrow> (is_active offset w \<and> window_end w' = window_end w)
         \<or> (\<exists>e \<in> set fs. contains_offset offset e \<and> window_end w' = entry_end e))"
proof -
  let ?active_end = "if is_active offset w then window_end w else offset"
  have total: "w_total (window_consume n v) = w_total v" for n v by (simp add: window_consume_def Let_def)
  show ?thesis
  proof (cases "\<exists>i. last_longest offset 0 None fs = Some i \<and> entry_end (fs ! i) > ?active_end")
    case True
    then obtain i where i: "last_longest offset 0 None fs = Some i" "entry_end (fs ! i) > ?active_end" by blast
    note l = last_longest_Some[OF i(1)]
    have entry: "holds_entry f (fs ! i)" using fs l(1) by simp
    let ?w = "adopt (fst (fs ! i)) (snd (fs ! i)) w"
    have adopted: "holds f ?w" using holds_adopt entry by (metis prod.collapse)
    have e: "window_end ?w = entry_end (fs ! i)" "w_base ?w = fst (fs ! i)"
      using window_end_exact(1)[OF adopted f] entry_end_exact[OF entry f l(2)]
      by (simp_all add: adopt_len) (simp_all add: adopt_def)
    then have active: "is_active offset ?w" using l(2) by (simp add: is_active_def contains_offset_def)
    have "w' = window_consume (offset - fst (fs ! i)) ?w" "fs' = swap_remove i fs" "found"
      using run i by (auto simp: move_to_def Let_def)
    moreover have "w_total ?w = w_total w" by (simp add: adopt_def)
    moreover have "is_active offset w \<longrightarrow> window_end w \<le> entry_end (fs ! i)" using i(2) by auto
    ultimately have res: "holds f w'" "w_base w' = offset" "w_total w' = w_total w"
        "window_end w' = entry_end (fs ! i)" "0 < window_len w'" "set fs' \<subseteq> set fs" "found"
        "is_active offset w \<longrightarrow> window_end w \<le> entry_end (fs ! i)"
      using move_by_consume[OF adopted f active] e swap_remove_set[OF l(1)] total by simp_all
    have "fs ! i \<in> set fs" using l(1) by simp
    then show ?thesis using res l(2,3) by (auto simp: kept_all_def)
  next
    case False
    have none: "contains_offset offset e \<Longrightarrow> e \<in> set fs \<Longrightarrow> entry_end e \<le> ?active_end" for e
      using False last_longest_None[of offset fs e] last_longest_Some(3)[of offset fs _ e]
      by (cases "last_longest offset 0 None fs") (force simp: not_less)+
    have run': "(w', fs', found) = (if is_active offset w then (window_consume (offset - w_base w) w, fs, True)
        else (reset_to offset w, fs, False))"
      using run False by (auto simp: move_to_def Let_def split: option.splits if_splits)
    show ?thesis
    proof (cases "is_active offset w")
      case True
      then show ?thesis using move_by_consume[OF w f True] none run' total by (auto simp: kept_all_def)
    next
      case inactive: False
      then have "\<not> contains_offset offset e" if "e \<in> set fs" for e
        using none[OF _ that] by (auto simp: contains_offset_def)
      then show ?thesis using inactive run' holds_reset[OF w offset] 
        by (auto simp: reset_to_def window_len_def)
    qed
  qed
qed

subsection \<open>Room and reads\<close>

lemma compact_holds:
  assumes "holds f w"
  shows "holds f (compact n w)" "window_bytes (compact n w) = window_bytes w"
    "window_len (compact n w) = window_len w" "w_base (compact n w) = w_base w"
    "w_total (compact n w) = w_total w" "vec_cap (w_buf (compact n w)) = vec_cap (w_buf w)"
    "w_end (compact n w) \<le> length (vec_bytes (w_buf (compact n w)))"
    "w_head (compact n w) = 0 \<or> compact n w = w \<and> n \<le> length (vec_bytes (w_buf w)) - w_end w"
proof -
  have h: "w_head w \<le> w_end w" "w_end w \<le> length (vec_bytes (w_buf w))"
    using assms by (auto simp: holds_def)
  show bytes: "window_bytes (compact n w) = window_bytes w"
    using h by (auto simp: compact_def window_bytes_def min_def)
  show "window_len (compact n w) = window_len w" "w_base (compact n w) = w_base w"
    "w_total (compact n w) = w_total w" "vec_cap (w_buf (compact n w)) = vec_cap (w_buf w)"
    "w_end (compact n w) \<le> length (vec_bytes (w_buf (compact n w)))"
    "w_head (compact n w) = 0 \<or> compact n w = w \<and> n \<le> length (vec_bytes (w_buf w)) - w_end w"
    using h by (auto simp: compact_def window_len_def)
  show "holds f (compact n w)"
    using assms h unfolding holds_def bytes by (auto simp: compact_def wf_vec_def)
qed

lemma try_spare_spec:
  assumes "holds f w" "try_spare al n limit w = (w', r)"
  shows "holds f w' \<and> w_base w' = w_base w \<and> w_total w' = w_total w
    \<and> (window_capacity w' = window_capacity w \<or> window_capacity w' \<le> limit)
    \<and> (r = Ok () \<longrightarrow> window_bytes w' = window_bytes w \<and> window_len w' = window_len w
        \<and> window_len w + n \<le> limit \<and> w_end w' + n \<le> length (vec_bytes (w_buf w')))"
proof (cases "window_len w + n \<le> usize_max \<and> window_len w + n \<le> limit")
  case False
  then show ?thesis using assms
    by (cases "checked_add usize_max (window_len w) n") (auto simp: try_spare_def)
next
  case fits: True
  let ?c = "compact n w"
  note c = compact_holds[OF assms(1), of n]
  have base: "w_base w \<le> u64_max" using assms(1) by (simp add: holds_def)
  show ?thesis
  proof (cases "length (vec_bytes (w_buf ?c)) - w_end ?c < n")
    case False
    then have "w' = ?c" "r = Ok ()"
      using assms(2) fits by (auto simp: try_spare_def checked_add_def Let_def)
    then show ?thesis using c fits False by (auto simp: window_capacity_def)
  next
    case True
    then have head: "w_head ?c = 0" using c(8) by auto
    let ?want = "min (max (w_end ?c + n) (saturating_mul usize_max (length (vec_bytes (w_buf ?c))) 2)) limit"
    obtain v res where v: "reserve al ?want (w_buf ?c) = (v, res)" by fastforce
    have "w_end ?c = window_len w" using head c(1,3) by (simp add: window_len_def)
    then have want: "w_end ?c + n \<le> ?want" using fits by simp
    have wf: "wf_vec (w_buf ?c)" using c(1) by (simp add: holds_def)
    have run: "(w', r) = (case res of Inl e \<Rightarrow> (?c\<lparr>w_buf := v\<rparr>, Err e)
      | Inr _ \<Rightarrow> if vec_cap v > limit then (release (?c\<lparr>w_buf := v\<rparr>), Err (LimitHit (vec_cap v) limit))
                 else (?c\<lparr>w_buf := resize_zero ?want v\<rparr>, Ok ()))"
      using assms(2) fits True v by (simp add: try_spare_def checked_add_def Let_def)
    show ?thesis
    proof (cases res)
      case (Inl e)
      then have "v = w_buf ?c" using v by (auto simp: reserve_def split: if_splits option.splits)
      then show ?thesis using run Inl c by (simp add: window_capacity_def)
    next
      case (Inr u)
      then have kept: "?want \<le> vec_cap v" "vec_bytes v = vec_bytes (w_buf ?c)"
        using reserve_Ok[OF _ wf] v by auto
      show ?thesis
      proof (cases "vec_cap v > limit")
        case True
        then show ?thesis using run Inr holds_release[of "?c\<lparr>w_buf := v\<rparr>"] base c(4,5)
          by (simp add: release_def window_capacity_def vec_empty_def)
      next
        case False
        let ?w = "?c\<lparr>w_buf := resize_zero ?want v\<rparr>"
        have w': "w' = ?w" "r = Ok ()" using run Inr False by auto
        have long: "w_end ?c \<le> ?want" "?want \<le> length (vec_bytes (w_buf ?w))"
          using want by (auto simp: resize_zero_def)
        have bytes: "window_bytes ?w = window_bytes ?c"
          using long(1) c(7) kept(2) head by (auto simp: window_bytes_def resize_zero_def min_def)
        have len: "length (vec_bytes (w_buf ?w)) = ?want" by (simp add: resize_zero_def)
        have cap: "vec_cap (w_buf ?w) = vec_cap v" by (simp add: resize_zero_def)
        have "holds f ?w"
          using c(1) long len kept(1) unfolding holds_def bytes wf_vec_def cap by auto
        then show ?thesis using w' bytes c(2-5) want len fits False cap
          by (simp add: window_capacity_def window_len_def)
      qed
    qed
  qed
qed

lemma fill_commit:
  assumes "holds f w" "w_end w + n \<le> length (vec_bytes (w_buf w))" "length bs \<le> n"
    "piece f (w_base w + window_len w) bs"
  shows "holds f (commit (length bs) (window_fill bs w))"
    "window_bytes (commit (length bs) (window_fill bs w)) = window_bytes w @ bs"
    "window_len (commit (length bs) (window_fill bs w)) = window_len w + length bs"
    "w_base (commit (length bs) (window_fill bs w)) = w_base w"
    "w_total (commit (length bs) (window_fill bs w)) = w_total w"
    "window_capacity (commit (length bs) (window_fill bs w)) = window_capacity w"
proof -
  have h: "w_head w \<le> w_end w" "w_end w \<le> length (vec_bytes (w_buf w))"
    "piece f (w_base w) (window_bytes w)" using assms(1) by (auto simp: holds_def)
  show bytes: "window_bytes (commit (length bs) (window_fill bs w)) = window_bytes w @ bs"
  proof -
    have "take (w_end w + length bs) (take (w_end w) (vec_bytes (w_buf w)) @ bs @ rest)
        = take (w_end w) (vec_bytes (w_buf w)) @ bs" for rest
      using h(2) by simp
    then show ?thesis
      using h(1,2) by (simp add: commit_def window_fill_def window_bytes_def drop_take[symmetric])
  qed
  show "window_len (commit (length bs) (window_fill bs w)) = window_len w + length bs"
    using h by (simp add: commit_def window_fill_def window_len_def)
  show "w_base (commit (length bs) (window_fill bs w)) = w_base w"
    "w_total (commit (length bs) (window_fill bs w)) = w_total w"
    "window_capacity (commit (length bs) (window_fill bs w)) = window_capacity w"
    by (simp_all add: commit_def window_fill_def window_capacity_def)
  have "piece f (w_base w) (window_bytes w @ bs)"
    using piece_append[OF h(3)] assms(4) window_bytes_length[OF assms(1)] by simp
  then show "holds f (commit (length bs) (window_fill bs w))"
    using assms h unfolding holds_def bytes by (auto simp: commit_def window_fill_def wf_vec_def)
qed

lemma set_total_simps [simp]:
  "window_len (w\<lparr>w_total := t\<rparr>) = window_len w" "window_end (w\<lparr>w_total := t\<rparr>) = window_end w"
  "window_capacity (w\<lparr>w_total := t\<rparr>) = window_capacity w" "window_bytes (w\<lparr>w_total := t\<rparr>) = window_bytes w"
  "holds f (w\<lparr>w_total := t\<rparr>) = holds f w"
  by (simp_all add: window_len_def window_end_def window_capacity_def window_bytes_def holds_def)

lemma read_target_ge:
  assumes "max min_len 1 \<le> usize_max"
  shows "max min_len 1 \<le> read_target min_len n"
proof -
  define unit where "unit = max min_len 1"
  define k where "k = (max n unit + unit - 1) div unit"
  have "unit \<le> max n unit + unit - 1" "0 < unit" by (auto simp: unit_def)
  then have "1 \<le> k" unfolding k_def by (metis div_le_mono div_self less_not_refl)
  then have "1 * unit \<le> k * unit" by (rule mult_le_mono1)
  moreover have "read_target min_len n = min usize_max (k * unit)"
    by (simp only: read_target_def Let_def saturating_mul_def k_def unit_def)
  ultimately show ?thesis using assms by (simp add: unit_def)
qed

subsection \<open>What a Need may ask, exactly\<close>

lemma find_None: "find P xs = None \<longleftrightarrow> (\<forall>x \<in> set xs. \<not> P x)"
  by (auto simp: find_None_iff)

lemma find_Some: "find P xs = Some x \<Longrightarrow> x \<in> set xs \<and> P x"
  by (induction xs) (auto split: if_splits)

lemma check_need_Ok:
  "check_need requests offered n = Ok () \<longleftrightarrow>
     requests \<noteq> [] \<and> (\<forall>r \<in> set requests. \<not> address_overflows r)
     \<and> (\<forall>extent. in_total offered = Some extent \<longrightarrow> (\<forall>r \<in> set requests. \<not> past_end extent r))
     \<and> (n = 0 \<longrightarrow> (\<forall>r \<in> set requests. \<not> is_satisfied_by r offered))"
proof (cases "requests = [] \<or> (\<exists>r \<in> set requests. address_overflows r)")
  case True
  then show ?thesis
    by (cases "find address_overflows requests") (auto simp: check_need_def find_None)
next
  case False
  then have none: "requests \<noteq> []" "find address_overflows requests = None" by (auto simp: find_None)
  show ?thesis
    using none False
    by (cases "in_total offered"; cases "n = 0")
      (auto simp: check_need_def find_None split: option.splits dest!: find_Some)
qed

end
