(* ===== verification/Slice_Driver.thy ===== *)
theory Slice_Driver
  imports Input_Window
begin

text \<open>
  Driving a resumable decoder over bytes in memory: the options and counters of
  \<open>zencodec-io/src/drive.rs\<close>, the slice cursor of \<open>zencodec-io/src/stepper.rs\<close> and
  \<open>drive_from_slice\<close>. The stage that is driven is an argument: its state, which includes the
  sink it writes to and the pulse it reports to, and its step. A loop that never returns is
  \<open>None\<close>; a panic is \<open>Panics\<close>. The counters are unbounded.
\<close>

subsection \<open>Stages and outcomes\<close>

datatype 'o step_kind = StepNeed | StepOutput 'o | StepFinished 'o

record 'o stepped =
  st_consumed :: nat
  st_kind :: "'o step_kind"

datatype 'o yield = YieldOutput 'o | YieldFinished 'o

fun yield_inner :: "'o yield \<Rightarrow> 'o" where
  "yield_inner (YieldOutput x) = x"
| "yield_inner (YieldFinished x) = x"

fun yield_is_finished :: "'o yield \<Rightarrow> bool" where
  "yield_is_finished (YieldOutput x) = False"
| "yield_is_finished (YieldFinished x) = True"

datatype ('e, 'se) drive_failure =
    StepFailed 'e
  | SourceFailed 'se
  | Protocol protocol_violation
  | InputFailed input_error

datatype 'a ending = Panics | Returns 'a

type_synonym ('d, 'e, 'o) stage = "'d \<Rightarrow> input \<Rightarrow> 'd \<times> ('e + 'o stepped)"

record drive_options =
  max_gap :: nat
  read_size :: nat
  opt_limits :: io_limits
  work_quota :: nat

definition options_new :: "nat \<Rightarrow> nat \<Rightarrow> drive_options" where
  "options_new gap n = \<lparr> max_gap = gap, read_size = n, opt_limits = limits_unlimited,
     work_quota = quota_unlimited \<rparr>"

definition options_default :: drive_options where
  "options_default = options_new 0 (64 * 1024)"

definition with_limits :: "io_limits \<Rightarrow> drive_options \<Rightarrow> drive_options" where
  "with_limits l opts = opts\<lparr>opt_limits := l\<rparr>"

definition with_work_quota :: "nat \<Rightarrow> drive_options \<Rightarrow> drive_options" where
  "with_work_quota q opts = opts\<lparr>work_quota := q\<rparr>"

record drive_stats =
  n_steps :: nat
  n_reads :: nat
  n_bytes_read :: nat
  n_rows :: nat

definition stats_zero :: drive_stats where
  "stats_zero = \<lparr> n_steps = 0, n_reads = 0, n_bytes_read = 0, n_rows = 0 \<rparr>"

definition count_step :: "drive_stats \<Rightarrow> drive_stats" where
  "count_step s = s\<lparr>n_steps := n_steps s + 1\<rparr>"

definition count_read :: "nat \<Rightarrow> drive_stats \<Rightarrow> drive_stats" where
  "count_read n s = s\<lparr>n_reads := n_reads s + 1, n_bytes_read := n_bytes_read s + n\<rparr>"

definition count_rows :: "nat \<Rightarrow> drive_stats \<Rightarrow> drive_stats" where
  "count_rows n s = s\<lparr>n_rows := n_rows s + n\<rparr>"

subsection \<open>The slice cursor\<close>

definition slice_span :: "nat \<Rightarrow> nat \<Rightarrow> nat \<Rightarrow> nat \<Rightarrow> input_request list \<Rightarrow> (nat \<times> nat) option" where
  "slice_span start fin window extent requests = (case requests of
     [] \<Rightarrow> None
   | request # _ \<Rightarrow> Some (case request of
       AtLeast offset min_len \<Rightarrow> (offset, min (saturating_add usize_max offset (max min_len window)) extent)
     | RangeOf r \<Rightarrow> (br_offset r, range_end r)
     | Len \<Rightarrow> (start, fin)))"

record slice_cursor =
  sc_start :: nat
  sc_end :: nat
  sc_window :: nat
  sc_stats :: drive_stats

definition slice_new :: "nat \<Rightarrow> slice_cursor" where
  "slice_new window = \<lparr> sc_start = 0, sc_end = 0, sc_window = max window 1, sc_stats = stats_zero \<rparr>"

definition slice_input :: "byte list \<Rightarrow> nat \<Rightarrow> nat \<Rightarrow> input" where
  "slice_input bs start fin = with_total_len (length bs) (input_new start (drop start (take fin bs)))"

definition slice_offer :: "byte list \<Rightarrow> slice_cursor \<Rightarrow> slice_cursor \<times> input" where
  "slice_offer bs c =
     (let fin = min (sc_end c) (length bs); start = min (sc_start c) fin
      in (c\<lparr>sc_end := fin, sc_start := start\<rparr>, slice_input bs start fin))"

definition slice_take :: "nat \<Rightarrow> slice_cursor \<Rightarrow> slice_cursor" where
  "slice_take n c = c\<lparr>sc_stats := count_step (sc_stats c),
     sc_start := sc_start c + min n (sc_end c - sc_start c)\<rparr>"

definition slice_serve :: "byte list \<Rightarrow> input_request list \<Rightarrow> slice_cursor \<Rightarrow> slice_cursor option" where
  "slice_serve bs requests c =
     (case slice_span (sc_start c) (sc_end c) (sc_window c) (length bs) requests of
        None \<Rightarrow> None
      | Some (s, e) \<Rightarrow>
          if e < s then None
          else Some (c\<lparr>sc_start := s, sc_end := e, sc_stats := count_read (e - s) (sc_stats c)\<rparr>))"

partial_function (option) slice_next ::
    "('d, 'e, 'o) stage \<Rightarrow> ('d \<Rightarrow> input_request list) \<Rightarrow> byte list \<Rightarrow> slice_cursor \<Rightarrow> 'd
      \<Rightarrow> (slice_cursor \<times> 'd \<times> (('e, 'se) drive_failure + 'o yield)) ending option" where
  "slice_next step requested bs c d = (case slice_offer bs c of
     (c, i) \<Rightarrow> (case step d i of
       (d, Inl e) \<Rightarrow> Some (Returns (c, d, Err (StepFailed e)))
     | (d, Inr p) \<Rightarrow>
         let c = slice_take (st_consumed p) c in
         case st_kind p of
           StepOutput x \<Rightarrow> Some (Returns (c, d, Ok (YieldOutput x)))
         | StepFinished x \<Rightarrow> Some (Returns (c, d, Ok (YieldFinished x)))
         | StepNeed \<Rightarrow> (case check_need (requested d) i (st_consumed p) of
             Inl e \<Rightarrow> Some (Returns (c, d, Err (Protocol e)))
           | Inr _ \<Rightarrow> (case slice_serve bs (requested d) c of
               None \<Rightarrow> Some Panics
             | Some c \<Rightarrow> slice_next step requested bs c d))))"

subsection \<open>The slice driver\<close>

type_synonym ('d, 'e, 'p, 'o) decoder = "'d \<Rightarrow> input \<Rightarrow> 'd \<times> ('e + ('p, 'o) progress)"

definition slice_range :: "byte list \<Rightarrow> nat \<Rightarrow> nat \<Rightarrow> input option" where
  "slice_range bs start fin =
     (if start \<le> fin \<and> fin \<le> length bs then Some (slice_input bs start fin) else None)"

partial_function (option) slice_drive ::
    "('d, 'e, 'p, 'o) decoder \<Rightarrow> ('d \<Rightarrow> input_request list) \<Rightarrow> byte list \<Rightarrow> nat
      \<Rightarrow> nat \<Rightarrow> nat \<Rightarrow> drive_stats \<Rightarrow> 'd
      \<Rightarrow> ('d \<times> (('e, 'se) drive_failure + ('p, 'o) output_info \<times> drive_stats)) ending option" where
  "slice_drive step requested bs window start fin stats d = (case slice_range bs start fin of
     None \<Rightarrow> Some Panics
   | Some i \<Rightarrow> (case step d i of
       (d, Inl e) \<Rightarrow> Some (Returns (d, Err (StepFailed e)))
     | (d, Inr p) \<Rightarrow>
         let stats = count_step stats; start = start + min (consumed p) (fin - start) in
         case event_of p of
           Done info \<Rightarrow> Some (Returns (d, Ok (info, stats)))
         | Rows m n \<Rightarrow> slice_drive step requested bs window start fin (count_rows n stats) d
         | MetadataReady u \<Rightarrow> slice_drive step requested bs window start fin stats d
         | Need \<Rightarrow> (case check_need (requested d) i (consumed p) of
             Inl e \<Rightarrow> Some (Returns (d, Err (Protocol e)))
           | Inr _ \<Rightarrow> (case slice_span start fin window (length bs) (requested d) of
               None \<Rightarrow> Some Panics
             | Some (s, e) \<Rightarrow>
                 if e < s then Some Panics
                 else slice_drive step requested bs window s e (count_read (e - s) stats) d))))"

definition drive_from_slice ::
    "('d, 'e, 'p, 'o) decoder \<Rightarrow> ('d \<Rightarrow> input_request list) \<Rightarrow> byte list \<Rightarrow> nat \<Rightarrow> 'd
      \<Rightarrow> ('d \<times> (('e, 'se) drive_failure + ('p, 'o) output_info \<times> drive_stats)) ending option" where
  "drive_from_slice step requested bs window d =
     slice_drive step requested bs (max window 1) 0 0 stats_zero d"

subsection \<open>What the driver offers\<close>

text \<open>An input that is the file's bytes at its offset, with the file's length.\<close>

definition true_input :: "byte list \<Rightarrow> input \<Rightarrow> bool" where
  "true_input bs i \<longleftrightarrow> piece bs (in_offset i) (in_bytes i) \<and> in_total i = Some (length bs)"

lemma slice_input_simps [simp]:
  "in_offset (slice_input bs s e) = s"
  "in_bytes (slice_input bs s e) = drop s (take e bs)"
  "in_total (slice_input bs s e) = Some (length bs)"
  by (simp_all add: slice_input_def with_total_len_def input_new_def)

lemma slice_input_true: "true_input bs (slice_input bs s e)"
proof -
  have "drop s (take e bs) = take (e - s) (drop s bs)" by (simp add: drop_take)
  then show ?thesis using piece_take[of bs s "e - s"] by (simp add: true_input_def)
qed

lemma slice_span_serves:
  assumes "length bs \<le> u64_max" "check_need requests i n = Ok ()" "in_total i = Some (length bs)"
    "start \<le> fin" "fin \<le> length bs" "slice_span start fin window (length bs) requests = Some (s, e)"
  shows "s \<le> e \<and> e \<le> length bs \<and> is_satisfied_by (hd requests) (slice_input bs s e)"
proof -
  obtain r rs where requests: "requests = r # rs" using assms(6) by (cases requests) (auto simp: slice_span_def)
  have r: "\<not> address_overflows r" "\<not> past_end (length bs) r"
    using assms(2,3) requests by (auto simp: check_need_Ok)
  show ?thesis
    using assms(1,4-6) r requests
    by (cases r) (auto simp: slice_span_def address_overflows_def range_end_def saturating_add_def input_end_def)
qed

lemma slice_span_Some: "check_need requests i n = Ok () \<Longrightarrow> \<exists>s e. slice_span start fin w m requests = Some (s, e)"
  by (cases requests) (auto simp: check_need_def slice_span_def split: input_request.splits)

text \<open>
  A decoder that keeps a log: each input offered and, when the answer was \<open>Need\<close>, the requests.
\<close>

definition logged :: "('d, 'e, 'p, 'o) decoder \<Rightarrow> ('d \<Rightarrow> input_request list)
    \<Rightarrow> ('d \<times> (input \<times> input_request list option) list, 'e, 'p, 'o) decoder" where
  "logged step requested dl i = (case dl of (d, log) \<Rightarrow> (case step d i of
     (d', r) \<Rightarrow> ((d', log @ [(i, case r of Inl e \<Rightarrow> None
                  | Inr p \<Rightarrow> (if event_of p = Need then Some (requested d') else None))]), r)))"

definition answers :: "input \<times> input_request list option \<Rightarrow> input \<times> input_request list option \<Rightarrow> bool" where
  "answers x y \<longleftrightarrow> (case snd x of Some (r # rs) \<Rightarrow> is_satisfied_by r (fst y) | _ \<Rightarrow> True)"

definition log_ok :: "byte list \<Rightarrow> (input \<times> input_request list option) list \<Rightarrow> bool" where
  "log_ok bs log \<longleftrightarrow> (\<forall>x \<in> set log. true_input bs (fst x)) \<and> successively answers log"

definition drive_state_ok :: "byte list \<Rightarrow> nat \<Rightarrow> nat \<Rightarrow> (input \<times> input_request list option) list \<Rightarrow> bool" where
  "drive_state_ok bs start fin log \<longleftrightarrow> start \<le> fin \<and> fin \<le> length bs \<and> log_ok bs log
     \<and> (log = [] \<or> answers (last log) (slice_input bs start fin, None))"

lemma log_ok_snoc:
  assumes "drive_state_ok bs start fin log"
  shows "log_ok bs (log @ [(slice_input bs start fin, q)])"
  using assms slice_input_true
  by (auto simp: drive_state_ok_def log_ok_def successively_append_iff answers_def split: option.splits list.splits)

definition ending_ok :: "byte list \<Rightarrow> (('d \<times> (input \<times> input_request list option) list) \<times> 'r) ending \<Rightarrow> bool" where
  "ending_ok bs y \<longleftrightarrow> (case y of Panics \<Rightarrow> False | Returns x \<Rightarrow> log_ok bs (snd (fst x)))"

lemma slice_drive_ok:
  assumes "slice_drive stp rq bs window start fin stats dl = Some y"
    "stp = logged step' requested" "rq = requested \<circ> fst" "length bs \<le> u64_max"
    "drive_state_ok bs start fin (snd dl)"
  shows "ending_ok bs y"
  using assms
proof (induction stp rq bs window start fin stats dl y
    rule: slice_drive.raw_induct[rotated 1, consumes 1, case_names step])
  case (step self stp rq bs window start fin stats dl y)
  obtain d log where dl: "dl = (d, log)" by fastforce
  define i where "i = slice_input bs start fin"
  have range: "slice_range bs start fin = Some i"
    using step.prems(4) by (simp add: slice_range_def drive_state_ok_def i_def)
  have total: "in_total i = Some (length bs)" by (simp add: i_def)
  have ok: "drive_state_ok bs start fin log" using step.prems(4) dl by simp
  note snoc = log_ok_snoc[OF ok, folded i_def]
  obtain d' r where one: "step' d i = (d', r)" by fastforce
  define q where "q = (case r of Inl e \<Rightarrow> None | Inr p \<Rightarrow> if event_of p = Need then Some (requested d') else None)"
  have stp: "stp dl i = ((d', log @ [(i, q)]), r)"
    by (simp add: step.prems(1) logged_def dl one q_def split: sum.split)
  note body = step(2)[unfolded range option.case stp prod.case]
  have again: "ending_ok bs y"
    if "self stp rq bs window start2 fin2 stats2 (d', log @ [(i, q)]) = Some y"
      "drive_state_ok bs start2 fin2 (log @ [(i, q)])" for start2 fin2 stats2
    using step(1)[OF that(1)] step.prems(1-3) that(2) by simp
  show ?case
  proof (cases r)
    case (Inl e)
    then show ?thesis using body snoc by (auto simp: ending_ok_def)
  next
    case (Inr p)
    let ?start = "start + min (consumed p) (fin - start)"
    have on: "drive_state_ok bs ?start fin (log @ [(i, q)])" if "q = None"
      using ok snoc[of q] that by (auto simp: drive_state_ok_def answers_def)
    show ?thesis
    proof (cases "event_of p")
      case (Done info)
      then show ?thesis using body snoc Inr by (auto simp: ending_ok_def Let_def)
    next
      case (Rows m n)
      then show ?thesis using body Inr on again by (auto simp: q_def Let_def)
    next
      case (MetadataReady u)
      then show ?thesis using body Inr on again by (auto simp: q_def Let_def)
    next
      case Need
      then have q: "q = Some (requested d')" using Inr by (simp add: q_def)
      have rq: "rq (d', log @ [(i, q)]) = requested d'" by (simp add: step.prems(2))
      show ?thesis
      proof (cases "check_need (requested d') i (consumed p)")
        case (Inl e)
        then show ?thesis using body Inr Need snoc rq by (auto simp: ending_ok_def Let_def)
      next
        case checked: (Inr u)
        then have check: "check_need (requested d') i (consumed p) = Ok ()" by simp
        obtain s e where span: "slice_span ?start fin window (length bs) (requested d') = Some (s, e)"
          using slice_span_Some[OF check] by blast
        have "?start \<le> fin" "fin \<le> length bs" using ok by (auto simp: drive_state_ok_def)
        note serves = slice_span_serves[OF step.prems(3) check total this span]
        obtain q1 qs where "requested d' = q1 # qs" using check by (cases "requested d'") (auto simp: check_need_def)
        then have "drive_state_ok bs s e (log @ [(i, q)])"
          using serves snoc[of q] q by (auto simp: drive_state_ok_def answers_def)
        moreover have "self stp rq bs window s e (count_read (e - s) (count_step stats)) (d', log @ [(i, q)]) = Some y"
          using body Inr Need rq check span serves by (auto simp: Let_def)
        ultimately show ?thesis by (rule again[rotated])
      qed
    qed
  qed
qed

text \<open>
  C24: \<open>drive_from_slice\<close> (drive.rs:151-192), whatever the decoder asks and however much it claims
  to have consumed, never indexes outside the bytes. Every input it offers is the file's own
  bytes at the offset it names, with the file's length; and the input after a \<open>Need\<close> satisfies
  the first request the decoder made.
\<close>

theorem slice_drive_offers:
  assumes "length bs \<le> u64_max"
    "drive_from_slice (logged step requested) (requested \<circ> fst) bs window (d, []) = Some y"
  shows "\<exists>d' log r. y = Returns ((d', log), r) \<and> (\<forall>x \<in> set log. true_input bs (fst x)) \<and> successively answers log"
proof -
  have "drive_state_ok bs 0 0 []" by (simp add: drive_state_ok_def log_ok_def)
  with slice_drive_ok[OF assms(2)[unfolded drive_from_slice_def] refl refl assms(1)]
  have "ending_ok bs y" by simp
  then show ?thesis by (cases y) (auto simp: ending_ok_def log_ok_def)
qed

text \<open>A decoder that asks for two bytes, claims more than it was given, and is done when it has them.\<close>

definition two_byte_decoder :: "(bool, unit, unit, unit) decoder" where
  "two_byte_decoder d i = (if length (in_bytes i) \<ge> 2
     then (True, Ok (progress_new 2 (Done \<lparr> out_width = 1, out_height = 2, native_format = (),
       out_has_alpha = False, orientation_applied = (), crop_applied = None \<rparr>)))
     else (False, Ok (progress_new 5 Need)))"

theorem slice_drive_offers_witness:
  "\<exists>y. drive_from_slice (logged two_byte_decoder (\<lambda>_. [AtLeast 1 2])) ((\<lambda>_. [AtLeast 1 2]) \<circ> fst)
      [7, 8, 9] 1 (False, []) = Some y
     \<and> y = Returns ((True, [(slice_input [7, 8, 9] 0 0, Some [AtLeast 1 2]), (slice_input [7, 8, 9] 1 3, None)]),
         (Ok (\<lparr> out_width = 1, out_height = 2, native_format = (), out_has_alpha = False,
            orientation_applied = (), crop_applied = None \<rparr>,
          \<lparr> n_steps = 2, n_reads = 1, n_bytes_read = 2, n_rows = 0 \<rparr>) :: (unit, unit) drive_failure + _))
     \<and> true_input [7, 8, 9] (slice_input [7, 8, 9] 1 3)"
proof -
  let ?run = "drive_from_slice (logged two_byte_decoder (\<lambda>_. [AtLeast 1 2])) ((\<lambda>_. [AtLeast 1 2]) \<circ> fst)
      [7, 8, 9] 1 (False, [])"
  let ?y = "Returns ((True, [(slice_input [7, 8, 9] 0 0, Some [AtLeast 1 2]), (slice_input [7, 8, 9] 1 3, None)]),
         (Ok (\<lparr> out_width = 1, out_height = 2, native_format = (), out_has_alpha = False,
            orientation_applied = (), crop_applied = None \<rparr>,
          \<lparr> n_steps = 2, n_reads = 1, n_bytes_read = 2, n_rows = 0 \<rparr>) :: (unit, unit) drive_failure + _))"
  have run: "?run = Some ?y"
    by (simp add: drive_from_slice_def slice_drive.simps slice_range_def logged_def two_byte_decoder_def
        progress_new_def check_need_def address_overflows_def slice_span_def width_eval input_end_def stats_zero_def count_step_def count_read_def)
  have "length [7, 8, 9 :: byte] \<le> u64_max" by (simp add: u64_max_def)
  from slice_drive_offers[OF this run] run show ?thesis by auto
qed

subsection \<open>When a cursor returns\<close>

text \<open>
  A stage that reads forward: it claims no more than it was offered, and first asks for bytes
  from where it stopped.
\<close>

definition reads_forward :: "('d, 'e, 'o) stage \<Rightarrow> ('d \<Rightarrow> input_request list) \<Rightarrow> bool" where
  "reads_forward step requested \<longleftrightarrow> (\<forall>d i d' p. step d i = (d', Ok p) \<and> st_kind p = StepNeed \<longrightarrow>
     st_consumed p \<le> length (in_bytes i)
     \<and> (\<forall>r rs. requested d' = r # rs \<longrightarrow> (\<exists>m. r = AtLeast (in_offset i + st_consumed p) m)))"

text \<open>What is left to offer: bytes not yet consumed, then bytes not yet shown.\<close>

definition to_offer :: "byte list \<Rightarrow> slice_cursor \<Rightarrow> nat" where
  "to_offer bs c = (let n = length bs; fin = min (sc_end c) n in (n - min (sc_start c) fin) * (n + 1) + (n - fin))"

lemma to_offer_decreases:
  fixes s e s' e' n :: nat
  assumes "s \<le> e" "e \<le> n" "s' \<le> e'" "e' \<le> n" "s < s' \<or> s' = s \<and> e < e'"
  shows "(n - s') * (n + 1) + (n - e') < (n - s) * (n + 1) + (n - e)"
proof (cases "s < s'")
  case True
  then have "(n - s') + 1 \<le> n - s" using assms by simp
  then have "((n - s') + 1) * (n + 1) \<le> (n - s) * (n + 1)" by (rule mult_le_mono1)
  then have "(n - s') * (n + 1) + (n + 1) \<le> (n - s) * (n + 1)" by (simp only: add_mult_distrib mult_1)
  then show ?thesis by linarith
next
  case False
  then show ?thesis using assms by auto
qed

text \<open>One round that is answered leaves less to offer.\<close>

lemma slice_round_progress:
  assumes "reads_forward step requested" "length bs \<le> u64_max" "slice_offer bs c = (c1, i)"
    and "step d i = (d', Ok p)" "st_kind p = StepNeed" "check_need (requested d') i (st_consumed p) = Ok ()"
  shows "\<exists>c2. slice_serve bs (requested d') (slice_take (st_consumed p) c1) = Some c2 \<and> to_offer bs c2 < to_offer bs c"
proof -
  define fin where "fin = min (sc_end c) (length bs)"
  define start where "start = min (sc_start c) fin"
  have c1: "c1 = c\<lparr>sc_end := fin, sc_start := start\<rparr>" "i = slice_input bs start fin"
    using assms(3) by (simp_all add: slice_offer_def Let_def fin_def start_def)
  have bounds: "start \<le> fin" "fin \<le> length bs" "in_total i = Some (length bs)"
    by (simp add: start_def, simp add: fin_def, simp add: c1)
  obtain q qs where requests: "requested d' = q # qs"
    using assms(6) by (cases "requested d'") (auto simp: check_need_def)
  have forward: "st_consumed p \<le> fin - start" "\<exists>m. q = AtLeast (start + st_consumed p) m"
    using assms(1,4,5) requests bounds unfolding reads_forward_def by (fastforce simp: c1)+
  obtain m where m: "q = AtLeast (start + st_consumed p) m" using forward(2) by blast
  let ?c = "slice_take (st_consumed p) c1"
  have c: "sc_start ?c = start + st_consumed p" "sc_end ?c = fin" "sc_window ?c = sc_window c"
    using forward(1) by (simp_all add: slice_take_def c1)
  obtain s e where span: "slice_span (sc_start ?c) (sc_end ?c) (sc_window ?c) (length bs) (requested d') = Some (s, e)"
    using slice_span_Some[OF assms(6)] by blast
  have "sc_start ?c \<le> sc_end ?c" "sc_end ?c \<le> length bs" using c forward(1) bounds by auto
  note serves = slice_span_serves[OF assms(2,6) bounds(3) this span]
  obtain c2 where c2: "slice_serve bs (requested d') ?c = Some c2" "sc_start c2 = s" "sc_end c2 = e"
    using span serves by (auto simp: slice_serve_def)
  have se: "s = start + st_consumed p" "e = min (saturating_add usize_max s (max m (sc_window c))) (length bs)"
    using span requests m c by (auto simp: slice_span_def)
  have "start < s \<or> s = start \<and> fin < e"
  proof (cases "st_consumed p = 0")
    case True
    then have "\<not> is_satisfied_by q i" using assms(6) requests by (auto simp: check_need_Ok)
    then have "fin - start < m" "fin < length bs"
      using True m bounds assms(2) by (auto simp: c1 input_end_def saturating_add_def min_def split: if_splits)
    then show ?thesis using True se bounds assms(2) by (auto simp: saturating_add_def)
  qed (use se in simp)
  then show ?thesis
    using to_offer_decreases[of start fin "length bs" s e] bounds serves c2
    by (simp add: to_offer_def Let_def fin_def start_def min_def)
qed

text \<open>
  C23: \<open>SliceCursor::next\<close> (stepper.rs:231-251) returns for every stage that reads forward: since a
  \<open>Need\<close> that took nothing from an input that satisfied one of its requests is refused, each
  further round consumes a byte or shows one more. It returns without a panic.
\<close>

theorem slice_next_returns:
  fixes step :: "('d, 'e, 'o) stage"
  assumes "reads_forward step requested" "length bs \<le> u64_max"
  shows "\<exists>x. (slice_next step requested bs c d
    :: (slice_cursor \<times> 'd \<times> (('e, 'se) drive_failure + 'o yield)) ending option) = Some (Returns x)"
proof (induction "to_offer bs c" arbitrary: c d rule: less_induct)
  case (less c)
  obtain c1 i where offer: "slice_offer bs c = (c1, i)" by fastforce
  obtain d' r where one: "step d i = (d', r)" by fastforce
  show ?case
  proof (cases "\<exists>p. r = Ok p \<and> st_kind p = StepNeed \<and> check_need (requested d') i (st_consumed p) = Ok ()")
    case False
    then show ?thesis
      by (subst slice_next.simps)
        (auto simp: offer one Let_def split: sum.splits step_kind.splits)
  next
    case True
    then obtain p where p: "r = Ok p" "st_kind p = StepNeed" "check_need (requested d') i (st_consumed p) = Ok ()"
      by blast
    then obtain c2 where c2: "slice_serve bs (requested d') (slice_take (st_consumed p) c1) = Some c2"
      "to_offer bs c2 < to_offer bs c"
      using slice_round_progress[OF assms offer _ p(2,3)] one by blast
    from less.hyps[OF c2(2), of d'] show ?thesis
      by (subst slice_next.simps) (simp add: offer one p Let_def c2(1))
  qed
qed

text \<open>A stage that asks for more from the start until it has seen three bytes, then yields them.\<close>

definition three_byte_stage :: "(unit, unit, byte list) stage" where
  "three_byte_stage d i = ((), Ok (if length (in_bytes i) \<ge> 3
     then \<lparr> st_consumed = 3, st_kind = StepOutput (in_bytes i) \<rparr>
     else \<lparr> st_consumed = 0, st_kind = StepNeed \<rparr>))"

theorem slice_next_returns_witness:
  "\<exists>x. (slice_next (\<lambda>n i. (in_offset i, snd (three_byte_stage () i))) (\<lambda>n. [AtLeast n 3]) [1, 2, 3, 4] (slice_new 1) 0
     :: (slice_cursor \<times> nat \<times> ((unit, unit) drive_failure + byte list yield)) ending option) = Some (Returns x)"
proof -
  have "reads_forward (\<lambda>n i. (in_offset i, snd (three_byte_stage () i))) (\<lambda>n. [AtLeast n 3])"
    by (auto simp: reads_forward_def three_byte_stage_def split: if_splits)
  from slice_next_returns[OF this, of "[1, 2, 3, 4]"] show ?thesis by (simp add: u64_max_def)
qed

text \<open>A stage that claims a byte of every input and asks for the first byte again.\<close>

definition claims_one :: "(unit, unit, unit) stage" where
  "claims_one d i = ((), Ok \<lparr> st_consumed = 1, st_kind = StepNeed \<rparr>)"

lemma claims_one_spins:
  assumes "slice_next step requested bs c d = Some y" "step = claims_one" "requested = (\<lambda>_. [AtLeast 0 1])" "bs = []"
  shows False
  using assms
proof (induction step requested bs c d y rule: slice_next.raw_induct[rotated 1, consumes 1, case_names step])
  case (step self stp rq bs c d y)
  have "check_need [AtLeast 0 1] (slice_input [] 0 0) 1 = Ok ()"
    by (simp add: check_need_Ok address_overflows_def u64_max_def)
  then show ?case using step
    by (auto simp: slice_offer_def claims_one_def Let_def slice_serve_def slice_span_def)
qed

text \<open>
  C39: \<open>SliceCursor::next\<close> need not return when a stage claims more than it was offered:
  \<open>check_need\<close> (window.rs:260-264) looks at the consumption the stage reports, not at what could
  be taken, so a stage that claims a byte of an empty input at the end of the file and asks
  again is never refused and never served anything new.
\<close>

theorem slice_next_spins:
  "(slice_next claims_one (\<lambda>_. [AtLeast 0 1]) [] (slice_new w) ()
     :: (slice_cursor \<times> unit \<times> ((unit, unit) drive_failure + unit yield)) ending option) = None"
  using claims_one_spins[OF _ refl refl refl] by (metis not_None_eq)

end
