(* ===== verification/Read_At_Driver.thy ===== *)
theory Read_At_Driver
  imports Slice_Driver Byte_Source
begin

text \<open>
  Driving a resumable decoder over a random-access source: \<open>ReadAtCursor\<close> of
  \<open>zencodec-io/src/stepper.rs\<close> and \<open>drive_from_read_at\<close> of \<open>zencodec-io/src/drive.rs\<close>. The source
  is a record of its operations; the interface \<open>read_at_source\<close> says that they answer with the
  bytes of one content, as \<open>ReadAt\<close> documents, and is interpreted on the slice and file sources.
\<close>

subsection \<open>Sources\<close>

record ('s, 'e) source_ops =
  so_hint :: "'s \<Rightarrow> nat option"
  so_len :: "'s \<Rightarrow> 's \<times> ('e + nat)"
  so_read_at :: "('s, 'e) positional_read"
  so_read_exact_at :: "('s, 'e) positional_read"
  so_read_many_at :: "'s \<Rightarrow> (nat \<times> nat) list \<Rightarrow> 's \<times> ('e + byte list list)"
  so_slice :: "'s \<Rightarrow> byte list option"

locale read_at_source = positional_source ok content "so_read_at ops"
  for ok :: "'s \<Rightarrow> bool" and content :: "'s \<Rightarrow> byte list" and ops :: "('s, 'e) source_ops" +
  assumes addressed: "ok s \<Longrightarrow> length (content s) \<le> u64_max"
    and exact: "ok s \<Longrightarrow> so_read_exact_at ops s offset n = (s', r) \<Longrightarrow> ok s' \<and> content s' = content s
      \<and> (\<forall>bs. r = Ok bs \<longrightarrow> length bs = n \<and> piece (content s) offset bs)"
    and many: "ok s \<Longrightarrow> so_read_many_at ops s reqs = (s', q) \<Longrightarrow> ok s' \<and> content s' = content s
      \<and> (\<forall>bss. q = Ok bss \<longrightarrow> list_all2 (\<lambda>req bs. length bs = snd req \<and> piece (content s) (fst req) bs) reqs bss)"
    and len: "ok s \<Longrightarrow> so_len ops s = (s', m) \<Longrightarrow> ok s' \<and> content s' = content s
      \<and> (\<forall>n. m = Ok n \<longrightarrow> n = length (content s))"
    and hint: "ok s \<Longrightarrow> so_hint ops s = Some n \<Longrightarrow> n = length (content s)"
    and in_memory: "ok s \<Longrightarrow> so_slice ops s = Some bs \<Longrightarrow> bs = content s"

lemma default_many_exact:
  assumes exact: "\<And>s offset n s' r. ok s \<Longrightarrow> rd s offset n = (s', r) \<Longrightarrow> ok s' \<and> content s' = content s
      \<and> (\<forall>bs. r = Ok bs \<longrightarrow> length bs = n \<and> piece (content s) offset bs)"
    and "ok s" "default_read_many_at rd s reqs = (s', q)"
  shows "ok s' \<and> content s' = content s
      \<and> (\<forall>bss. q = Ok bss \<longrightarrow> list_all2 (\<lambda>req bs. length bs = snd req \<and> piece (content s) (fst req) bs) reqs bss)"
  using assms(2,3)
proof (induction reqs arbitrary: s s' q)
  case (Cons req reqs)
  obtain offset n where req: "req = (offset, n)" by fastforce
  obtain s1 r where one: "rd s offset n = (s1, r)" by fastforce
  note first = exact[OF Cons.prems(1) one]
  show ?case
  proof (cases r)
    case (Inl e)
    then show ?thesis using Cons.prems(2) first one req by auto
  next
    case (Inr bs)
    obtain s2 q2 where rest: "default_read_many_at rd s1 reqs = (s2, q2)" by fastforce
    have s1: "ok s1" "content s1 = content s" using first by auto
    note later = Cons.IH[OF s1(1) rest, unfolded s1(2)]
    have run: "s' = s2 \<and> q = (case q2 of Inl e \<Rightarrow> Err e | Inr bss \<Rightarrow> Ok (bs # bss))"
      using Cons.prems(2) one rest req Inr by (auto split: sum.splits)
    show ?thesis using run later first Inr req by (auto split: sum.splits)
  qed
qed auto

definition slice_ops :: "(byte list, source_error) source_ops" where
  "slice_ops = \<lparr> so_hint = (\<lambda>bs. Some (length bs)), so_len = slice_len, so_read_at = slice_read_at,
     so_read_exact_at = slice_read_exact_at,
     so_read_many_at = default_read_many_at slice_read_exact_at, so_slice = Some \<rparr>"

lemma slice_exact:
  assumes "slice_read_exact_at s offset n = (s', r)"
  shows "s' = s \<and> (\<forall>bs. r = Ok bs \<longrightarrow> length bs = n \<and> piece s offset bs)"
  using assms piece_take[of s offset n]
  by (auto simp: slice_read_exact_at_def split: option.splits if_splits)

lemma slice_exact_ok:
  "addressable s \<Longrightarrow> slice_read_exact_at s offset n = (s', r) \<Longrightarrow> addressable s' \<and> s' = s
     \<and> (\<forall>bs. r = Ok bs \<longrightarrow> length bs = n \<and> piece s offset bs)"
  using slice_exact by blast

interpretation in_memory: read_at_source addressable "\<lambda>bs. bs" slice_ops
proof
  show "addressable s \<Longrightarrow> so_read_at slice_ops s offset n = (s', r) \<Longrightarrow>
      addressable s' \<and> s' = s \<and> (\<forall>bs. r = Ok bs \<longrightarrow> bs = take n (drop offset s))" for s offset n s' r
    using slice.reads[of s offset n s' r] by (simp add: slice_ops_def)
  show "addressable s \<Longrightarrow> so_read_exact_at slice_ops s offset n = (s', r) \<Longrightarrow>
      addressable s' \<and> s' = s \<and> (\<forall>bs. r = Ok bs \<longrightarrow> length bs = n \<and> piece s offset bs)" for s offset n s' r
    using slice_exact_ok[of s offset n s' r] by (simp add: slice_ops_def)
  show "addressable s \<Longrightarrow> so_read_many_at slice_ops s reqs = (s', q) \<Longrightarrow> addressable s' \<and> s' = s
      \<and> (\<forall>bss. q = Ok bss \<longrightarrow> list_all2 (\<lambda>req bs. length bs = snd req \<and> piece s (fst req) bs) reqs bss)"
    for s reqs s' q
    using default_many_exact[of addressable slice_read_exact_at "\<lambda>bs. bs", OF slice_exact_ok]
    by (simp add: slice_ops_def)
qed (auto simp: slice_ops_def slice_len_def addressable_def)

text \<open>A file whose positional reads return what they were asked for, of a content that does not change.\<close>

definition stable_file :: "byte list \<Rightarrow> 'e file_source \<Rightarrow> bool" where
  "stable_file f s \<longleftrightarrow> file_len s = length f \<and> length f \<le> u64_max
     \<and> (\<forall>offset n bs. pread s offset n = Ok bs \<longrightarrow> length bs = n \<and> piece f offset bs)"

definition file_ops :: "('e file_source, 'e std_source_error) source_ops" where
  "file_ops = \<lparr> so_hint = (\<lambda>s. Some (file_len s)), so_len = file_source_len, so_read_at = file_read_at,
     so_read_exact_at = file_read_exact_at,
     so_read_many_at = default_read_many_at file_read_exact_at, so_slice = (\<lambda>_. None) \<rparr>"

lemma file_exact:
  assumes "stable_file f s" "file_read_exact_at s offset n = (s', r)"
  shows "s' = s \<and> (\<forall>bs. r = Ok bs \<longrightarrow> length bs = n \<and> piece f offset bs)"
  using assms
  by (auto simp: file_read_exact_at_def stable_file_def split: if_splits sum.splits option.splits)

lemma file_exact_ok:
  "stable_file f s \<Longrightarrow> file_read_exact_at s offset n = (s', r) \<Longrightarrow> stable_file f s' \<and> f = f
     \<and> (\<forall>bs. r = Ok bs \<longrightarrow> length bs = n \<and> piece f offset bs)"
  using file_exact by blast

lemma piece_take_exact: "piece f offset bs \<Longrightarrow> length bs = min (length f - offset) n \<Longrightarrow> bs = take n (drop offset f)"
  unfolding piece_def by (metis length_drop min.commute take_all_iff take_take linorder_le_cases min.absorb1)

lemma file_reads:
  assumes "stable_file f s" "file_read_at s offset n = (s', r)"
  shows "s' = s \<and> (\<forall>bs. r = Ok bs \<longrightarrow> bs = take n (drop offset f))"
proof -
  have run: "file_read_exact_at s offset (min (length f - offset) n) = (s', r)"
    using assms by (simp add: file_read_at_def default_read_at_def file_source_len_def stable_file_def)
  show ?thesis using file_exact[OF assms(1) run] piece_take_exact[of f offset _ n] by blast
qed

interpretation on_disk: read_at_source "stable_file f" "\<lambda>_. f" file_ops for f
proof
  show "stable_file f s \<Longrightarrow> so_read_at file_ops s offset n = (s', r) \<Longrightarrow>
      stable_file f s' \<and> f = f \<and> (\<forall>bs. r = Ok bs \<longrightarrow> bs = take n (drop offset f))"
    for s :: "'a file_source" and offset n s' r
    using file_reads[of f s offset n s' r] by (simp add: file_ops_def)
  show "stable_file f s \<Longrightarrow> so_read_exact_at file_ops s offset n = (s', r) \<Longrightarrow>
      stable_file f s' \<and> f = f \<and> (\<forall>bs. r = Ok bs \<longrightarrow> length bs = n \<and> piece f offset bs)"
    for s :: "'a file_source" and offset n s' r
    using file_exact_ok[of f s offset n s' r] by (simp add: file_ops_def)
  show "stable_file f s \<Longrightarrow> so_read_many_at file_ops s reqs = (s', q) \<Longrightarrow> stable_file f s' \<and> f = f
      \<and> (\<forall>bss. q = Ok bss \<longrightarrow> list_all2 (\<lambda>req bs. length bs = snd req \<and> piece f (fst req) bs) reqs bss)"
    for s :: "'a file_source" and reqs s' q
    using default_many_exact[of "stable_file f" file_read_exact_at "\<lambda>_. f", OF file_exact_ok]
    by (simp add: file_ops_def)
qed (auto simp: file_ops_def file_source_len_def stable_file_def)

subsection \<open>The cursor\<close>

record cursor =
  cu_opts :: drive_options
  cu_stats :: drive_stats
  cu_window :: window
  cu_started :: bool
  cu_fetched :: fetched
  cu_coalesced :: "byte_range list"
  cu_from :: "(nat \<times> nat) option"
  cu_slice :: "slice_cursor option"

definition cursor_new :: "drive_options \<Rightarrow> cursor" where
  "cursor_new opts = \<lparr> cu_opts = opts, cu_stats = stats_zero, cu_window = window_new, cu_started = False,
     cu_fetched = [], cu_coalesced = [], cu_from = None, cu_slice = None \<rparr>"

definition cursor_stats :: "cursor \<Rightarrow> drive_stats" where
  "cursor_stats c = (case cu_slice c of Some sc \<Rightarrow> sc_stats sc | None \<Rightarrow> cu_stats c)"

definition retained_input_capacity :: "cursor \<Rightarrow> nat" where
  "retained_input_capacity c =
     saturating_add usize_max (window_capacity (cu_window c)) (fetched_capacity (cu_fetched c))"

abbreviation limits_of :: "cursor \<Rightarrow> io_limits" where
  "limits_of c \<equiv> opt_limits (cu_opts c)"

text \<open>The first call of \<open>offer\<close> looks whether the source is in memory.\<close>

definition cursor_start :: "('s, 'e) source_ops \<Rightarrow> 's \<Rightarrow> cursor \<Rightarrow> cursor" where
  "cursor_start ops s c =
     (if cu_started c then c
      else let c = c\<lparr>cu_started := True\<rparr> in
        case so_slice ops s of
          Some _ \<Rightarrow> c\<lparr>cu_slice := Some (slice_new (read_size (cu_opts c)))\<rparr>
        | None \<Rightarrow> c\<lparr>cu_window := (cu_window c)\<lparr>w_total := so_hint ops s\<rparr>\<rparr>)"

definition cursor_offer :: "('s, 'e) source_ops \<Rightarrow> 's \<Rightarrow> cursor \<Rightarrow> (cursor \<times> input) option" where
  "cursor_offer ops s c0 =
     (let c = cursor_start ops s c0 in
      case cu_slice c of
        Some sc \<Rightarrow> (case so_slice ops s of
          None \<Rightarrow> None
        | Some bs \<Rightarrow> (case slice_offer bs sc of (sc, i) \<Rightarrow> Some (c\<lparr>cu_slice := Some sc\<rparr>, i)))
      | None \<Rightarrow> (case cu_from c of
          None \<Rightarrow> Some (c, window_input (cu_window c))
        | Some (k, at) \<Rightarrow>
            if k < length (cu_fetched c) \<and> at \<le> length (vec_bytes (snd (cu_fetched c ! k)))
            then Some (c, with_total_len_opt (w_total (cu_window c))
                   (input_new (wrap u64_max (fst (cu_fetched c ! k) + at)) (drop at (vec_bytes (snd (cu_fetched c ! k))))))
            else None))"

definition cursor_take :: "nat \<Rightarrow> cursor \<Rightarrow> cursor" where
  "cursor_take n c = (case cu_slice c of
     Some sc \<Rightarrow> c\<lparr>cu_slice := Some (slice_take n sc)\<rparr>
   | None \<Rightarrow>
       let c = c\<lparr>cu_stats := count_step (cu_stats c)\<rparr> in
       case cu_from c of
         Some (k, at) \<Rightarrow>
           let len = (if k < length (cu_fetched c) then length (vec_bytes (snd (cu_fetched c ! k))) else 0)
           in c\<lparr>cu_from := Some (k, min (saturating_add usize_max at n) len)\<rparr>
       | None \<Rightarrow> c\<lparr>cu_window := window_consume n (cu_window c)\<rparr>)"

subsection \<open>Serving a request\<close>

type_synonym ('s, 'e, 'se) served = "(cursor \<times> 's \<times> (('e, 'se) drive_failure + unit)) ending"

text \<open>The loop that reads until the window holds \<open>target\<close> bytes or the source ends.\<close>

partial_function (option) fill_window ::
    "alloc \<Rightarrow> ('s, 'se) source_ops \<Rightarrow> nat \<Rightarrow> cursor \<Rightarrow> 's \<Rightarrow> ('s, 'e, 'se) served option" where
  "fill_window al ops target c s =
     (let w = cu_window c in
      if window_len w < target \<and> w_total w \<noteq> Some (window_end w)
      then let fin = window_end w; want = min (target - window_len w) (u64_max - fin) in
        case checked_sub (input_bytes (limits_of c)) (fetched_capacity (cu_fetched c)) of
          None \<Rightarrow> Some Panics
        | Some room \<Rightarrow> (case try_spare al want room w of
            (w, Inl e) \<Rightarrow> Some (Returns (c\<lparr>cu_window := w\<rparr>, s, Err (InputFailed e)))
          | (w, Inr _) \<Rightarrow> (case so_read_at ops s fin want of
              (s, Inl e) \<Rightarrow> Some (Returns (c\<lparr>cu_window := w\<rparr>, s, Err (SourceFailed e)))
            | (s, Inr bs) \<Rightarrow>
                let w = commit (length bs) (window_fill bs w);
                    w = (if length bs < want then w\<lparr>w_total := Some (wrap u64_max (fin + length bs))\<rparr> else w)
                in fill_window al ops target
                     (c\<lparr>cu_window := w, cu_stats := count_read (length bs) (cu_stats c)\<rparr>) s))
      else Some (Returns (c, s, Ok ())))"

definition serve_at_least ::
    "alloc \<Rightarrow> ('s, 'se) source_ops \<Rightarrow> nat \<Rightarrow> nat \<Rightarrow> cursor \<Rightarrow> 's \<Rightarrow> ('s, 'e, 'se) served option" where
  "serve_at_least al ops offset min_len c s =
     (let c = c\<lparr>cu_from := None\<rparr>; l = limits_of c in
      case move_to offset (cu_window c) (cu_fetched c) of (w, fs, _) \<Rightarrow>
        let c = c\<lparr>cu_window := w, cu_fetched := fs\<rparr> in
        if window_len w \<ge> max min_len 1 then Some (Returns (c, s, Ok ()))
        else case admit_reading l of
          Inl e \<Rightarrow> Some (Returns (c, s, Err (InputFailed e)))
        | Inr _ \<Rightarrow>
            let target = min (min (read_target min_len (read_size (cu_opts c))) (input_bytes l)) (u64_max - offset);
                c = c\<lparr>cu_fetched := make_room (window_capacity w) fs target l\<rparr>
            in fill_window al ops target c s)"

definition holds_range :: "byte_range \<Rightarrow> nat \<times> vec \<Rightarrow> bool" where
  "holds_range r e \<longleftrightarrow> br_offset r \<ge> fst e \<and> range_end r \<le> wrap u64_max (fst e + length (vec_bytes (snd e)))"

fun find_index_from :: "nat \<Rightarrow> ('a \<Rightarrow> bool) \<Rightarrow> 'a list \<Rightarrow> nat option" where
  "find_index_from k P [] = None"
| "find_index_from k P (x # xs) = (if P x then Some k else find_index_from (Suc k) P xs)"

fun read_batches ::
    "('s, 'se) source_ops \<Rightarrow> nat \<Rightarrow> nat \<Rightarrow> fetched \<Rightarrow> fetched \<Rightarrow> drive_stats \<Rightarrow> 's
      \<Rightarrow> drive_stats \<times> 's \<times> ('se + fetched)" where
  "read_batches ops 0 n acc fs stats s = (stats, s, Ok acc)"
| "read_batches ops (Suc fuel) n acc fs stats s =
     (if fs = [] then (stats, s, Ok acc)
      else (case so_read_many_at ops s (map (\<lambda>(offset, v). (offset, length (vec_bytes v))) (take n fs)) of
        (s, Inl e) \<Rightarrow> (stats, s, Err e)
      | (s, Inr bss) \<Rightarrow>
          read_batches ops fuel n
            (acc @ map2 (\<lambda>(offset, v) bs. (offset, v\<lparr>vec_bytes := bs\<rparr>)) (take n fs) bss)
            (drop n fs) (stats\<lparr>n_reads := n_reads stats + 1\<rparr>) s))"

definition serve_round ::
    "alloc \<Rightarrow> nat \<Rightarrow> ('s, 'se) source_ops \<Rightarrow> byte_range \<Rightarrow> input_request list \<Rightarrow> cursor \<Rightarrow> 's
      \<Rightarrow> ('s, 'e, 'se) served" where
  "serve_round al entry_size ops first requests c s =
     (let l = limits_of c in
      case plan al first requests (max_gap (cu_opts c)) l of
        None \<Rightarrow> Panics
      | Some (Inl e) \<Rightarrow> Returns (c, s, Err (InputFailed e))
      | Some (Inr rs) \<Rightarrow>
          let pending = cu_fetched c;
              c = c\<lparr>cu_coalesced := rs, cu_window := release (cu_window c), cu_fetched := []\<rparr>
          in case allocate_ranges al entry_size rs l pending of
            (_, Inl e) \<Rightarrow> Returns (c, s, Err (InputFailed e))
          | (pending, Inr _) \<Rightarrow> (case reserve_elements al 24 (length pending) of
              Inl e \<Rightarrow> Returns (c, s, Err (InputFailed e))
            | Inr _ \<Rightarrow>
                if in_flight l = 0 then Panics
                else (case read_batches ops (length pending) (in_flight l) [] pending (cu_stats c) s of
                  (stats, s, Inl e) \<Rightarrow> Returns (c\<lparr>cu_stats := stats\<rparr>, s, Err (SourceFailed e))
                | (stats, s, Inr pending) \<Rightarrow>
                    let c = c\<lparr>cu_fetched := pending,
                      cu_stats := stats\<lparr>n_bytes_read := n_bytes_read stats + sum_list (map br_length rs)\<rparr>\<rparr>
                    in case find_index_from 0 (holds_range first) pending of
                      None \<Rightarrow> Panics
                    | Some k \<Rightarrow>
                        Returns (c\<lparr>cu_from := Some (k, br_offset first - fst (pending ! k))\<rparr>, s, Ok ()))))"

definition serve_tail ::
    "alloc \<Rightarrow> ('s, 'se) source_ops \<Rightarrow> byte_range \<Rightarrow> cursor \<Rightarrow> 's \<Rightarrow> ('s, 'e, 'se) served" where
  "serve_tail al ops first c s =
     (let l = limits_of c; w = cu_window c in
      case checked_sub (range_end first) (window_end w) of
        None \<Rightarrow> Panics
      | Some missing \<Rightarrow>
          let offset = window_end w in
          case admit_reading l of
            Inl e \<Rightarrow> Returns (c, s, Err (InputFailed e))
          | Inr _ \<Rightarrow>
              let c = c\<lparr>cu_fetched := make_room (window_capacity w) (cu_fetched c) (br_length first) l\<rparr> in
              case checked_sub (input_bytes l) (fetched_capacity (cu_fetched c)) of
                None \<Rightarrow> Panics
              | Some room \<Rightarrow> (case try_spare al missing room w of
                  (w, Inl e) \<Rightarrow> Returns (c\<lparr>cu_window := w\<rparr>, s, Err (InputFailed e))
                | (w, Inr _) \<Rightarrow> (case so_read_exact_at ops s offset missing of
                    (s, Inl e) \<Rightarrow> Returns (c\<lparr>cu_window := w\<rparr>, s, Err (SourceFailed e))
                  | (s, Inr bs) \<Rightarrow>
                      Returns (c\<lparr>cu_window := commit missing (window_fill bs w),
                                cu_stats := count_read missing (cu_stats c)\<rparr>, s, Ok ()))))"

definition serve_range ::
    "alloc \<Rightarrow> nat \<Rightarrow> ('s, 'se) source_ops \<Rightarrow> byte_range \<Rightarrow> input_request list \<Rightarrow> cursor \<Rightarrow> 's
      \<Rightarrow> ('s, 'e, 'se) served" where
  "serve_range al entry_size ops first requests c s =
     (let w = cu_window c in
      if br_offset first \<ge> w_base w \<and> range_end first \<le> window_end w
      then Returns (c\<lparr>cu_from := None, cu_window := window_consume (br_offset first - w_base w) w\<rparr>, s, Ok ())
      else case find_index_from 0 (holds_range first) (cu_fetched c) of
        Some k \<Rightarrow> Returns (c\<lparr>cu_from := Some (k, br_offset first - fst (cu_fetched c ! k))\<rparr>, s, Ok ())
      | None \<Rightarrow> (case move_to (br_offset first) w (cu_fetched c) of (w, fs, found) \<Rightarrow>
          let c = c\<lparr>cu_from := None, cu_window := w, cu_fetched := fs\<rparr> in
          if found then serve_tail al ops first c s
          else serve_round al entry_size ops first requests c s))"

definition serve_len :: "('s, 'se) source_ops \<Rightarrow> cursor \<Rightarrow> 's \<Rightarrow> ('s, 'e, 'se) served" where
  "serve_len ops c s =
     (let c = c\<lparr>cu_from := None\<rparr> in
      if w_total (cu_window c) \<noteq> None then Returns (c, s, Ok ())
      else case admit_reading (limits_of c) of
        Inl e \<Rightarrow> Returns (c, s, Err (InputFailed e))
      | Inr _ \<Rightarrow> (case so_len ops s of
          (s, Inl e) \<Rightarrow> Returns (c, s, Err (SourceFailed e))
        | (s, Inr n) \<Rightarrow> Returns (c\<lparr>cu_window := (cu_window c)\<lparr>w_total := Some n\<rparr>\<rparr>, s, Ok ())))"

definition cursor_serve ::
    "alloc \<Rightarrow> nat \<Rightarrow> ('s, 'se) source_ops \<Rightarrow> input_request list \<Rightarrow> cursor \<Rightarrow> 's
      \<Rightarrow> ('s, 'e, 'se) served option" where
  "cursor_serve al entry_size ops requests c s = (case select (limits_of c) requests of
     Inl e \<Rightarrow> Some (Returns (c, s, Err (InputFailed e)))
   | Inr request \<Rightarrow> (case request of
       AtLeast offset min_len \<Rightarrow> serve_at_least al ops offset min_len c s
     | RangeOf first \<Rightarrow> Some (serve_range al entry_size ops first requests c s)
     | Len \<Rightarrow> Some (serve_len ops c s)))"

subsection \<open>The loops over a cursor\<close>

partial_function (option) read_at_loop ::
    "alloc \<Rightarrow> nat \<Rightarrow> ('s, 'se) source_ops \<Rightarrow> ('d, 'e, 'o) stage \<Rightarrow> ('d \<Rightarrow> input_request list)
      \<Rightarrow> cursor \<Rightarrow> 'd \<Rightarrow> 's \<Rightarrow> (cursor \<times> 'd \<times> 's \<times> (('e, 'se) drive_failure + 'o yield)) ending option" where
  "read_at_loop al entry_size ops step requested c d s = (case cursor_offer ops s c of
     None \<Rightarrow> Some Panics
   | Some (c, i) \<Rightarrow> (case step d i of
       (d, Inl e) \<Rightarrow> Some (Returns (c, d, s, Err (StepFailed e)))
     | (d, Inr p) \<Rightarrow> (case st_kind p of
         StepOutput x \<Rightarrow> Some (Returns (cursor_take (st_consumed p) c, d, s, Ok (YieldOutput x)))
       | StepFinished x \<Rightarrow> Some (Returns (cursor_take (st_consumed p) c, d, s, Ok (YieldFinished x)))
       | StepNeed \<Rightarrow> (case check_need (requested d) i (st_consumed p) of
           Inl e \<Rightarrow> Some (Returns (c, d, s, Err (Protocol e)))
         | Inr _ \<Rightarrow> (case cursor_serve al entry_size ops (requested d) (cursor_take (st_consumed p) c) s of
             None \<Rightarrow> None
           | Some Panics \<Rightarrow> Some Panics
           | Some (Returns (c, s, r)) \<Rightarrow> (case r of
               Inl e \<Rightarrow> Some (Returns (c, d, s, Err e))
             | Inr _ \<Rightarrow> read_at_loop al entry_size ops step requested c d s))))))"

definition read_at_next ::
    "alloc \<Rightarrow> nat \<Rightarrow> ('s, 'se) source_ops \<Rightarrow> ('d, 'e, 'o) stage \<Rightarrow> ('d \<Rightarrow> input_request list)
      \<Rightarrow> cursor \<Rightarrow> 'd \<Rightarrow> 's \<Rightarrow> (cursor \<times> 'd \<times> 's \<times> (('e, 'se) drive_failure + 'o yield)) ending option" where
  "read_at_next al entry_size ops step requested c0 d s =
     (let c = (if \<not> cu_started c0 \<and> so_slice ops s \<noteq> None
               then c0\<lparr>cu_started := True, cu_slice := Some (slice_new (read_size (cu_opts c0)))\<rparr> else c0)
      in case cu_slice c of
           Some sc \<Rightarrow> (case so_slice ops s of
             None \<Rightarrow> Some Panics
           | Some bs \<Rightarrow> (case slice_next step requested bs sc d of
               None \<Rightarrow> None
             | Some Panics \<Rightarrow> Some Panics
             | Some (Returns (sc, d, r)) \<Rightarrow> Some (Returns (c\<lparr>cu_slice := Some sc\<rparr>, d, s, r))))
         | None \<Rightarrow> read_at_loop al entry_size ops step requested c d s)"

partial_function (option) read_at_drive ::
    "alloc \<Rightarrow> nat \<Rightarrow> ('s, 'se) source_ops \<Rightarrow> ('d, 'e, 'p, 'o) decoder \<Rightarrow> ('d \<Rightarrow> input_request list)
      \<Rightarrow> nat \<Rightarrow> cursor \<Rightarrow> 'd \<Rightarrow> 's
      \<Rightarrow> ('d \<times> 's \<times> (('e, 'se) drive_failure + ('p, 'o) output_info \<times> drive_stats)) ending option" where
  "read_at_drive al entry_size ops step requested rows c d s = (case cursor_offer ops s c of
     None \<Rightarrow> Some Panics
   | Some (c, i) \<Rightarrow> (case step d i of
       (d, Inl e) \<Rightarrow> Some (Returns (d, s, Err (StepFailed e)))
     | (d, Inr p) \<Rightarrow> (case event_of p of
         Done info \<Rightarrow> Some (Returns (d, s, Ok (info, (cursor_stats (cursor_take (consumed p) c))\<lparr>n_rows := rows\<rparr>)))
       | Rows m n \<Rightarrow> read_at_drive al entry_size ops step requested (rows + n) (cursor_take (consumed p) c) d s
       | MetadataReady u \<Rightarrow> read_at_drive al entry_size ops step requested rows (cursor_take (consumed p) c) d s
       | Need \<Rightarrow> (case check_need (requested d) i (consumed p) of
           Inl e \<Rightarrow> Some (Returns (d, s, Err (Protocol e)))
         | Inr _ \<Rightarrow> (case cursor_serve al entry_size ops (requested d) (cursor_take (consumed p) c) s of
             None \<Rightarrow> None
           | Some Panics \<Rightarrow> Some Panics
           | Some (Returns (c, s, r)) \<Rightarrow> (case r of
               Inl e \<Rightarrow> Some (Returns (d, s, Err e))
             | Inr _ \<Rightarrow> read_at_drive al entry_size ops step requested rows c d s))))))"

definition drive_from_read_at ::
    "alloc \<Rightarrow> nat \<Rightarrow> ('s, 'se) source_ops \<Rightarrow> ('d, 'e, 'p, 'o) decoder \<Rightarrow> ('d \<Rightarrow> input_request list)
      \<Rightarrow> drive_options \<Rightarrow> 'd \<Rightarrow> 's
      \<Rightarrow> ('d \<times> 's \<times> (('e, 'se) drive_failure + ('p, 'o) output_info \<times> drive_stats)) ending option" where
  "drive_from_read_at al entry_size ops step requested opts d s = (case so_slice ops s of
     Some bs \<Rightarrow> (case drive_from_slice step requested bs (read_size opts) d of
       None \<Rightarrow> None
     | Some Panics \<Rightarrow> Some Panics
     | Some (Returns (d, r)) \<Rightarrow> Some (Returns (d, s, r)))
   | None \<Rightarrow> read_at_drive al entry_size ops step requested 0 (cursor_new opts) d s)"

subsection \<open>What a cursor keeps\<close>

definition store_ok :: "byte list \<Rightarrow> cursor \<Rightarrow> bool" where
  "store_ok f c \<longleftrightarrow> cu_slice c = None \<and> holds f (cu_window c) \<and> (\<forall>e \<in> set (cu_fetched c). holds_entry f e)
     \<and> retained_input_capacity c \<le> input_bytes (limits_of c)"

definition from_ok :: "cursor \<Rightarrow> bool" where
  "from_ok c \<longleftrightarrow> (case cu_from c of None \<Rightarrow> True
     | Some (k, at) \<Rightarrow> k < length (cu_fetched c) \<and> at \<le> length (vec_bytes (snd (cu_fetched c ! k))))"

definition total_ok :: "byte list \<Rightarrow> cursor \<Rightarrow> bool" where
  "total_ok f c \<longleftrightarrow> w_total (cu_window c) = None \<or> w_total (cu_window c) = Some (length f)"

definition cursor_input :: "cursor \<Rightarrow> input" where
  "cursor_input c = (case cu_from c of
     None \<Rightarrow> window_input (cu_window c)
   | Some (k, at) \<Rightarrow> with_total_len_opt (w_total (cu_window c))
       (input_new (wrap u64_max (fst (cu_fetched c ! k) + at)) (drop at (vec_bytes (snd (cu_fetched c ! k))))))"

lemma cursor_offer_input:
  assumes "store_ok f c" "from_ok c" "cu_started c"
  shows "cursor_offer ops s c = Some (c, cursor_input c)"
  using assms
  by (auto simp: cursor_offer_def cursor_start_def store_ok_def from_ok_def cursor_input_def Let_def
      split: option.splits)

lemma window_input_simps [simp]:
  "in_offset (window_input w) = w_base w" "in_bytes (window_input w) = window_bytes w"
  "in_total (window_input w) = w_total w"
  by (simp_all add: window_input_def with_total_len_opt_def input_new_def)

lemma cursor_input_piece:
  assumes "store_ok f c" "from_ok c" "length f \<le> u64_max"
  shows "piece f (in_offset (cursor_input c)) (in_bytes (cursor_input c))"
proof (cases "cu_from c")
  case None
  then show ?thesis using assms(1) by (simp add: cursor_input_def store_ok_def holds_def)
next
  case (Some ka)
  obtain k at where ka: "ka = (k, at)" by fastforce
  let ?e = "cu_fetched c ! k"
  have k: "k < length (cu_fetched c)" "at \<le> length (vec_bytes (snd ?e))"
    using assms(2) Some ka by (auto simp: from_ok_def)
  then have e: "holds_entry f ?e" using assms(1) by (simp add: store_ok_def)
  have p: "piece f (fst ?e + at) (drop at (vec_bytes (snd ?e)))"
    using piece_drop[OF _ k(2)] e by (simp add: holds_entry_def)
  have "drop at (vec_bytes (snd ?e)) = [] \<or> fst ?e + at \<le> u64_max"
    using p assms(3) unfolding piece_iff by auto
  then show ?thesis using p Some ka
    by (auto simp: cursor_input_def with_total_len_opt_def input_new_def)
qed

text \<open>What serving \<open>q\<close> from state \<open>s\<close> and cursor \<open>c\<close> must come to.\<close>

fun starts_within :: "nat \<Rightarrow> input_request \<Rightarrow> bool" where
  "starts_within n (AtLeast offset m) \<longleftrightarrow> offset \<le> n"
| "starts_within n _ \<longleftrightarrow> True"

definition delivers ::
    "('s \<Rightarrow> bool) \<Rightarrow> ('s \<Rightarrow> byte list) \<Rightarrow> 's \<Rightarrow> cursor \<Rightarrow> input_request \<Rightarrow> ('s, 'e, 'se) served \<Rightarrow> bool" where
  "delivers ok content s c q x \<longleftrightarrow> (case x of Panics \<Rightarrow> False
   | Returns (c', s', r) \<Rightarrow> ok s' \<and> content s' = content s \<and> store_ok (content s) c' \<and> from_ok c'
       \<and> cu_opts c' = cu_opts c \<and> cu_started c' = cu_started c
       \<and> (r = Ok () \<longrightarrow> is_satisfied_by q (cursor_input c'))
       \<and> (total_ok (content s) c \<and> starts_within (length (content s)) q \<longrightarrow> total_ok (content s) c'))"

lemma sum_swap_remove:
  assumes "i < length xs"
  shows "sum_list (map g (swap_remove i xs)) + (g (xs ! i) :: nat) = sum_list (map g xs)"
proof -
  have "xs \<noteq> []" using assms by auto
  then have "xs[i := last xs] \<noteq> []" "last (xs[i := last xs]) = last xs"
    by (simp_all add: last_list_update)
  then have "map g (xs[i := last xs]) = map g (swap_remove i xs) @ [g (last xs)]"
    unfolding swap_remove_def by (metis append_butlast_last_id list.simps(8,9) map_append)
  then have "sum_list (map g (swap_remove i xs)) + g (last xs) = sum_list ((map g xs)[i := g (last xs)])"
    by (simp add: map_update)
  also have "\<dots> = sum_list (map g xs) + g (last xs) - g (xs ! i)"
    using assms by (simp add: sum_list_update)
  finally show ?thesis
    using elem_le_sum_list[of i "map g xs"] assms by simp
qed

lemma move_to_capacity:
  assumes "move_to offset w fs = (w', fs', found)"
  shows "saturating_add usize_max (window_capacity w') (fetched_capacity fs')
    \<le> saturating_add usize_max (window_capacity w) (fetched_capacity fs)"
proof (cases "\<exists>i. last_longest offset 0 None fs = Some i
    \<and> entry_end (fs ! i) > (if is_active offset w then window_end w else offset)")
  case True
  then obtain i where i: "last_longest offset 0 None fs = Some i"
    "entry_end (fs ! i) > (if is_active offset w then window_end w else offset)" by blast
  then have "window_capacity w' = vec_cap (snd (fs ! i))" "fs' = swap_remove i fs"
    using assms by (auto simp: move_to_def Let_def window_consume_def adopt_def window_capacity_def)
  then show ?thesis
    using sum_swap_remove[OF last_longest_Some(1)[OF i(1)], of "\<lambda>(_, v). vec_cap v"]
    by (auto simp: saturating_add_def fetched_capacity_sum case_prod_beta)
next
  case False
  then have "window_capacity w' = window_capacity w" "fs' = fs"
    using assms
    by (auto simp: move_to_def Let_def window_consume_def reset_to_def window_capacity_def
        split: option.splits if_splits)
  then show ?thesis by simp
qed

lemma make_room_set: "set (make_room cap fs target l) \<subseteq> set fs"
  by (simp add: make_room_def)

lemma make_room_retained:
  "saturating_add usize_max cap (fetched_capacity fs) \<le> n \<Longrightarrow>
    saturating_add usize_max cap (fetched_capacity (make_room cap fs target l)) \<le> n"
  by (auto simp: make_room_def saturating_add_def fetched_capacity_def)

lemma move_store:
  assumes "store_ok f c" "length f \<le> u64_max" "offset \<le> u64_max"
    "move_to offset (cu_window c) (cu_fetched c) = (w, fs, found)"
  shows "store_ok f (c\<lparr>cu_from := None, cu_window := w, cu_fetched := fs\<rparr>)"
proof -
  have "holds f (cu_window c)" "\<forall>e \<in> set (cu_fetched c). holds_entry f e"
    "retained_input_capacity c \<le> input_bytes (limits_of c)" "cu_slice c = None"
    using assms(1) by (auto simp: store_ok_def)
  with move_to_spec[OF this(1,2) assms(2-4)] move_to_capacity[OF assms(4)] show ?thesis
    by (auto simp: store_ok_def retained_input_capacity_def)
qed

context read_at_source
begin

lemma fill_done:
  assumes "\<not> (window_len (cu_window c) < target \<and> w_total (cu_window c) \<noteq> Some (window_end (cu_window c)))"
  shows "fill_window al ops target c s = Some (Returns (c, s, Ok ()))"
  by (subst fill_window.simps) (simp only: Let_def assms if_False)

lemma retained_split:
  "saturating_add usize_max a b \<le> m \<Longrightarrow> b \<le> usize_max \<Longrightarrow> b \<le> m"
  by (simp add: saturating_add_def)

lemma fetched_capacity_le: "fetched_capacity fs \<le> usize_max"
  by (simp add: fetched_capacity_sum)

text \<open>One pass through the loop is enough: a read is whole or it marks the end of the source.\<close>

lemma fill_window_ok:
  assumes ok: "ok s" and store: "store_ok (content s) c" and room: "w_base (cu_window c) + target \<le> u64_max"
  shows "\<exists>c' s' r. (fill_window al ops target c s :: ('s, 'x, 'e) served option) = Some (Returns (c', s', r))
    \<and> ok s' \<and> content s' = content s \<and> store_ok (content s) c'
    \<and> cu_opts c' = cu_opts c \<and> cu_from c' = cu_from c \<and> cu_started c' = cu_started c
    \<and> cu_fetched c' = cu_fetched c
    \<and> (r = Ok () \<longrightarrow> w_base (cu_window c') = w_base (cu_window c)
         \<and> (target \<le> window_len (cu_window c') \<or> w_total (cu_window c') = Some (window_end (cu_window c'))))
    \<and> (total_ok (content s) c \<and> w_base (cu_window c) \<le> length (content s) \<longrightarrow> total_ok (content s) c')"
proof (cases "window_len (cu_window c) < target \<and> w_total (cu_window c) \<noteq> Some (window_end (cu_window c))")
  case False
  then have "fill_window al ops target c s = Some (Returns (c, s, Ok ()))" by (rule fill_done)
  then show ?thesis using ok store False by (intro exI[of _ c] exI[of _ s] exI[of _ "Ok ()"]) auto
next
  case True
  let ?w = "cu_window c" and ?f = "content s"
  have w: "holds ?f ?w" using store by (simp add: store_ok_def)
  have f: "length ?f \<le> u64_max" by (rule addressed[OF ok])
  note fin = window_end_exact[OF w f]
  define fin where "fin = window_end ?w"
  define want where "want = min (target - window_len ?w) (u64_max - fin)"
  have want: "want = target - window_len ?w" using fin(1) room by (simp add: want_def fin_def)
  let ?room = "input_bytes (limits_of c) - fetched_capacity (cu_fetched c)"
  have fits: "fetched_capacity (cu_fetched c) \<le> input_bytes (limits_of c)"
    using store fetched_capacity_le retained_split unfolding store_ok_def retained_input_capacity_def by blast
  obtain w1 r1 where spare: "try_spare al want ?room ?w = (w1, r1)" by fastforce
  note sp = try_spare_spec[OF w spare]
  have cap: "saturating_add usize_max (window_capacity v) (fetched_capacity (cu_fetched c)) \<le> input_bytes (limits_of c)"
    if "window_capacity v = window_capacity ?w \<or> window_capacity v \<le> ?room" for v
    using that store fits by (auto simp: store_ok_def retained_input_capacity_def saturating_add_def)
  have store1: "store_ok ?f (c\<lparr>cu_window := w1\<rparr>)"
    using store sp cap[of w1] by (auto simp: store_ok_def retained_input_capacity_def)
  have total1: "total_ok ?f (c\<lparr>cu_window := w1\<rparr>) \<longleftrightarrow> total_ok ?f c" using sp by (simp add: total_ok_def)
  note unfold = fill_window.simps[of al ops target c s, unfolded Let_def, folded fin_def, folded want_def]
  show ?thesis
  proof (cases r1)
    case (Inl e)
    then have "fill_window al ops target c s = Some (Returns (c\<lparr>cu_window := w1\<rparr>, s, Err (InputFailed e)))"
      using True fits spare by (subst unfold) (simp add: fin_def checked_sub_def)
    then show ?thesis using ok store1 total1
      by (intro exI[of _ "c\<lparr>cu_window := w1\<rparr>"] exI[of _ s] exI[of _ "Err (InputFailed e)"]) auto
  next
    case (Inr u)
    obtain s2 r2 where read: "so_read_at ops s fin want = (s2, r2)" by fastforce
    note rd = reads[OF ok read]
    show ?thesis
    proof (cases r2)
      case (Inl e)
      then have "fill_window al ops target c s = Some (Returns (c\<lparr>cu_window := w1\<rparr>, s2, Err (SourceFailed e)))"
        using True fits spare Inr read by (subst unfold) (simp add: fin_def checked_sub_def)
      then show ?thesis using rd store1 total1
        by (intro exI[of _ "c\<lparr>cu_window := w1\<rparr>"] exI[of _ s2] exI[of _ "Err (SourceFailed e)"]) auto
    next
      case got: (Inr bs)
      have bs: "bs = take want (drop fin ?f)" using rd got by simp
      have r1: "w_end w1 + want \<le> length (vec_bytes (w_buf w1))" "window_len w1 = window_len ?w"
        "w_base w1 = w_base ?w" "holds ?f w1"
        using sp Inr by auto
      have len: "length bs \<le> want" using bs by simp
      have "piece ?f (w_base w1 + window_len w1) bs" using bs piece_take fin(1) r1 by (simp add: fin_def)
      note fc = fill_commit[OF r1(4) r1(1) len this]
      let ?w2 = "commit (length bs) (window_fill bs w1)"
      define w3 where "w3 = (if length bs < want then ?w2\<lparr>w_total := Some (wrap u64_max (fin + length bs))\<rparr> else ?w2)"
      have w3: "window_len w3 = window_len ?w2" "w_base w3 = w_base ?w" "window_capacity w3 = window_capacity w1"
        "holds ?f w3" "window_end w3 = window_end ?w2"
        by (simp_all add: w3_def fc r1)
      let ?c3 = "c\<lparr>cu_window := w3, cu_stats := count_read (length bs) (cu_stats c)\<rparr>"
      have step: "(fill_window al ops target c s :: ('s, 'x, 'e) served option) = fill_window al ops target ?c3 s2"
        using True fits spare Inr read got by (subst unfold) (simp add: fin_def[symmetric] checked_sub_def w3_def Let_def)
      have end3: "window_end w3 = fin + length bs"
        using window_end_exact(1)[OF w3(4) f] w3(1,2) fc(3) r1(2) fin(1) by (simp add: fin_def)
      have enough: "target \<le> window_len w3 \<or> w_total w3 = Some (window_end w3)"
      proof (cases "length bs < want")
        case True
        have "fin + length bs \<le> u64_max" using end3 wrap_le unfolding window_end_def by metis
        then show ?thesis using True end3 by (simp add: w3_def)
      next
        case False
        then have "length bs = want" using len by simp
        then have "target \<le> window_len w3" using want w3(1) fc(3) r1(2) by linarith
        then show ?thesis by simp
      qed
      then have last: "(fill_window al ops target ?c3 s2 :: ('s, 'x, 'e) served option) = Some (Returns (?c3, s2, Ok ()))"
        by (intro fill_done) auto
      have store3: "store_ok ?f ?c3"
        using store w3 sp cap[of w3] by (simp add: store_ok_def retained_input_capacity_def)
      have "total_ok ?f ?c3" if "total_ok ?f c" "w_base ?w \<le> length ?f"
      proof (cases "length bs < want")
        case True
        have "fin \<le> length ?f" using fin that(2) by (cases "window_len ?w = 0") (auto simp: fin_def)
        then have "fin + length bs = length ?f" using True bs by auto
        then show ?thesis using True f by (simp add: total_ok_def w3_def)
      next
        case False
        then show ?thesis using that(1) fc(5) sp by (simp add: total_ok_def w3_def)
      qed
      then show ?thesis using step last rd store3 w3(2) enough
        by (intro exI[of _ ?c3] exI[of _ s2] exI[of _ "Ok ()"]) auto
    qed
  qed
qed

lemma serve_at_least_delivers:
  assumes ok: "ok s" and store: "store_ok (content s) c" and fits: "offset + max min_len 1 \<le> u64_max"
    and admitted: "max min_len 1 \<le> input_bytes (limits_of c)"
  shows "\<exists>x. (serve_at_least al ops offset min_len c s :: ('s, 'x, 'e) served option) = Some x
    \<and> delivers ok content s c (AtLeast offset min_len) x"
proof -
  let ?f = "content s"
  have f: "length ?f \<le> u64_max" by (rule addressed[OF ok])
  have offset: "offset \<le> u64_max" using fits by simp
  obtain w fs found where move: "move_to offset (cu_window c) (cu_fetched c) = (w, fs, found)"
    by (metis prod_cases3)
  have w: "holds ?f (cu_window c)" "\<forall>e \<in> set (cu_fetched c). holds_entry ?f e"
    using store by (auto simp: store_ok_def)
  note mv = move_to_spec[OF w f offset move]
  let ?c = "c\<lparr>cu_from := None, cu_window := w, cu_fetched := fs\<rparr>"
  have store1: "store_ok ?f ?c" by (rule move_store[OF store f offset move])
  have total1: "total_ok ?f ?c \<longleftrightarrow> total_ok ?f c" using mv by (simp add: total_ok_def)
  have input: "in_offset (window_input v) = offset" "length (in_bytes (window_input v)) = window_len v"
    "input_end (window_input v) = window_end v" if "holds ?f v" "w_base v = offset" for v
  proof -
    have "w_base v + window_len v \<le> u64_max"
      using window_end_exact(1)[OF that(1) f] wrap_le unfolding window_end_def by metis
    then show "in_offset (window_input v) = offset" "length (in_bytes (window_input v)) = window_len v"
      "input_end (window_input v) = window_end v"
      using that window_bytes_length[OF that(1)] window_end_exact(1)[OF that(1) f]
      by (simp_all add: input_end_def saturating_add_def)
  qed
  have sat: "is_satisfied_by (AtLeast offset min_len) (window_input v)"
    if "holds ?f v" "w_base v = offset" "max min_len 1 \<le> window_len v \<or> w_total v = Some (window_end v)" for v
    using input[OF that(1,2)] that(3) by auto
  show ?thesis
  proof (cases "window_len w \<ge> max min_len 1")
    case True
    then have "serve_at_least al ops offset min_len c s = Some (Returns (?c, s, Ok ()))"
      by (simp add: serve_at_least_def Let_def move)
    then show ?thesis using ok store1 total1 sat[of w] mv True
      by (auto simp: delivers_def from_ok_def cursor_input_def)
  next
    case short: False
    show ?thesis
    proof (cases "admit_reading (limits_of c)")
      case (Inl e)
      then have "serve_at_least al ops offset min_len c s = Some (Returns (?c, s, Err (InputFailed e)))"
        using short by (simp add: serve_at_least_def Let_def move)
      then show ?thesis using ok store1 total1 by (auto simp: delivers_def from_ok_def)
    next
      case (Inr u)
      let ?target = "min (min (read_target min_len (read_size (cu_opts c))) (input_bytes (limits_of c)))
        (u64_max - offset)"
      let ?c2 = "?c\<lparr>cu_fetched := make_room (window_capacity w) fs ?target (limits_of c)\<rparr>"
      have run: "(serve_at_least al ops offset min_len c s :: ('s, 'x, 'e) served option)
          = fill_window al ops ?target ?c2 s"
        using short Inr by (auto simp: serve_at_least_def Let_def move)
      have store2: "store_ok ?f ?c2"
        using store1 make_room_set[of "window_capacity w" fs ?target "limits_of c"] make_room_retained
        by (auto simp: store_ok_def retained_input_capacity_def)
      have "w_base (cu_window ?c2) + ?target \<le> u64_max" using mv offset by simp
      from fill_window_ok[OF ok store2 this, of al] obtain c' s' r where
        fill: "(fill_window al ops ?target ?c2 s :: ('s, 'x, 'e) served option) = Some (Returns (c', s', r))"
          "ok s'" "content s' = ?f" "store_ok ?f c'" "cu_opts c' = cu_opts c" "cu_from c' = None"
          "cu_started c' = cu_started c"
          "r = Ok () \<longrightarrow> w_base (cu_window c') = offset
            \<and> (?target \<le> window_len (cu_window c') \<or> w_total (cu_window c') = Some (window_end (cu_window c')))"
          "total_ok ?f ?c2 \<and> offset \<le> length ?f \<longrightarrow> total_ok ?f c'"
        using mv by auto
      have enough: "max min_len 1 \<le> ?target"
      proof -
        have "max min_len 1 \<le> usize_max" "max min_len 1 \<le> u64_max - offset" using fits by linarith+
        with read_target_ge[OF this(1)] admitted show ?thesis by (simp only: min.bounded_iff)
      qed
      have input': "cursor_input c' = window_input (cu_window c')" using fill(6) by (simp add: cursor_input_def)
      have "holds ?f (cu_window c')" using fill(4) by (simp add: store_ok_def)
      from sat[OF this] enough fill(8) have "r = Ok () \<longrightarrow> is_satisfied_by (AtLeast offset min_len) (cursor_input c')"
        unfolding input' by (meson le_trans)
      moreover have "total_ok ?f c \<and> offset \<le> length ?f \<longrightarrow> total_ok ?f c'"
        using fill(9) mv by (simp add: total_ok_def)
      ultimately have "delivers ok content s c (AtLeast offset min_len) (Returns (c', s', r))"
        using fill(2-7) by (simp add: delivers_def from_ok_def del: is_satisfied_by.simps)
      then show ?thesis using run fill(1) by auto
    qed
  qed
qed

lemma serve_len_delivers:
  assumes ok: "ok s" and store: "store_ok (content s) c"
  shows "delivers ok content s c Len (serve_len ops c s)"
proof -
  have store1: "store_ok (content s) (c\<lparr>cu_from := None, cu_window := (cu_window c)\<lparr>w_total := t\<rparr>\<rparr>)" for t
    using store by (auto simp: store_ok_def retained_input_capacity_def)
  have store0: "store_ok (content s) (c\<lparr>cu_from := None\<rparr>)"
    using store by (auto simp: store_ok_def retained_input_capacity_def)
  show ?thesis
  proof (cases "w_total (cu_window c) \<noteq> None \<or> (\<exists>e. admit_reading (limits_of c) = Inl e)")
    case True
    then show ?thesis using ok store0
      by (auto simp: serve_len_def Let_def delivers_def from_ok_def cursor_input_def total_ok_def)
  next
    case False
    obtain s1 m where l: "so_len ops s = (s1, m)" by fastforce
    then show ?thesis using False len[OF ok l] store0 store1
      by (auto simp: serve_len_def Let_def delivers_def from_ok_def cursor_input_def total_ok_def split: sum.splits)
  qed
qed

end

lemma find_index_from_Some:
  "find_index_from k P xs = Some i \<Longrightarrow> k \<le> i \<and> i - k < length xs \<and> P (xs ! (i - k))"
  by (induction k P xs rule: find_index_from.induct) (auto simp: nth_Cons' split: if_splits)

lemma find_index_from_None: "find_index_from k P xs = None \<Longrightarrow> x \<in> set xs \<Longrightarrow> \<not> P x"
  by (induction k P xs rule: find_index_from.induct) (auto split: if_splits)

lemma entry_wrap:
  assumes "holds_entry f e" "length f \<le> u64_max"
  shows "wrap u64_max (fst e + length (vec_bytes (snd e))) = fst e + length (vec_bytes (snd e))"
    "entry_end e = fst e + length (vec_bytes (snd e))"
  using assms by (auto simp: holds_entry_def piece_iff entry_end_def saturating_add_def)

text \<open>A fetched buffer that holds the whole range answers it.\<close>

lemma from_entry:
  assumes store: "store_ok f c" and f: "length f \<le> u64_max" and fits: "br_offset r + br_length r \<le> u64_max"
    and k: "k < length (cu_fetched c)" "holds_range r (cu_fetched c ! k)"
    and c': "c' = c\<lparr>cu_from := Some (k, br_offset r - fst (cu_fetched c ! k))\<rparr>"
  shows "from_ok c' \<and> is_satisfied_by (RangeOf r) (cursor_input c')"
proof -
  let ?e = "cu_fetched c ! k"
  have "holds_entry f ?e" using store k(1) by (simp add: store_ok_def)
  note e = entry_wrap[OF this f]
  have at: "fst ?e \<le> br_offset r" "br_offset r + br_length r \<le> fst ?e + length (vec_bytes (snd ?e))"
    using k(2) e fits by (auto simp: holds_range_def range_end_def saturating_add_def)
  then show ?thesis using k(1) fits unfolding c'
    by (auto simp: from_ok_def cursor_input_def with_total_len_opt_def input_new_def)
qed

definition fetched_ok :: "byte list \<Rightarrow> byte_range \<Rightarrow> nat \<times> vec \<Rightarrow> bool" where
  "fetched_ok f r e \<longleftrightarrow> prepared r e \<and> piece f (br_offset r) (vec_bytes (snd e))"

context read_at_source
begin

lemma read_batches_ok:
  assumes "ok s" "n > 0" "length fs \<le> fuel" "list_all2 prepared rs fs" "list_all2 (fetched_ok (content s)) rs0 acc"
    "read_batches ops fuel n acc fs stats s = (stats', s', r)"
  shows "ok s' \<and> content s' = content s
    \<and> (\<forall>fs'. r = Ok fs' \<longrightarrow> list_all2 (fetched_ok (content s)) (rs0 @ rs) fs'
         \<and> map (\<lambda>(_, v). vec_cap v) fs' = map (\<lambda>(_, v). vec_cap v) (acc @ fs))"
  using assms
proof (induction fuel arbitrary: acc fs stats s rs rs0)
  case 0
  then show ?case by auto
next
  case (Suc fuel)
  show ?case
  proof (cases "fs = []")
    case True
    then show ?thesis using Suc.prems by auto
  next
    case False
    let ?reqs = "map (\<lambda>(offset, v). (offset, length (vec_bytes v))) (take n fs)"
    obtain s1 q where batch: "so_read_many_at ops s ?reqs = (s1, q)" by fastforce
    note m = many[OF Suc.prems(1) batch]
    show ?thesis
    proof (cases q)
      case (Inl e)
      then show ?thesis using Suc.prems(6) batch m False by auto
    next
      case (Inr bss)
      let ?got = "map2 (\<lambda>(offset, v) bs. (offset, v\<lparr>vec_bytes := bs\<rparr>)) (take n fs) bss"
      have answers: "list_all2 (\<lambda>req bs. length bs = snd req \<and> piece (content s) (fst req) bs) ?reqs bss"
        using m Inr by simp
      then have lens: "length bss = length (take n fs)" by (auto dest: list_all2_lengthD)
      have prep: "list_all2 prepared (take n rs) (take n fs)" "list_all2 prepared (drop n rs) (drop n fs)"
        using Suc.prems(4) by (auto intro: list_all2_takeI list_all2_dropI)
      have got: "list_all2 (fetched_ok (content s)) (take n rs) ?got"
        using prep(1) answers lens list_all2_lengthD[OF Suc.prems(4)]
        by (auto simp: list_all2_conv_all_nth fetched_ok_def prepared_def wf_vec_def case_prod_beta)
      have caps: "map (\<lambda>(_, v). vec_cap v) ?got = map (\<lambda>(_, v). vec_cap v) (take n fs)"
        using lens by (auto intro!: nth_equalityI simp: case_prod_beta)
      have rest: "read_batches ops fuel n (acc @ ?got) (drop n fs) (stats\<lparr>n_reads := n_reads stats + 1\<rparr>) s1
          = (stats', s', r)"
        using Suc.prems(6) batch Inr False by simp
      have s1: "ok s1" "content s1 = content s" using m by auto
      have short: "length (drop n fs) \<le> fuel" using Suc.prems(2,3) False by (cases fs) auto
      have acc: "list_all2 (fetched_ok (content s1)) (rs0 @ take n rs) (acc @ ?got)"
        using Suc.prems(5) got s1(2) by (simp add: list_all2_appendI)
      have "rs0 @ take n rs @ drop n rs = rs0 @ rs"
        "map (\<lambda>(_, v). vec_cap v) (acc @ ?got @ drop n fs) = map (\<lambda>(_, v). vec_cap v) (acc @ fs)"
        using caps by (simp, metis append_take_drop_id map_append)
      then show ?thesis
        using Suc.IH[OF s1(1) Suc.prems(2) short prep(2) acc rest] s1(2) by simp
    qed
  qed
qed

lemma serve_tail_delivers:
  assumes ok: "ok s" and store: "store_ok (content s) c" and fits: "br_offset r + br_length r \<le> u64_max"
    and w: "w_base (cu_window c) = br_offset r" "window_end (cu_window c) \<le> br_offset r + br_length r"
    and none: "cu_from c = None"
  shows "delivers ok content s c (RangeOf r) (serve_tail al ops r c s :: ('s, 'x, 'e) served)"
proof -
  let ?f = "content s" and ?w = "cu_window c"
  have f: "length ?f \<le> u64_max" by (rule addressed[OF ok])
  have h: "holds ?f ?w" using store by (simp add: store_ok_def)
  note e = window_end_exact[OF h f]
  have fin: "range_end r = br_offset r + br_length r" using fits by (simp add: range_end_def saturating_add_def)
  define missing where "missing = range_end r - window_end ?w"
  define fs where "fs = make_room (window_capacity ?w) (cu_fetched c) (br_length r) (limits_of c)"
  let ?c = "c\<lparr>cu_fetched := fs\<rparr>"
  have store1: "store_ok ?f ?c"
    using store make_room_set[of "window_capacity ?w" "cu_fetched c" "br_length r" "limits_of c"] make_room_retained
    by (auto simp: store_ok_def retained_input_capacity_def fs_def)
  let ?room = "input_bytes (limits_of c) - fetched_capacity fs"
  have room: "fetched_capacity fs \<le> input_bytes (limits_of c)"
    using store1 fetched_capacity_le[of fs]
      retained_split[of "window_capacity ?w" "fetched_capacity fs" "input_bytes (limits_of c)"]
    by (simp add: store_ok_def retained_input_capacity_def)
  obtain w1 r1 where spare: "try_spare al missing ?room ?w = (w1, r1)" by fastforce
  note sp = try_spare_spec[OF h spare]
  have cap: "saturating_add usize_max (window_capacity v) (fetched_capacity fs) \<le> input_bytes (limits_of c)"
    if "window_capacity v = window_capacity ?w \<or> window_capacity v \<le> ?room" for v
    using that store1 room by (auto simp: store_ok_def retained_input_capacity_def saturating_add_def)
  have store2: "store_ok ?f (?c\<lparr>cu_window := w1\<rparr>)"
    using store1 sp cap[of w1] by (simp add: store_ok_def retained_input_capacity_def)
  note unfold = serve_tail_def[of al ops r c s, unfolded Let_def, folded fs_def missing_def]
  have under: "checked_sub (range_end r) (window_end ?w) = Some missing"
    "checked_sub (input_bytes (limits_of c)) (fetched_capacity fs) = Some ?room"
    using w(2) fin room by (simp_all add: missing_def)
  have total: "total_ok ?f c \<longrightarrow> total_ok ?f (?c\<lparr>cu_window := v\<rparr>)" if "w_total v = w_total ?w" for v
    using that by (simp add: total_ok_def)
  show ?thesis
  proof (cases "admit_reading (limits_of c)")
    case (Inl x)
    then show ?thesis using ok store none by (simp add: unfold under delivers_def from_ok_def)
  next
    case adm: (Inr u)
    show ?thesis
    proof (cases r1)
      case (Inl x)
      then show ?thesis using ok store2 none adm spare sp total[of w1]
        by (simp add: unfold under delivers_def from_ok_def)
    next
      case r1: (Inr u)
      obtain s2 r2 where read: "so_read_exact_at ops s (window_end ?w) missing = (s2, r2)" by fastforce
      note rd = exact[OF ok read]
      show ?thesis
      proof (cases r2)
        case (Inl x)
        then show ?thesis using rd store2 none adm spare r1 read sp total[of w1]
          by (simp add: unfold under delivers_def from_ok_def)
      next
        case got: (Inr bs)
        have bs: "length bs = missing" "piece ?f (window_end ?w) bs" using rd got by auto
        have v: "holds ?f w1" "w_end w1 + missing \<le> length (vec_bytes (w_buf w1))" "window_len w1 = window_len ?w"
          "w_base w1 = w_base ?w" using sp r1 by auto
        have "piece ?f (w_base w1 + window_len w1) bs" using bs(2) e(1) v by simp
        note fc = fill_commit[OF v(1,2) eq_imp_le[OF bs(1)] this, unfolded bs(1)]
        let ?w2 = "commit missing (window_fill bs w1)"
        let ?c2 = "?c\<lparr>cu_window := ?w2, cu_stats := count_read missing (cu_stats c)\<rparr>"
        have run: "(serve_tail al ops r c s :: ('s, 'x, 'e) served) = Returns (?c2, s2, Ok ())"
          using adm spare r1 read got by (simp add: unfold under)
        have store3: "store_ok ?f ?c2"
          using store1 fc cap[of ?w2] sp by (simp add: store_ok_def retained_input_capacity_def)
        have "window_len ?w2 = br_length r"
          using fc(3) v(3) e(1) w fin by (simp add: missing_def)
        then have "is_satisfied_by (RangeOf r) (cursor_input ?c2)"
          using none fc(4) v(4) w(1) window_bytes_length[OF fc(1)] by (simp add: cursor_input_def)
        moreover have "total_ok ?f c \<longrightarrow> total_ok ?f ?c2" using fc(5) sp by (simp add: total_ok_def)
        ultimately show ?thesis using run rd store3 none by (simp add: delivers_def from_ok_def del: is_satisfied_by.simps)
      qed
    qed
  qed
qed

lemma fetched_hit:
  assumes f: "length f \<le> u64_max" and got: "list_all2 (fetched_ok f) rs fs" and q: "q \<in> set rs" "inside r q"
    and offsets: "br_offset ` set rs \<subseteq> {..u64_max}"
  shows "(\<forall>e \<in> set fs. holds_entry f e) \<and> (\<exists>e \<in> set fs. holds_range r e)"
proof -
  have entry: "holds_entry f e" if e: "e \<in> set fs" for e
  proof -
    obtain k where k: "k < length fs" "e = fs ! k" using e by (auto simp: in_set_conv_nth)
    then have "fetched_ok f (rs ! k) e" "rs ! k \<in> set rs"
      using got by (auto simp: list_all2_conv_all_nth)
    then show ?thesis using offsets by (auto simp: fetched_ok_def prepared_def holds_entry_def)
  qed
  obtain k where k: "k < length rs" "q = rs ! k" using q(1) by (auto simp: in_set_conv_nth)
  then have e: "fetched_ok f q (fs ! k)" "fs ! k \<in> set fs" using got by (auto simp: list_all2_conv_all_nth)
  have "range_end q \<le> fst (fs ! k) + length (vec_bytes (snd (fs ! k)))"
    using e(1) range_end_le(2)[of q] by (simp add: fetched_ok_def prepared_def)
  then have "holds_range r (fs ! k)"
    using q(2) e(1) entry_wrap(1)[OF entry[OF e(2)] f]
    by (simp add: holds_range_def inside_def fetched_ok_def prepared_def)
  then show ?thesis using entry e(2) by blast
qed

lemma serve_round_delivers:
  assumes ok: "ok s" and store: "store_ok (content s) c" and none: "cu_from c = None"
    and requests: "RangeOf r \<in> set requests" "\<forall>q \<in> set requests. \<not> address_overflows q"
  shows "delivers ok content s c (RangeOf r) (serve_round al entry_size ops r requests c s :: ('s, 'x, 'e) served)"
proof -
  let ?f = "content s" and ?l = "limits_of c"
  have f: "length ?f \<le> u64_max" by (rule addressed[OF ok])
  have fits: "br_offset q + br_length q \<le> u64_max" if "RangeOf q \<in> set requests" for q
    using requests(2) that by (auto simp: address_overflows_def)
  then have bounded: "br_offset q \<le> u64_max" if "q \<in> requested_ranges r requests" for q
    using that requests(1) by (fastforce simp: requested_ranges_def)
  note plan = plan_total[of r requests, OF ballI[OF bounded], where al = al and gap = "max_gap (cu_opts c)" and l = ?l]
  have base: "w_base (cu_window c) \<le> u64_max" using store by (simp add: store_ok_def holds_def)
  let ?c = "\<lambda>rs. c\<lparr>cu_coalesced := rs, cu_window := release (cu_window c), cu_fetched := []\<rparr>"
  have empty: "store_ok ?f (?c rs) \<and> from_ok (?c rs) \<and> (total_ok ?f c \<longrightarrow> total_ok ?f (?c rs))" for rs
    using store base none holds_release[OF base]
    by (auto simp: store_ok_def from_ok_def total_ok_def release_def retained_input_capacity_def
        fetched_capacity_def window_capacity_def vec_empty_def saturating_add_def)
  have wf: "\<forall>(x, v) \<in> set (cu_fetched c). wf_vec v" using store by (auto simp: store_ok_def holds_entry_def)
  show ?thesis
  proof (cases "plan al r requests (max_gap (cu_opts c)) ?l")
    case None
    then show ?thesis using plan by simp
  next
    case (Some res)
    show ?thesis
    proof (cases res)
      case (Inl x)
      then show ?thesis using Some ok store none
        by (simp add: serve_round_def Let_def delivers_def from_ok_def)
    next
      case (Inr rs)
      then have rs: "plan_ok r requests (max_gap (cu_opts c)) ?l rs" "in_flight ?l > 0"
        "br_offset ` set rs \<subseteq> {..u64_max}"
        using plan Some bounded by auto
      obtain pending res2 where alloc: "allocate_ranges al entry_size rs ?l (cu_fetched c) = (pending, res2)"
        by fastforce
      show ?thesis
      proof (cases "res2 = Ok () \<and> reserve_elements al 24 (length pending) = Ok ()")
        case False
        then show ?thesis using Some Inr alloc ok empty
          by (cases res2; cases "reserve_elements al 24 (length pending)")
            (auto simp: serve_round_def Let_def delivers_def)
      next
        case True
        then have prep: "list_all2 prepared rs pending" "fetched_capacity pending \<le> input_bytes ?l"
          using allocate_ranges_Ok[OF _ wf] alloc by auto
        obtain stats s2 r2 where read: "read_batches ops (length pending) (in_flight ?l) [] pending (cu_stats c) s
            = (stats, s2, r2)" by (metis prod_cases3)
        note rd = read_batches_ok[OF ok rs(2) order_refl prep(1) list_all2_Nil[THEN iffD2, OF refl] read]
        show ?thesis
        proof (cases r2)
          case (Inl x)
          let ?c1 = "(?c rs)\<lparr>cu_stats := stats\<rparr>"
          have "store_ok ?f ?c1" "from_ok ?c1" "total_ok ?f c \<longrightarrow> total_ok ?f ?c1"
            using empty[of rs] by (simp_all add: store_ok_def retained_input_capacity_def from_ok_def total_ok_def none)
          moreover have "(serve_round al entry_size ops r requests c s :: ('s, 'x, 'e) served)
              = Returns (?c1, s2, Err (SourceFailed x))"
            using Inl Some Inr alloc True rs(2) read by (simp add: serve_round_def Let_def)
          ultimately show ?thesis using rd by (simp add: delivers_def)
        next
          case got: (Inr fs)
          have fs: "list_all2 (fetched_ok ?f) rs fs" "map (\<lambda>(_, v). vec_cap v) fs = map (\<lambda>(_, v). vec_cap v) pending"
            using rd got by auto
          have cap: "fetched_capacity fs \<le> input_bytes ?l"
            using prep(2) fs(2) by (simp add: fetched_capacity_sum)
          obtain q where q: "q \<in> set rs" "inside r q" using rs(1) by (auto simp: plan_ok_def)
          note hit = fetched_hit[OF f fs(1) q rs(3)]
          obtain x where "x \<in> set fs" "holds_range r x" using hit by blast
          then have "find_index_from 0 (holds_range r) fs \<noteq> None" using find_index_from_None by metis
          then obtain k where k: "find_index_from 0 (holds_range r) fs = Some k" by blast
          then have at: "k < length fs" "holds_range r (fs ! k)" using find_index_from_Some[OF k] by auto
          let ?c1 = "(?c rs)\<lparr>cu_fetched := fs, cu_stats :=
            stats\<lparr>n_bytes_read := n_bytes_read stats + sum_list (map br_length rs)\<rparr>\<rparr>"
          let ?c2 = "?c1\<lparr>cu_from := Some (k, br_offset r - fst (fs ! k))\<rparr>"
          have run: "(serve_round al entry_size ops r requests c s :: ('s, 'x, 'e) served) = Returns (?c2, s2, Ok ())"
            using Some Inr alloc True rs(2) read got k by (simp add: serve_round_def Let_def)
          have store1: "store_ok ?f ?c1"
            using empty[of rs] hit cap
            by (auto simp: store_ok_def retained_input_capacity_def release_def window_capacity_def vec_empty_def
                saturating_add_def)
          then have store2: "store_ok ?f ?c2" by (simp add: store_ok_def retained_input_capacity_def)
          have "from_ok ?c2 \<and> is_satisfied_by (RangeOf r) (cursor_input ?c2)"
            using from_entry[OF store1 f fits[OF requests(1)], of k ?c2] at by simp
          moreover have "total_ok ?f c \<longrightarrow> total_ok ?f ?c2" using empty[of rs] by (simp add: total_ok_def)
          ultimately show ?thesis using run rd store2
            by (simp add: delivers_def del: is_satisfied_by.simps)
        qed
      qed
    qed
  qed
qed

lemma serve_range_delivers:
  assumes ok: "ok s" and store: "store_ok (content s) c"
    and requests: "RangeOf r \<in> set requests" "\<forall>q \<in> set requests. \<not> address_overflows q"
  shows "delivers ok content s c (RangeOf r) (serve_range al entry_size ops r requests c s :: ('s, 'x, 'e) served)"
proof -
  let ?f = "content s" and ?w = "cu_window c"
  have f: "length ?f \<le> u64_max" by (rule addressed[OF ok])
  have h: "holds ?f ?w" "\<forall>e \<in> set (cu_fetched c). holds_entry ?f e" using store by (auto simp: store_ok_def)
  note e = window_end_exact[OF h(1) f]
  have fits: "br_offset r + br_length r \<le> u64_max"
    using requests by (auto simp: address_overflows_def)
  then have fin: "range_end r = br_offset r + br_length r" by (simp add: range_end_def saturating_add_def)
  show ?thesis
  proof (cases "br_offset r \<ge> w_base ?w \<and> range_end r \<le> window_end ?w")
    case True
    let ?w1 = "window_consume (br_offset r - w_base ?w) ?w"
    let ?c = "c\<lparr>cu_from := None, cu_window := ?w1\<rparr>"
    note wc = window_consume_holds[OF h(1) f, of "br_offset r - w_base ?w"]
    have len: "br_offset r - w_base ?w \<le> window_len ?w" "br_length r \<le> window_len ?w - (br_offset r - w_base ?w)"
      using True fin e by auto
    have "window_capacity ?w1 = window_capacity ?w" "w_total ?w1 = w_total ?w"
      by (simp_all add: window_consume_def Let_def window_capacity_def)
    then have "store_ok ?f ?c" "total_ok ?f c \<longrightarrow> total_ok ?f ?c"
      using store wc(1) by (simp_all add: store_ok_def retained_input_capacity_def total_ok_def)
    moreover have "is_satisfied_by (RangeOf r) (cursor_input ?c)"
      using wc len True window_bytes_length[OF wc(1)] by (simp add: cursor_input_def)
    ultimately show ?thesis using True ok
      by (simp add: serve_range_def Let_def delivers_def from_ok_def del: is_satisfied_by.simps)
  next
    case miss: False
    show ?thesis
    proof (cases "find_index_from 0 (holds_range r) (cu_fetched c)")
      case (Some k)
      let ?c = "c\<lparr>cu_from := Some (k, br_offset r - fst (cu_fetched c ! k))\<rparr>"
      have "k < length (cu_fetched c)" "holds_range r (cu_fetched c ! k)"
        using find_index_from_Some[OF Some] by auto
      note hit = from_entry[OF store f fits this refl]
      have "store_ok ?f ?c" "total_ok ?f c \<longrightarrow> total_ok ?f ?c"
        using store by (simp_all add: store_ok_def retained_input_capacity_def total_ok_def)
      then show ?thesis using miss Some ok hit
        by (auto simp: serve_range_def Let_def delivers_def simp del: is_satisfied_by.simps)
    next
      case None
      obtain w fs found where move: "move_to (br_offset r) ?w (cu_fetched c) = (w, fs, found)"
        by (metis prod_cases3)
      have offset: "br_offset r \<le> u64_max" using fits by simp
      note mv = move_to_spec[OF h f offset move]
      let ?c = "c\<lparr>cu_from := None, cu_window := w, cu_fetched := fs\<rparr>"
      have store1: "store_ok ?f ?c" by (rule move_store[OF store f offset move])
      have run: "(serve_range al entry_size ops r requests c s :: ('s, 'x, 'e) served) =
          (if found then serve_tail al ops r ?c s else serve_round al entry_size ops r requests ?c s)"
        using miss None move by (auto simp: serve_range_def Let_def)
      have weaken: "delivers ok content s ?c (RangeOf r) x \<Longrightarrow> delivers ok content s c (RangeOf r) x"
        for x :: "('s, 'x, 'e) served"
        using mv by (auto simp: delivers_def total_ok_def split: ending.splits)
      show ?thesis
      proof (cases found)
        case True
        have "window_end w \<le> br_offset r + br_length r"
        proof (cases "is_active (br_offset r) ?w \<and> window_end w = window_end ?w")
          case True
          then show ?thesis using miss fin by (auto simp: is_active_def)
        next
          case False
          then obtain x where x: "x \<in> set (cu_fetched c)" "contains_offset (br_offset r) x" "window_end w = entry_end x"
            using mv True by auto
          then have "\<not> holds_range r x" using find_index_from_None[OF None] by blast
          then show ?thesis using x entry_wrap[of ?f x] h(2) f fin
            by (auto simp: holds_range_def contains_offset_def)
        qed
        then have "delivers ok content s ?c (RangeOf r) (serve_tail al ops r ?c s :: ('s, 'x, 'e) served)"
          using mv by (intro serve_tail_delivers[OF ok store1 fits]) simp_all
        then show ?thesis using run True weaken by simp
      next
        case False
        have "delivers ok content s ?c (RangeOf r) (serve_round al entry_size ops r requests ?c s :: ('s, 'x, 'e) served)"
          by (intro serve_round_delivers[OF ok store1 _ requests]) simp
        then show ?thesis using run False weaken by simp
      qed
    qed
  qed
qed

lemma cursor_serve_cases:
  assumes ok: "ok s" and store: "store_ok (content s) c" and fits: "\<forall>q \<in> set requests. \<not> address_overflows q"
  shows "\<exists>x. (cursor_serve al entry_size ops requests c s :: ('s, 'x, 'e) served option) = Some x
    \<and> (case select (limits_of c) requests of Inl e \<Rightarrow> x = Returns (c, s, Err (InputFailed e))
       | Inr q \<Rightarrow> delivers ok content s c q x)"
proof (cases "select (limits_of c) requests")
  case (Inl e)
  then show ?thesis by (simp add: cursor_serve_def)
next
  case (Inr q)
  note sel = select_Ok[OF Inr]
  show ?thesis
  proof (cases q)
    case (AtLeast offset min_len)
    have "offset + max min_len 1 \<le> u64_max" "max min_len 1 \<le> input_bytes (limits_of c)"
      using sel fits AtLeast
      by (auto simp: address_overflows_def admit_request_def admit_bytes_def split: if_splits)
    from serve_at_least_delivers[OF ok store this] show ?thesis
      using Inr AtLeast by (simp add: cursor_serve_def)
  next
    case (RangeOf r)
    then show ?thesis using Inr serve_range_delivers[OF ok store _ fits, of r] sel
      by (simp add: cursor_serve_def)
  next
    case Len
    then show ?thesis using Inr serve_len_delivers[OF ok store] by (simp add: cursor_serve_def)
  qed
qed

end

subsection \<open>Serving, and a whole drive\<close>

text \<open>
  C1: \<open>ReadAtCursor::serve\<close> (stepper.rs:393-515) over any source that answers with the bytes of one
  content, from any reachable store of window and fetched buffers: it returns, without a
  panic; the store stays a collection of pieces of the file whose retained capacity is within
  \<open>max_input_bytes\<close>, on errors too; and when it returns \<open>Ok\<close> the input offered next satisfies the
  first of the requests that the limits admit. The known length stays right as long as no
  sequential request starts past the end.
\<close>

theorem serve_delivers:
  assumes "read_at_source ok content ops" "ok s" "store_ok (content s) c"
    "\<forall>q \<in> set requests. \<not> address_overflows q"
  shows "\<exists>x. (cursor_serve al entry_size ops requests c s :: ('s, 'x, 'e) served option) = Some x
    \<and> (case select (limits_of c) requests of Inl e \<Rightarrow> x = Returns (c, s, Err (InputFailed e))
       | Inr q \<Rightarrow> delivers ok content s c q x)"
  using read_at_source.cursor_serve_cases[OF assms] .

lemma store_ok_new: "store_ok f (cursor_new opts)"
  using holds_new
  by (simp add: store_ok_def cursor_new_def retained_input_capacity_def window_new_def window_capacity_def
      vec_empty_def fetched_capacity_def saturating_add_def)

lemmas serve_eval =
  width_eval
  cursor_serve_def select_def admit_request_def admit_bytes_def admit_reading_def serve_range_def serve_round_def
  serve_tail_def plan_def reserve_elements_def by_offset_def allocate_ranges_def reusable_def reserve_def
  resize_zero_def release_def window_end_def window_len_def is_active_def move_to_def reset_to_def
  holds_range_def range_end_def range_new_def
  cursor_new_def options_new_def limits_unlimited_def limits_new_def window_new_def vec_empty_def stats_zero_def
  slice_ops_def slice_read_exact_at_def slice_read_at_def cursor_input_def with_total_len_opt_def input_new_def
  range_is_empty_def Let_def

theorem serve_delivers_witness:
  "\<exists>c'. (cursor_serve Some 32 slice_ops [RangeOf (range_new 1 2)] (cursor_new (options_new 0 2)) [7, 8, 9]
      :: (byte list, unit, source_error) served option) = Some (Returns (c', [7, 8, 9], Ok ()))
    \<and> cursor_input c' = input_new 1 [8, 9] \<and> store_ok [7, 8, 9] c'"
proof -
  let ?run = "cursor_serve Some 32 slice_ops [RangeOf (range_new 1 2)] (cursor_new (options_new 0 2)) [7, 8, 9]
      :: (byte list, unit, source_error) served option"
  have run: "\<exists>c'. ?run = Some (Returns (c', [7, 8, 9], Ok ())) \<and> cursor_input c' = input_new 1 [8, 9]"
    by (simp add: serve_eval)
  have "addressable [7, 8, 9]" "\<forall>q \<in> set [RangeOf (range_new 1 2)]. \<not> address_overflows q"
    by (simp_all add: addressable_def u64_max_def address_overflows_def range_new_def)
  from serve_delivers[OF in_memory.read_at_source_axioms this(1) store_ok_new this(2),
      where al = Some and entry_size = 32 and opts1 = "options_new 0 2"]
  obtain x where x: "?run = Some x" "delivers addressable (\<lambda>bs. bs) [7, 8, 9] (cursor_new (options_new 0 2))
      (RangeOf (range_new 1 2)) x"
    by (auto simp: select_def admit_request_def admit_bytes_def cursor_new_def options_new_def
        limits_unlimited_def limits_new_def range_new_def width_eval)
  then show ?thesis using run by (auto simp: delivers_def)
qed

text \<open>
  C40: The known length can be wrong: a sequential request past the end of a source whose length is
  not known is answered by a read of no bytes, and \<open>serve\<close> (stepper.rs:428-434) takes the place
  of that read for the end of the source. The decoder is then told that the source is \<open>offset\<close>
  bytes long, more than it is.
\<close>

theorem short_read_past_end:
  assumes "read_at_source ok content ops" "ok s" "store_ok (content s) c" "\<not> address_overflows (AtLeast offset m)"
    "0 < m" "length (content s) < offset"
    "(cursor_serve al entry_size ops [AtLeast offset m] c s :: ('s, 'x, 'e) served option)
       = Some (Returns (c', s', Ok ()))"
  shows "in_total (cursor_input c') = Some offset \<and> offset \<noteq> length (content s')"
proof -
  have "\<forall>q \<in> set [AtLeast offset m]. \<not> address_overflows q" using assms(4) by simp
  from read_at_source.cursor_serve_cases[OF assms(1-3) this, of al entry_size, where 'x = 'x] assms(7)
  have served: "case select (limits_of c) [AtLeast offset m] of
      Inl e \<Rightarrow> (Returns (c', s', Ok ()) :: ('s, 'x, 'e) served) = Returns (c, s, Err (InputFailed e))
    | Inr q \<Rightarrow> delivers ok content s c q (Returns (c', s', Ok ()) :: ('s, 'x, 'e) served)"
    by simp
  obtain q where q: "select (limits_of c) [AtLeast offset m] = Ok q"
    "delivers ok content s c q (Returns (c', s', Ok ()) :: ('s, 'x, 'e) served)"
    using served by (cases "select (limits_of c) [AtLeast offset m]") simp_all
  have sel: "q = AtLeast offset m" using select_Ok[OF q(1)] by simp
  then have d: "content s' = content s" "store_ok (content s) c'" "from_ok c'"
    "is_satisfied_by (AtLeast offset m) (cursor_input c')"
    using q(2) by (simp_all add: delivers_def)
  have f: "length (content s) \<le> u64_max" by (rule read_at_source.addressed[OF assms(1,2)])
  have "in_bytes (cursor_input c') = []"
    using cursor_input_piece[OF d(2,3) f] d(4) assms(6) by (auto simp: piece_iff)
  moreover have "offset \<le> u64_max" using assms(4) by (simp add: address_overflows_def)
  ultimately show ?thesis using d(1,4) assms(5,6)
    by (auto simp: input_end_def saturating_add_def)
qed

theorem short_read_past_end_witness:
  "\<exists>c'. (cursor_serve Some 32 slice_ops [AtLeast 5 1] (cursor_new (options_new 0 2)) [7, 8, 9]
      :: (byte list, unit, source_error) served option) = Some (Returns (c', [7, 8, 9], Ok ()))
    \<and> in_total (cursor_input c') = Some 5"
proof -
  let ?run = "cursor_serve Some 32 slice_ops [AtLeast 5 1] (cursor_new (options_new 0 2)) [7, 8, 9]
      :: (byte list, unit, source_error) served option"
  note eval = serve_eval serve_at_least_def make_room_def fetched_capacity_def window_capacity_def
    read_target_def try_spare_def compact_def window_fill_def commit_def count_read_def
  have "\<exists>c'. ?run = Some (Returns (c', [7, 8, 9], Ok ()))"
    by (simp add: eval, subst fill_window.simps, simp add: eval, subst fill_window.simps, simp add: eval)
  then obtain c' where run: "?run = Some (Returns (c', [7, 8, 9], Ok ()))" by blast
  have "addressable [7, 8, 9]" "\<not> address_overflows (AtLeast 5 1)"
    by (simp_all add: addressable_def u64_max_def address_overflows_def)
  with short_read_past_end[OF in_memory.read_at_source_axioms this(1) store_ok_new this(2) _ _ run] run
  show ?thesis by auto
qed

subsection \<open>A whole drive\<close>

definition answers_some :: "input \<times> input_request list option \<Rightarrow> input \<times> input_request list option \<Rightarrow> bool" where
  "answers_some x y \<longleftrightarrow> (case snd x of Some rs \<Rightarrow> (\<exists>r \<in> set rs. is_satisfied_by r (fst y)) | None \<Rightarrow> True)"

definition log_pieces :: "byte list \<Rightarrow> (input \<times> input_request list option) list \<Rightarrow> bool" where
  "log_pieces f log \<longleftrightarrow> (\<forall>x \<in> set log. piece f (in_offset (fst x)) (in_bytes (fst x))) \<and> successively answers_some log"

definition next_ok :: "cursor \<Rightarrow> (input \<times> input_request list option) list \<Rightarrow> bool" where
  "next_ok c log \<longleftrightarrow> log = [] \<or> cu_started c \<and> answers_some (last log) (cursor_input c, None)"

lemma log_pieces_snoc:
  assumes "log_pieces f log" "store_ok f c" "from_ok c" "length f \<le> u64_max"
    "log = [] \<or> answers_some (last log) (cursor_input c, None)"
  shows "log_pieces f (log @ [(cursor_input c, q)])"
  using assms cursor_input_piece[OF assms(2-4)]
  by (auto simp: log_pieces_def successively_append_iff answers_some_def split: option.splits)

lemma cursor_take_ok:
  assumes "store_ok f c" "from_ok c" "length f \<le> u64_max"
  shows "store_ok f (cursor_take n c) \<and> from_ok (cursor_take n c) \<and> cu_started (cursor_take n c) = cu_started c
    \<and> cu_slice (cursor_take n c) = None \<and> limits_of (cursor_take n c) = limits_of c"
proof (cases "cu_from c")
  case None
  then show ?thesis
    using assms window_consume_holds(1)[of f "cu_window c" n]
    by (simp add: store_ok_def from_ok_def cursor_take_def Let_def retained_input_capacity_def window_consume_def
        window_capacity_def)
next
  case (Some ka)
  then show ?thesis using assms
    by (cases ka) (auto simp: store_ok_def from_ok_def cursor_take_def Let_def retained_input_capacity_def)
qed

lemma cursor_start_ok:
  assumes "store_ok f c" "from_ok c" "\<And>s. so_slice ops s = None"
  shows "store_ok f (cursor_start ops s c) \<and> from_ok (cursor_start ops s c) \<and> cu_started (cursor_start ops s c)
    \<and> cursor_offer ops s c = Some (cursor_start ops s c, cursor_input (cursor_start ops s c))
    \<and> (cu_started c \<longrightarrow> cursor_start ops s c = c)"
proof -
  have run: "cursor_start ops s c = (if cu_started c then c
      else c\<lparr>cu_started := True, cu_window := (cu_window c)\<lparr>w_total := so_hint ops s\<rparr>\<rparr>)"
    by (simp add: cursor_start_def Let_def assms(3))
  have st: "store_ok f (cursor_start ops s c)" "from_ok (cursor_start ops s c)" "cu_started (cursor_start ops s c)"
  proof -
    have keep: "cu_from (cursor_start ops s c) = cu_from c" "cu_fetched (cursor_start ops s c) = cu_fetched c"
      by (simp_all add: run)
    show "store_ok f (cursor_start ops s c)" "cu_started (cursor_start ops s c)"
      using assms(1) by (simp_all add: run store_ok_def retained_input_capacity_def)
    show "from_ok (cursor_start ops s c)" using assms(2) unfolding from_ok_def keep .
  qed
  have "cursor_offer ops s c = cursor_offer ops s (cursor_start ops s c)"
    using st(3) by (simp add: cursor_offer_def cursor_start_def)
  then have "cursor_offer ops s c = Some (cursor_start ops s c, cursor_input (cursor_start ops s c))"
    using cursor_offer_input[OF st] by (rule trans)
  moreover have "cu_started c \<longrightarrow> cursor_start ops s c = c" by (simp add: run)
  ultimately show ?thesis using st by blast
qed

definition drive_ending_ok ::
    "('s \<Rightarrow> bool) \<Rightarrow> ('s \<Rightarrow> byte list) \<Rightarrow> byte list
      \<Rightarrow> (('d \<times> (input \<times> input_request list option) list) \<times> 's \<times> 'r) ending \<Rightarrow> bool" where
  "drive_ending_ok ok content f y \<longleftrightarrow> (case y of Panics \<Rightarrow> False
     | Returns (dl, s, r) \<Rightarrow> ok s \<and> content s = f \<and> log_pieces f (snd dl))"

context read_at_source
begin

lemma read_at_drive_ok:
  fixes y :: "(('d \<times> (input \<times> input_request list option) list) \<times> 's
    \<times> (('x, 'e) drive_failure + ('p, 'o) output_info \<times> drive_stats)) ending"
  assumes "read_at_drive al entry_size ops0 stp rq rows c dl s = Some y"
    "ops0 = ops" "stp = logged step' requested" "rq = requested \<circ> fst" "\<And>s. so_slice ops s = None"
    "ok s" "content s = f" "store_ok f c" "from_ok c" "log_pieces f (snd dl)" "next_ok c (snd dl)"
  shows "drive_ending_ok ok content f y"
  using assms
proof (induction al entry_size ops0 stp rq rows c dl s y
    rule: read_at_drive.raw_induct[rotated 1, consumes 1, case_names step])
  case (step self al es ops0 stp rq rows c dl s y)
  note fixed = step.prems(1-4) and ok = step.prems(5,6) and c = step.prems(7,8) and log = step.prems(9,10)
  have f: "length f \<le> u64_max" using addressed[OF ok(1)] ok(2) by simp
  obtain d lg where dl: "dl = (d, lg)" by fastforce
  define c1 where "c1 = cursor_start ops s c"
  define i where "i = cursor_input c1"
  note c1 = cursor_start_ok[OF c fixed(4), of s, folded c1_def i_def]
  then have c1': "store_ok f c1" "from_ok c1" "cu_started c1" by auto
  have "lg = [] \<or> answers_some (last lg) (i, None)" using log(2) c1 dl by (auto simp: next_ok_def i_def)
  then have snoc: "log_pieces f (lg @ [(i, q)])" for q
    using log_pieces_snoc[OF _ c1'(1,2) f, of lg q, folded i_def] log(1) dl by simp
  obtain d' r where one: "step' d i = (d', r)" by fastforce
  define q where "q = (case r of Inl e \<Rightarrow> None | Inr p \<Rightarrow> if event_of p = Need then Some (requested d') else None)"
  have stp: "stp dl i = ((d', lg @ [(i, q)]), r)"
    by (simp add: fixed(2) logged_def dl one q_def split: sum.split)
  have offer: "cursor_offer ops0 s c = Some (c1, i)" using c1 fixed(1) by simp
  note body = step(2)[unfolded offer option.case prod.case stp]
  have again: "drive_ending_ok ok content f y"
    if "self al es ops0 stp rq rows2 c2 (d', lg @ [(i, q)]) s2 = Some y" "ok s2" "content s2 = f"
      "store_ok f c2" "from_ok c2" "next_ok c2 (lg @ [(i, q)])" for rows2 c2 s2
    using step(1)[OF that(1) fixed that(2-5)] snoc that(6) by simp
  show ?case
  proof (cases r)
    case (Inl e)
    then show ?thesis using body snoc ok by (auto simp: drive_ending_ok_def)
  next
    case (Inr p)
    let ?c2 = "cursor_take (consumed p) c1"
    note take = cursor_take_ok[OF c1'(1,2) f, of "consumed p"]
    have on: "next_ok ?c2 (lg @ [(i, q)])" if "q = None"
      using take c1'(3) that by (simp add: next_ok_def answers_some_def)
    show ?thesis
    proof (cases "event_of p")
      case (Done info)
      then show ?thesis using body snoc Inr ok by (auto simp: drive_ending_ok_def)
    next
      case (Rows m n)
      then show ?thesis using body Inr on again[OF _ ok] take by (auto simp: q_def)
    next
      case (MetadataReady u)
      then show ?thesis using body Inr on again[OF _ ok] take by (auto simp: q_def)
    next
      case Need
      then have q: "q = Some (requested d')" using Inr by (simp add: q_def)
      have rq: "rq (d', lg @ [(i, q)]) = requested d'" by (simp add: fixed(3))
      show ?thesis
      proof (cases "check_need (requested d') i (consumed p)")
        case (Inl e)
        then show ?thesis using body Inr Need snoc rq ok by (auto simp: drive_ending_ok_def)
      next
        case checked: (Inr u)
        then have "\<forall>q \<in> set (requested d'). \<not> address_overflows q"
          using check_need_Ok[of "requested d'" i "consumed p"] by simp
        from cursor_serve_cases[OF ok(1) _ this, of ?c2 al es] take ok(2)
        obtain x :: "('s, 'x, 'e) served" where x: "cursor_serve al es ops (requested d') ?c2 s = Some x"
          "case select (limits_of ?c2) (requested d') of Inl e \<Rightarrow> x = Returns (?c2, s, Err (InputFailed e))
             | Inr q \<Rightarrow> delivers ok content s ?c2 q x" by auto
        show ?thesis
        proof (cases "select (limits_of ?c2) (requested d')")
          case (Inl e)
          then show ?thesis using body Inr Need checked rq x snoc ok fixed(1) by (auto simp: drive_ending_ok_def)
        next
          case sel: (Inr w)
          obtain c3 s3 res where x3: "x = Returns (c3, s3, res)" using x(2) sel
            by (cases x) (auto simp: delivers_def)
          then have d: "ok s3" "content s3 = f" "store_ok f c3" "from_ok c3" "cu_started c3"
            "res = Ok () \<longrightarrow> is_satisfied_by w (cursor_input c3)"
            using x(2) sel ok(2) take c1'(3) by (simp_all add: delivers_def)
          show ?thesis
          proof (cases res)
            case (Inl e)
            then show ?thesis using body Inr Need checked rq x(1) x3 snoc d fixed(1)
              by (auto simp: drive_ending_ok_def)
          next
            case fine: (Inr u)
            have "w \<in> set (requested d')" using select_Ok[OF sel] by simp
            then have "next_ok c3 (lg @ [(i, q)])" using d(5,6) fine q
              by (auto simp: next_ok_def answers_some_def simp del: is_satisfied_by.simps)
            moreover have "self al es ops0 stp rq rows c3 (d', lg @ [(i, q)]) s3 = Some y"
              using body Inr Need checked rq x(1) x3 fine fixed(1) by auto
            ultimately show ?thesis using again d by blast
          qed
        qed
      qed
    qed
  qed
qed

end

text \<open>
  C9: \<open>drive_from_read_at\<close> (drive.rs:205-246) over any source that answers with the bytes of one
  content and is not in memory, whatever the decoder asks, the allocator refuses or the limits
  forbid: it never panics; every input it offers is the source's own bytes at the offset it
  names; and the input after a \<open>Need\<close> satisfies one of the requests the decoder made.
\<close>

theorem read_at_drive_offers:
  assumes "read_at_source ok content ops" "ok s" "\<forall>s. so_slice ops s = None"
    "drive_from_read_at al entry_size ops (logged step requested) (requested \<circ> fst) opts (d, []) s = Some y"
  shows "\<exists>d' log s' r. y = Returns ((d', log), s', r) \<and> content s' = content s
    \<and> (\<forall>x \<in> set log. piece (content s) (in_offset (fst x)) (in_bytes (fst x))) \<and> successively answers_some log"
proof -
  have run: "read_at_drive al entry_size ops (logged step requested) (requested \<circ> fst) 0 (cursor_new opts) (d, []) s
      = Some y"
    using assms(3,4) by (simp add: drive_from_read_at_def)
  have "from_ok (cursor_new opts)" by (simp add: from_ok_def cursor_new_def)
  then have "drive_ending_ok ok content (content s) y"
    using read_at_source.read_at_drive_ok[OF assms(1) run refl refl refl spec[OF assms(3)] assms(2) refl store_ok_new]
    by (simp add: log_pieces_def next_ok_def)
  then show ?thesis by (cases y) (auto simp: drive_ending_ok_def log_pieces_def)
qed

text \<open>A three byte file, and the decoder above, which asks for its last two bytes.\<close>

definition small_file :: "unit file_source" where
  "small_file = \<lparr> pread = (\<lambda>offset n. if offset + n \<le> 3 then Ok (take n (drop offset [7, 8, 9])) else Err ()),
     file_len = 3 \<rparr>"

lemma small_file_stable: "stable_file [7, 8, 9] small_file"
  using piece_take by (auto simp: stable_file_def small_file_def u64_max_def split: if_splits)

theorem read_at_drive_offers_witness:
  "\<exists>y. drive_from_read_at Some 32 file_ops (logged two_byte_decoder (\<lambda>_. [RangeOf (range_new 1 2)]))
      ((\<lambda>_. [RangeOf (range_new 1 2)]) \<circ> fst) (options_new 0 2) (False, []) small_file = Some y
    \<and> (\<exists>d log s' r. y = Returns ((d, log), s', r) \<and> length log = 2 \<and> in_bytes (fst (log ! 1)) = [8, 9]
        \<and> successively answers_some log)"
proof -
  let ?run = "drive_from_read_at Some 32 file_ops (logged two_byte_decoder (\<lambda>_. [RangeOf (range_new 1 2)]))
      ((\<lambda>_. [RangeOf (range_new 1 2)]) \<circ> fst) (options_new 0 2) (False, []) small_file"
  note eval = serve_eval file_ops_def logged_def two_byte_decoder_def progress_new_def cursor_offer_def
    cursor_start_def window_input_def window_bytes_def check_need_def address_overflows_def cursor_take_def
    window_consume_def count_step_def cursor_stats_def small_file_def file_read_exact_at_def input_end_def
  have "\<exists>d log s' r. ?run = Some (Returns ((d, log), s', r)) \<and> length log = 2 \<and> in_bytes (fst (log ! 1)) = [8, 9]"
    by (simp add: drive_from_read_at_def eval, subst read_at_drive.simps, simp add: eval,
        subst read_at_drive.simps, simp add: eval, blast)
  then obtain d log s' r where run: "?run = Some (Returns ((d, log), s', r))" "length log = 2"
    "in_bytes (fst (log ! 1)) = [8, 9]" by blast
  have "\<forall>s. so_slice (file_ops :: (unit file_source, _) source_ops) s = None" by (simp add: file_ops_def)
  from read_at_drive_offers[OF on_disk.read_at_source_axioms small_file_stable this run(1)] run
  show ?thesis by auto
qed

end
