(* ===== verification/Stream_Pump.thy ===== *)
theory Stream_Pump
  imports Slice_Driver Byte_Source
begin

text \<open>
  Driving a resumable decoder over a sequential stream: \<open>ReadCursor\<close> of
  \<open>zencodec-io/src/stepper.rs\<close> and \<open>pump_read_to_sink\<close> of \<open>zencodec-io/src/pump.rs\<close>. The stream is any
  reader with the contract \<open>sequential_reader\<close>. The cursor keeps one window over the stream,
  reads and discards what the decoder skips, and refuses what lies behind it.
\<close>

subsection \<open>The cursor\<close>

datatype ('e, 'x) pump_failure =
    PumpStep 'e
  | PumpIo 'x
  | NeedsRandomAccess input_request
  | WindowLimit nat nat
  | PumpProtocol protocol_violation
  | PumpInput input_error

record read_cursor =
  rc_read_size :: nat
  rc_max_window :: nat
  rc_window :: window

definition read_cursor_new :: "nat \<Rightarrow> nat \<Rightarrow> read_cursor" where
  "read_cursor_new n max_window = \<lparr> rc_read_size = max n 512, rc_max_window = max_window, rc_window = window_new \<rparr>"

definition rc_offer :: "read_cursor \<Rightarrow> input" where
  "rc_offer c = window_input (rc_window c)"

definition rc_take :: "nat \<Rightarrow> read_cursor \<Rightarrow> read_cursor" where
  "rc_take n c = c\<lparr>rc_window := window_consume n (rc_window c)\<rparr>"

type_synonym ('r, 'x) io_reader = "'r \<Rightarrow> nat \<Rightarrow> 'r \<times> ('x + byte list)"

text \<open>One read of up to \<open>want\<close> bytes at the end of the window; an empty one marks the end.\<close>

definition read_once ::
    "alloc \<Rightarrow> ('r, 'x) io_reader \<Rightarrow> nat \<Rightarrow> read_cursor \<Rightarrow> 'r
      \<Rightarrow> read_cursor \<times> 'r \<times> (('e, 'x) pump_failure + unit)" where
  "read_once al rd want c r =
     (let fin = window_end (rc_window c) in
      case try_spare al want (rc_max_window c) (rc_window c) of
        (w, Inl e) \<Rightarrow> (c\<lparr>rc_window := w\<rparr>, r, Err (PumpInput e))
      | (w, Inr _) \<Rightarrow> (case rd r want of
          (r, Inl e) \<Rightarrow> (c\<lparr>rc_window := w\<rparr>, r, Err (PumpIo e))
        | (r, Inr bs) \<Rightarrow>
            let w = commit (length bs) (window_fill bs w)
            in (c\<lparr>rc_window := (if bs = [] then w\<lparr>w_total := Some fin\<rparr> else w)\<rparr>, r, Ok ())))"

partial_function (option) skip_to ::
    "alloc \<Rightarrow> ('r, 'x) io_reader \<Rightarrow> nat \<Rightarrow> read_cursor \<Rightarrow> 'r
      \<Rightarrow> (read_cursor \<times> 'r \<times> (('e, 'x) pump_failure + unit)) option" where
  "skip_to al rd offset c r =
     (let w = rc_window c; fin = window_end w in
      if offset > fin \<and> w_total w = None
      then (case read_once al rd (min (min (offset - fin) (rc_read_size c)) (rc_max_window c))
              (c\<lparr>rc_window := reset_to fin w\<rparr>) r of
          (c, r, Inl e) \<Rightarrow> Some (c, r, Err e)
        | (c, r, Inr _) \<Rightarrow> skip_to al rd offset c r)
      else Some (c, r, Ok ()))"

partial_function (option) read_until ::
    "alloc \<Rightarrow> ('r, 'x) io_reader \<Rightarrow> nat \<Rightarrow> nat \<Rightarrow> read_cursor \<Rightarrow> 'r
      \<Rightarrow> (read_cursor \<times> 'r \<times> (('e, 'x) pump_failure + unit)) option" where
  "read_until al rd min_len target c r =
     (let w = rc_window c in
      if window_len w < max min_len 1 \<and> w_total w = None
      then (case read_once al rd (target - min (window_len w) target) c r of
          (c, r, Inl e) \<Rightarrow> Some (c, r, Err e)
        | (c, r, Inr _) \<Rightarrow> read_until al rd min_len target c r)
      else Some (c, r, Ok ()))"

definition rc_choose :: "nat \<Rightarrow> input_request list \<Rightarrow> input_request option" where
  "rc_choose base requests =
     (case find (\<lambda>q. case request_offset q of None \<Rightarrow> False | Some x \<Rightarrow> x \<ge> base) requests of
        Some q \<Rightarrow> Some q
      | None \<Rightarrow> (case requests of [] \<Rightarrow> None | q # _ \<Rightarrow> Some q))"

definition rc_serve_span ::
    "alloc \<Rightarrow> ('r, 'x) io_reader \<Rightarrow> input_request \<Rightarrow> nat \<Rightarrow> nat \<Rightarrow> read_cursor \<Rightarrow> 'r
      \<Rightarrow> (read_cursor \<times> 'r \<times> (('e, 'x) pump_failure + unit)) option" where
  "rc_serve_span al rd request offset min_len c r =
     (if offset < w_base (rc_window c) then Some (c, r, Err (NeedsRandomAccess request))
      else if max min_len 1 > rc_max_window c
      then Some (c, r, Err (WindowLimit (max min_len 1) (rc_max_window c)))
      else case skip_to al rd offset c r of
        None \<Rightarrow> None
      | Some (c, r, Inl e) \<Rightarrow> Some (c, r, Err e)
      | Some (c, r, Inr _) \<Rightarrow>
          let w = rc_window c;
              c = (if offset \<le> window_end w then c\<lparr>rc_window := window_consume (offset - w_base w) w\<rparr> else c);
              target = min (min (read_target min_len (rc_read_size c)) (rc_max_window c)) (u64_max - offset)
          in read_until al rd min_len target c r)"

definition rc_serve ::
    "alloc \<Rightarrow> ('r, 'x) io_reader \<Rightarrow> input_request list \<Rightarrow> read_cursor \<Rightarrow> 'r
      \<Rightarrow> (read_cursor \<times> 'r \<times> (('e, 'x) pump_failure + unit)) ending option" where
  "rc_serve al rd requests c r = (case rc_choose (w_base (rc_window c)) requests of
     None \<Rightarrow> Some Panics
   | Some request \<Rightarrow> (case request of
       AtLeast offset min_len \<Rightarrow> map_option Returns (rc_serve_span al rd request offset min_len c r)
     | RangeOf q \<Rightarrow> (case try_into usize_max (br_length q) of
         None \<Rightarrow> Some (Returns (c, r, Err (PumpInput (LimitHit (br_length q) (rc_max_window c)))))
       | Some n \<Rightarrow> map_option Returns (rc_serve_span al rd request (br_offset q) n c r))
     | Len \<Rightarrow> Some (Returns (c, r, Err (NeedsRandomAccess request)))))"

partial_function (option) rc_next ::
    "alloc \<Rightarrow> ('r, 'x) io_reader \<Rightarrow> ('d, 'e, 'o) stage \<Rightarrow> ('d \<Rightarrow> input_request list) \<Rightarrow> read_cursor \<Rightarrow> 'd \<Rightarrow> 'r
      \<Rightarrow> (read_cursor \<times> 'd \<times> 'r \<times> (('e, 'x) pump_failure + 'o yield)) ending option" where
  "rc_next al rd step requested c d r = (case step d (rc_offer c) of
     (d, Inl e) \<Rightarrow> Some (Returns (c, d, r, Err (PumpStep e)))
   | (d, Inr p) \<Rightarrow> (case st_kind p of
       StepOutput x \<Rightarrow> Some (Returns (rc_take (st_consumed p) c, d, r, Ok (YieldOutput x)))
     | StepFinished x \<Rightarrow> Some (Returns (rc_take (st_consumed p) c, d, r, Ok (YieldFinished x)))
     | StepNeed \<Rightarrow> (case check_need (requested d) (rc_offer c) (st_consumed p) of
         Inl e \<Rightarrow> Some (Returns (c, d, r, Err (PumpProtocol e)))
       | Inr _ \<Rightarrow> (case rc_serve al rd (requested d) (rc_take (st_consumed p) c) r of
           None \<Rightarrow> None
         | Some Panics \<Rightarrow> Some Panics
         | Some (Returns (c, r, Inl e)) \<Rightarrow> Some (Returns (c, d, r, Err e))
         | Some (Returns (c, r, Inr _)) \<Rightarrow> rc_next al rd step requested c d r))))"

partial_function (option) pump_loop ::
    "alloc \<Rightarrow> ('r, 'x) io_reader \<Rightarrow> ('d, 'e, 'p, 'o) decoder \<Rightarrow> ('d \<Rightarrow> input_request list) \<Rightarrow> read_cursor \<Rightarrow> 'd \<Rightarrow> 'r
      \<Rightarrow> ('d \<times> 'r \<times> (('e, 'x) pump_failure + ('p, 'o) output_info)) ending option" where
  "pump_loop al rd step requested c d r = (case step d (rc_offer c) of
     (d, Inl e) \<Rightarrow> Some (Returns (d, r, Err (PumpStep e)))
   | (d, Inr p) \<Rightarrow> (case event_of p of
       Done info \<Rightarrow> Some (Returns (d, r, Ok info))
     | Rows m n \<Rightarrow> pump_loop al rd step requested (rc_take (consumed p) c) d r
     | MetadataReady u \<Rightarrow> pump_loop al rd step requested (rc_take (consumed p) c) d r
     | Need \<Rightarrow> (case check_need (requested d) (rc_offer c) (consumed p) of
         Inl e \<Rightarrow> Some (Returns (d, r, Err (PumpProtocol e)))
       | Inr _ \<Rightarrow> (case rc_serve al rd (requested d) (rc_take (consumed p) c) r of
           None \<Rightarrow> None
         | Some Panics \<Rightarrow> Some Panics
         | Some (Returns (c, r, res)) \<Rightarrow> (case res of
             Inl e \<Rightarrow> Some (Returns (d, r, Err e))
           | Inr _ \<Rightarrow> pump_loop al rd step requested c d r)))))"

definition pump_read_to_sink ::
    "alloc \<Rightarrow> ('r, 'x) io_reader \<Rightarrow> ('d, 'e, 'p, 'o) decoder \<Rightarrow> ('d \<Rightarrow> input_request list) \<Rightarrow> nat \<Rightarrow> nat \<Rightarrow> 'd \<Rightarrow> 'r
      \<Rightarrow> ('d \<times> 'r \<times> (('e, 'x) pump_failure + ('p, 'o) output_info)) ending option" where
  "pump_read_to_sink al rd step requested n max_window d r =
     pump_loop al rd step requested (read_cursor_new n max_window) d r"

subsection \<open>What the cursor keeps\<close>

text \<open>The window is the last piece of what was read of the stream \<open>f\<close>; \<open>left\<close> is what was not.\<close>

definition pump_ok :: "byte list \<Rightarrow> read_cursor \<Rightarrow> byte list \<Rightarrow> bool" where
  "pump_ok f c left \<longleftrightarrow> holds f (rc_window c) \<and> window_end (rc_window c) \<le> length f
     \<and> left = drop (window_end (rc_window c)) f
     \<and> (w_total (rc_window c) = None
        \<or> (w_total (rc_window c) = Some (length f) \<and> window_end (rc_window c) = length f))
     \<and> window_capacity (rc_window c) \<le> rc_max_window c"

definition same_setup :: "read_cursor \<Rightarrow> read_cursor \<Rightarrow> bool" where
  "same_setup c c' \<longleftrightarrow> rc_read_size c' = rc_read_size c \<and> rc_max_window c' = rc_max_window c"

lemma pump_ok_new: "pump_ok f (read_cursor_new n m) f"
  using holds_new[of f]
  by (simp add: pump_ok_def read_cursor_new_def window_new_def window_end_def window_len_def window_capacity_def
      vec_empty_def)

lemma pump_ok_consume:
  assumes "pump_ok f c left" "length f \<le> u64_max"
  shows "pump_ok f (c\<lparr>rc_window := window_consume n (rc_window c)\<rparr>) left"
proof -
  have h: "holds f (rc_window c)" using assms(1) by (simp add: pump_ok_def)
  note wc = window_consume_holds[OF h assms(2), of n]
  have "window_end (window_consume n (rc_window c)) = window_end (rc_window c)"
    using window_end_exact(1)[OF h assms(2)] window_end_exact(1)[OF wc(1) assms(2)] wc(2,3) by simp
  moreover have "w_total (window_consume n (rc_window c)) = w_total (rc_window c)"
    "window_capacity (window_consume n (rc_window c)) = window_capacity (rc_window c)"
    by (simp_all add: window_consume_def Let_def window_capacity_def)
  ultimately show ?thesis using assms(1) wc(1) by (simp add: pump_ok_def)
qed

lemma pump_ok_reset:
  assumes "pump_ok f c left" "length f \<le> u64_max"
  shows "pump_ok f (c\<lparr>rc_window := reset_to (window_end (rc_window c)) (rc_window c)\<rparr>) left"
    "window_end (reset_to (window_end (rc_window c)) (rc_window c)) = window_end (rc_window c)"
    "window_len (reset_to (window_end (rc_window c)) (rc_window c)) = 0"
proof -
  let ?w = "rc_window c"
  have le: "window_end ?w \<le> u64_max" by (simp add: window_end_def)
  show "window_end (reset_to (window_end ?w) ?w) = window_end ?w" "window_len (reset_to (window_end ?w) ?w) = 0"
    using le by (simp_all add: reset_to_def window_end_def[of "w\<lparr>w_head := _\<rparr>" for w] window_len_def window_end_def)
  then show "pump_ok f (c\<lparr>rc_window := reset_to (window_end ?w) ?w\<rparr>) left"
    using assms holds_reset[OF _ le, of f ?w]
    by (simp add: pump_ok_def) (simp add: reset_to_def window_capacity_def)
qed

definition bounded :: "read_cursor \<Rightarrow> read_cursor \<Rightarrow> bool" where
  "bounded c c' \<longleftrightarrow> rc_read_size c' = rc_read_size c \<and> rc_max_window c' = rc_max_window c
     \<and> window_capacity (rc_window c') \<le> rc_max_window c"

lemma bounded_trans: "bounded c c' \<Longrightarrow> bounded c' c'' \<Longrightarrow> bounded c c''"
  by (simp add: bounded_def)

context sequential_reader
begin

lemma read_once_ok:
  assumes good: "good r" and pump: "pump_ok f c (rest r)" and f: "length f \<le> u64_max"
    and unfinished: "w_total (rc_window c) = None" and want: "0 < want"
    and run: "(read_once al rd want c r :: read_cursor \<times> 'r \<times> (('x, 'e io_error) pump_failure + unit)) = (c', r', res)"
  shows "good r' \<and> bounded c c'
    \<and> (res = Ok () \<longrightarrow> pump_ok f c' (rest r') \<and> w_base (rc_window c') = w_base (rc_window c)
         \<and> window_end (rc_window c') \<le> window_end (rc_window c) + want
         \<and> (length (rest r') < length (rest r) \<or> w_total (rc_window c') = Some (length f)))"
proof -
  let ?w = "rc_window c"
  have h: "holds f ?w" "window_end ?w \<le> length f" "rest r = drop (window_end ?w) f"
    "window_capacity ?w \<le> rc_max_window c"
    using pump by (auto simp: pump_ok_def)
  note e = window_end_exact(1)[OF h(1) f]
  obtain w1 r1 where spare: "try_spare al want (rc_max_window c) ?w = (w1, r1)" by fastforce
  note sp = try_spare_spec[OF h(1) spare]
  have cap: "window_capacity w1 \<le> rc_max_window c" using sp h(4) by auto
  show ?thesis
  proof (cases r1)
    case (Inl x)
    then have "c' = c\<lparr>rc_window := w1\<rparr>" "r' = r" "res \<noteq> Ok ()"
      using run spare by (auto simp: read_once_def Let_def)
    then show ?thesis using good cap by (simp add: bounded_def)
  next
    case (Inr u)
    obtain r2 x2 where read: "rd r want = (r2, x2)" by fastforce
    show ?thesis
    proof (cases x2)
      case (Inl x)
      then have "c' = c\<lparr>rc_window := w1\<rparr>" "r' = r2" "res \<noteq> Ok ()"
        using run spare Inr read by (auto simp: read_once_def Let_def)
      then show ?thesis using stays_good[OF good read] cap by (simp add: bounded_def)
    next
      case got: (Inr bs)
      note dl = delivers[OF good read[unfolded got]]
      have w1: "holds f w1" "w_end w1 + want \<le> length (vec_bytes (w_buf w1))" "window_len w1 = window_len ?w"
        "w_base w1 = w_base ?w" "w_total w1 = None" using sp Inr unfinished by auto
      have split: "drop (window_end ?w) f = bs @ rest r2" using dl h(3) by simp
      then have "piece f (window_end ?w) bs" unfolding piece_def by simp
      then have "piece f (w_base w1 + window_len w1) bs" using e w1 by simp
      note fc = fill_commit[OF w1(1,2) _ this]
      have len: "length bs \<le> want" using dl by simp
      let ?w2 = "commit (length bs) (window_fill bs w1)"
      have c': "c' = c\<lparr>rc_window := (if bs = [] then ?w2\<lparr>w_total := Some (window_end ?w)\<rparr> else ?w2)\<rparr>"
        "r' = r2" "res = Ok ()"
        using run spare Inr read got by (auto simp: read_once_def Let_def)
      have end2: "window_end ?w2 = window_end ?w + length bs"
        using window_end_exact(1)[OF fc(1)[OF len] f] fc(3,4)[OF len] w1(3,4) e by simp
      have "length (drop (window_end ?w) f) = length bs + length (rest r2)" using split by simp
      then have all: "window_end ?w + length bs \<le> length f" using h(2) by simp
      have rest2: "rest r2 = drop (window_end ?w + length bs) f"
        using split by (metis add.commute append_eq_conv_conj drop_drop)
      have fin: "bs = [] \<longrightarrow> window_end ?w = length f"
        using dl want h(2,3) by (metis drop_eq_Nil le_antisym neq0_conv)
      have "pump_ok f c' (rest r')"
        using c' fc[OF len] w1(5) end2 all rest2 fin cap by (cases "bs = []") (simp_all add: pump_ok_def)
      moreover have "length (rest r') < length (rest r) \<or> w_total (rc_window c') = Some (length f)"
        using c' fin dl by (cases "bs = []") auto
      ultimately show ?thesis
        using c' end2 len stays_good[OF good read] fc(4,6)[OF len] w1(4) cap by (auto simp: bounded_def)
    qed
  qed
qed

lemma skip_to_ok:
  assumes "good r" "pump_ok f c (rest r)" "length f \<le> u64_max" "0 < rc_read_size c" "0 < rc_max_window c"
    "w_base (rc_window c) \<le> offset"
  shows "\<exists>c' r' res. (skip_to al rd offset c r :: (read_cursor \<times> 'r \<times> (('x, 'e io_error) pump_failure + unit)) option)
      = Some (c', r', res) \<and> good r' \<and> bounded c c'
    \<and> (res = Ok () \<longrightarrow> pump_ok f c' (rest r') \<and> w_base (rc_window c') \<le> offset
         \<and> (offset \<le> window_end (rc_window c') \<or> w_total (rc_window c') \<noteq> None))"
  using assms
proof (induction "length (rest r)" arbitrary: r c rule: less_induct)
  case (less r c)
  let ?w = "rc_window c"
  have refl: "bounded c c" using less.prems(2) by (simp add: bounded_def pump_ok_def)
  show ?case
  proof (cases "offset > window_end ?w \<and> w_total ?w = None")
    case False
    then show ?thesis using less.prems refl
      by (subst skip_to.simps) (auto simp: Let_def)
  next
    case True
    let ?c1 = "c\<lparr>rc_window := reset_to (window_end ?w) ?w\<rparr>"
    note reset = pump_ok_reset[OF less.prems(2,3)]
    let ?want = "min (min (offset - window_end ?w) (rc_read_size c)) (rc_max_window c)"
    obtain c2 r2 res2 where one: "(read_once al rd ?want ?c1 r
        :: read_cursor \<times> 'r \<times> (('x, 'e io_error) pump_failure + unit)) = (c2, r2, res2)" by (metis prod_cases3)
    have pre: "w_total (rc_window ?c1) = None" "0 < ?want" "w_base (rc_window ?c1) = window_end ?w"
      using True less.prems(4,5) by (auto simp: reset_to_def)
    note step = read_once_ok[OF less.prems(1) reset(1) less.prems(3) pre(1,2) one]
    have bounded2: "bounded c c2" using step refl by (simp add: bounded_def)
    show ?thesis
    proof (cases res2)
      case (Inl e)
      then show ?thesis using True one step bounded2 by (subst skip_to.simps) (auto simp: Let_def)
    next
      case (Inr u)
      then have ok2: "pump_ok f c2 (rest r2)" "w_base (rc_window c2) \<le> offset"
        "length (rest r2) < length (rest r) \<or> w_total (rc_window c2) = Some (length f)"
        using step pre(3) True by auto
      have go: "(skip_to al rd offset c r :: (read_cursor \<times> 'r \<times> (('x, 'e io_error) pump_failure + unit)) option)
          = skip_to al rd offset c2 r2"
        using True one Inr by (subst skip_to.simps) (simp add: Let_def)
      show ?thesis
      proof (cases "w_total (rc_window c2) = Some (length f)")
        case fin: True
        then have "(skip_to al rd offset c2 r2 :: (read_cursor \<times> 'r \<times> (('x, 'e io_error) pump_failure + unit)) option)
            = Some (c2, r2, Ok ())"
          by (subst skip_to.simps) (simp add: Let_def)
        then show ?thesis using go step bounded2 ok2 fin Inr by auto
      next
        case False
        then have "length (rest r2) < length (rest r)" using ok2(3) by blast
        moreover have "0 < rc_read_size c2" "0 < rc_max_window c2"
          using bounded2 less.prems(4,5) by (simp_all add: bounded_def)
        ultimately show ?thesis
          using less.hyps[OF _ _ ok2(1) less.prems(3) _ _ ok2(2)] step go bounded_trans[OF bounded2] by fastforce
      qed
    qed
  qed
qed

lemma read_until_ok:
  assumes "good r" "pump_ok f c (rest r)" "length f \<le> u64_max" "max min_len 1 \<le> target"
  shows "\<exists>c' r' res. (read_until al rd min_len target c r
        :: (read_cursor \<times> 'r \<times> (('x, 'e io_error) pump_failure + unit)) option)
      = Some (c', r', res) \<and> good r' \<and> bounded c c'
    \<and> (res = Ok () \<longrightarrow> pump_ok f c' (rest r') \<and> w_base (rc_window c') = w_base (rc_window c)
         \<and> (max min_len 1 \<le> window_len (rc_window c') \<or> w_total (rc_window c') \<noteq> None))"
  using assms
proof (induction "length (rest r)" arbitrary: r c rule: less_induct)
  case (less r c)
  let ?w = "rc_window c"
  have refl: "bounded c c" using less.prems(2) by (simp add: bounded_def pump_ok_def)
  show ?case
  proof (cases "window_len ?w < max min_len 1 \<and> w_total ?w = None")
    case False
    then have "(read_until al rd min_len target c r
        :: (read_cursor \<times> 'r \<times> (('x, 'e io_error) pump_failure + unit)) option) = Some (c, r, Ok ())"
      by (subst read_until.simps) (simp only: Let_def if_False)
    then show ?thesis using less.prems refl False by auto
  next
    case True
    let ?want = "target - min (window_len ?w) target"
    obtain c2 r2 res2 where one: "(read_once al rd ?want c r
        :: read_cursor \<times> 'r \<times> (('x, 'e io_error) pump_failure + unit)) = (c2, r2, res2)" by (metis prod_cases3)
    have pre: "w_total ?w = None" "0 < ?want" using True less.prems(4) by auto
    note step = read_once_ok[OF less.prems(1-3) pre one]
    have go: "(read_until al rd min_len target c r
        :: (read_cursor \<times> 'r \<times> (('x, 'e io_error) pump_failure + unit)) option)
        = (case res2 of Inl e \<Rightarrow> Some (c2, r2, Err e) | Inr _ \<Rightarrow> read_until al rd min_len target c2 r2)"
      by (subst read_until.simps) (simp only: Let_def True if_True one prod.case simp_thms)
    show ?thesis
    proof (cases res2)
      case (Inl e)
      then show ?thesis using go step by auto
    next
      case (Inr u)
      then have ok2: "pump_ok f c2 (rest r2)" "w_base (rc_window c2) = w_base ?w" "good r2" "bounded c c2"
        "length (rest r2) < length (rest r) \<or> w_total (rc_window c2) = Some (length f)"
        using step by auto
      show ?thesis
      proof (cases "w_total (rc_window c2) = Some (length f)")
        case fin: True
        then have "(read_until al rd min_len target c2 r2
            :: (read_cursor \<times> 'r \<times> (('x, 'e io_error) pump_failure + unit)) option) = Some (c2, r2, Ok ())"
          by (subst read_until.simps) (simp add: Let_def)
        then show ?thesis using go ok2 fin Inr by auto
      next
        case False
        then have "length (rest r2) < length (rest r)" using ok2(5) by blast
        from less.hyps[OF this ok2(3,1) less.prems(3,4)] show ?thesis
          using go Inr bounded_trans[OF ok2(4)] ok2(2) by fastforce
      qed
    qed
  qed
qed


lemma rc_serve_span_ok:
  assumes good: "good r" and pump: "pump_ok f c (rest r)" and f: "length f < u64_max"
    and conf: "0 < rc_read_size c" "rc_max_window c \<le> usize_max"
    and span: "offset + min_len \<le> u64_max"
  shows "\<exists>c' r' res. (rc_serve_span al rd q offset min_len c r
        :: (read_cursor \<times> 'r \<times> (('x, 'e io_error) pump_failure + unit)) option)
      = Some (c', r', res) \<and> good r' \<and> bounded c c'
    \<and> (res = Ok () \<longrightarrow> pump_ok f c' (rest r')
         \<and> (w_base (rc_window c') = offset \<and> max min_len 1 \<le> window_len (rc_window c')
            \<or> w_total (rc_window c') = Some (length f) \<and> (offset \<le> length f \<longrightarrow> w_base (rc_window c') = offset)))"
proof (cases "offset < w_base (rc_window c) \<or> rc_max_window c < max min_len 1")
  case True
  have "bounded c c" using pump by (simp add: bounded_def pump_ok_def)
  then show ?thesis using True good by (auto simp: rc_serve_span_def)
next
  case False
  have f': "length f \<le> u64_max" using f by simp
  have "0 < rc_max_window c" "w_base (rc_window c) \<le> offset" using False by auto
  from skip_to_ok[OF good pump f' conf(1) this, of al] obtain c1 r1 and
    res1 :: "('x, 'e io_error) pump_failure + unit" where skip: "skip_to al rd offset c r = Some (c1, r1, res1)"
    "good r1" "bounded c c1"
    "res1 = Ok () \<Longrightarrow> pump_ok f c1 (rest r1) \<and> w_base (rc_window c1) \<le> offset
         \<and> (offset \<le> window_end (rc_window c1) \<or> w_total (rc_window c1) \<noteq> None)"
    by blast
  show ?thesis
  proof (cases res1)
    case (Inl e)
    then show ?thesis using False skip by (auto simp: rc_serve_span_def)
  next
    case (Inr u)
    then have at: "pump_ok f c1 (rest r1)" "w_base (rc_window c1) \<le> offset"
      "offset \<le> window_end (rc_window c1) \<or> w_total (rc_window c1) \<noteq> None" using skip(4) by auto
    define c2 where "c2 = (if offset \<le> window_end (rc_window c1)
      then c1\<lparr>rc_window := window_consume (offset - w_base (rc_window c1)) (rc_window c1)\<rparr> else c1)"
    have ok2: "pump_ok f c2 (rest r1)" using pump_ok_consume[OF at(1) f'] at(1) by (simp add: c2_def)
    have same: "rc_read_size c2 = rc_read_size c" "rc_max_window c2 = rc_max_window c"
      using skip(3) by (simp_all add: c2_def bounded_def)
    have "bounded c1 c2" using ok2 skip(3) same by (simp add: bounded_def pump_ok_def)
    then have b2: "bounded c c2" by (rule bounded_trans[OF skip(3)])
    have base2: "w_base (rc_window c2) = offset" if "offset \<le> window_end (rc_window c1)"
      using that at(1,2) window_consume_holds(2)[of f "rc_window c1"] window_end_exact(1)[of f "rc_window c1"] f'
      by (auto simp: c2_def pump_ok_def)
    have fin2: "offset \<le> window_end (rc_window c1) \<or> w_total (rc_window c2) = Some (length f)"
      using at(1,3) by (auto simp: c2_def pump_ok_def)
    have beyond: "offset \<le> length f \<Longrightarrow> offset \<le> window_end (rc_window c1)"
      using at(1,3) by (auto simp: pump_ok_def)
    let ?target = "min (min (read_target min_len (rc_read_size c2)) (rc_max_window c2)) (u64_max - offset)"
    have run: "(rc_serve_span al rd q offset min_len c r
        :: (read_cursor \<times> 'r \<times> (('x, 'e io_error) pump_failure + unit)) option)
        = read_until al rd min_len ?target c2 r1"
      using False skip(1) Inr by (simp add: rc_serve_span_def Let_def c2_def)
    show ?thesis
    proof (cases "w_total (rc_window c2) = None")
      case None: True
      have offset: "offset \<le> window_end (rc_window c1)" using fin2 None by simp
      then have "offset \<le> length f" using at(1) by (simp add: pump_ok_def)
      then have "max min_len 1 \<le> u64_max - offset" using f span by linarith
      moreover have "max min_len 1 \<le> rc_max_window c2" using False same by auto
      moreover have "max min_len 1 \<le> read_target min_len (rc_read_size c2)"
        using False conf(2) by (intro read_target_ge) (metis le_trans linorder_not_less)
      ultimately have "max min_len 1 \<le> ?target" by (simp only: min.bounded_iff)
      from read_until_ok[OF skip(2) ok2 f' this, of al] obtain c3 r3 and
        res3 :: "('x, 'e io_error) pump_failure + unit" where
        "read_until al rd min_len ?target c2 r1 = Some (c3, r3, res3)" "good r3" "bounded c2 c3"
        "res3 = Ok () \<Longrightarrow> pump_ok f c3 (rest r3) \<and> w_base (rc_window c3) = offset
         \<and> (max min_len 1 \<le> window_len (rc_window c3) \<or> w_total (rc_window c3) \<noteq> None)"
        using base2[OF offset] by auto
      then show ?thesis using run bounded_trans[OF b2] by (auto simp: pump_ok_def)
    next
      case at_end: False
      then have "(read_until al rd min_len ?target c2 r1
          :: (read_cursor \<times> 'r \<times> (('x, 'e io_error) pump_failure + unit)) option) = Some (c2, r1, Ok ())"
        by (subst read_until.simps) (use at_end in \<open>auto simp: Let_def\<close>)
      then show ?thesis using run b2 skip(2) ok2 at_end base2 beyond by (auto simp: pump_ok_def)
    qed
  qed
qed

end


subsection \<open>Serving over a stream\<close>

lemma rc_choose_mem: "requests \<noteq> [] \<Longrightarrow> \<exists>q. rc_choose base requests = Some q \<and> q \<in> set requests"
  by (cases "find (\<lambda>q. case request_offset q of None \<Rightarrow> False | Some x \<Rightarrow> x \<ge> base) requests")
    (auto simp: rc_choose_def dest: find_Some split: list.splits)

definition past_the_end :: "nat \<Rightarrow> input_request \<Rightarrow> input \<Rightarrow> bool" where
  "past_the_end extent q i \<longleftrightarrow> in_total i = Some extent
     \<and> (case request_offset q of None \<Rightarrow> False | Some x \<Rightarrow> x > extent)"

lemma rc_offer_satisfies:
  assumes "pump_ok f c left" "length f \<le> u64_max"
    and "w_base (rc_window c) = offset \<and> max n 1 \<le> window_len (rc_window c)
      \<or> w_total (rc_window c) = Some (length f) \<and> (offset \<le> length f \<longrightarrow> w_base (rc_window c) = offset)"
  shows "is_satisfied_by (AtLeast offset n) (rc_offer c) \<or> offset > length f \<and> in_total (rc_offer c) = Some (length f)"
proof -
  let ?w = "rc_window c"
  have h: "holds f ?w" "w_total ?w = Some (length f) \<Longrightarrow> window_end ?w = length f"
    using assms(1) by (auto simp: pump_ok_def)
  note len = window_bytes_length[OF h(1)]
  note e = window_end_exact(1)[OF h(1) assms(2)]
  have i: "in_offset (rc_offer c) = w_base ?w" "in_bytes (rc_offer c) = window_bytes ?w"
    "in_total (rc_offer c) = w_total ?w"
    by (simp_all add: rc_offer_def window_input_def input_new_def with_total_len_opt_def)
  have "input_end (rc_offer c) = window_end ?w" if "w_total ?w = Some (length f)"
    using that h(2) e i len assms(2) by (simp add: input_end_def saturating_add_def)
  then show ?thesis using assms(3) i h(2) len by auto
qed

text \<open>
  C11: Over any stream that keeps the contract of \<open>Read\<close>, serving a decoder's requests returns: it
  neither panics nor loops, whatever short reads and failures the stream answers with. The window
  never holds more than its limit. When it succeeds, the window is still the last piece of what
  the stream gave, nothing was lost or read twice, and the next input satisfies one of the requests, unless
  that request starts past the end, and then the input says where the end is.
\<close>

theorem sequential_serve_exact:
  assumes "sequential_reader good rd rest interrupts" "good r" "pump_ok f c (rest r)" "length f < u64_max"
    and "0 < rc_read_size c" "rc_max_window c \<le> usize_max"
    and "requests \<noteq> []" "\<forall>q \<in> set requests. \<not> address_overflows q"
  shows "\<exists>c' r' res. (rc_serve al rd requests c r
        :: (read_cursor \<times> 'r \<times> (('x, 'e io_error) pump_failure + unit)) ending option)
      = Some (Returns (c', r', res)) \<and> good r' \<and> window_capacity (rc_window c') \<le> rc_max_window c
    \<and> (res = Ok () \<longrightarrow> pump_ok f c' (rest r')
         \<and> (\<exists>q \<in> set requests. is_satisfied_by q (rc_offer c') \<or> past_the_end (length f) q (rc_offer c')))"
proof -
  have f': "length f \<le> u64_max" using assms(4) by simp
  have here: "window_capacity (rc_window c) \<le> rc_max_window c" using assms(3) by (simp add: pump_ok_def)
  obtain q where q: "rc_choose (w_base (rc_window c)) requests = Some q" "q \<in> set requests"
    using rc_choose_mem[OF assms(7)] by blast
  have fits: "\<not> address_overflows q" using assms(8) q(2) by blast
  note span = sequential_reader.rc_serve_span_ok[OF assms(1-6), where q = q and al = al]
  note sat = rc_offer_satisfies[OF _ f']
  show ?thesis
  proof (cases q)
    case (AtLeast offset n)
    then have "offset + n \<le> u64_max" using fits by (simp add: address_overflows_def)
    from span[OF this] obtain c' r' and res :: "('x, 'e io_error) pump_failure + unit" where
      s: "rc_serve_span al rd q offset n c r = Some (c', r', res)" "good r'" "bounded c c'"
      "res = Ok () \<Longrightarrow> pump_ok f c' (rest r')
         \<and> (w_base (rc_window c') = offset \<and> max n 1 \<le> window_len (rc_window c')
            \<or> w_total (rc_window c') = Some (length f) \<and> (offset \<le> length f \<longrightarrow> w_base (rc_window c') = offset))"
      by blast
    have "res = Ok () \<Longrightarrow> is_satisfied_by q (rc_offer c') \<or> past_the_end (length f) q (rc_offer c')"
      using sat[of c' _ offset n] s(4) AtLeast by (auto simp: past_the_end_def)
    then show ?thesis using q s AtLeast by (auto simp: rc_serve_def bounded_def intro!: bexI[of _ q])
  next
    case (RangeOf b)
    show ?thesis
    proof (cases "br_length b \<le> usize_max")
      case True
      have "br_offset b + br_length b \<le> u64_max"
        using fits RangeOf by (simp add: address_overflows_def)
      from span[OF this] obtain c' r' and res :: "('x, 'e io_error) pump_failure + unit" where
        s: "rc_serve_span al rd q (br_offset b) (br_length b) c r = Some (c', r', res)" "good r'" "bounded c c'"
        "res = Ok () \<Longrightarrow> pump_ok f c' (rest r')
         \<and> (w_base (rc_window c') = br_offset b \<and> max (br_length b) 1 \<le> window_len (rc_window c')
            \<or> w_total (rc_window c') = Some (length f)
              \<and> (br_offset b \<le> length f \<longrightarrow> w_base (rc_window c') = br_offset b))"
        by blast
      have "res = Ok () \<Longrightarrow> is_satisfied_by q (rc_offer c') \<or> past_the_end (length f) q (rc_offer c')"
        using sat[of c' _ "br_offset b" "br_length b"] s(4) RangeOf by (auto simp: past_the_end_def)
      then show ?thesis using q s RangeOf True
        by (auto simp: rc_serve_def bounded_def try_into_def intro!: bexI[of _ q])
    qed (use q assms(2) here RangeOf in \<open>auto simp: rc_serve_def try_into_def\<close>)
  qed (use q assms(2) here in \<open>auto simp: rc_serve_def\<close>)
qed

theorem sequential_serve_exact_witness:
  "\<exists>c' r' res. (rc_serve Some (reader_read slice_read_at) [AtLeast 2 2] (read_cursor_new 0 4096)
        \<lparr> source = [1, 2, 3, 4, 5], position = 0 \<rparr>
        :: (read_cursor \<times> byte list reader \<times> ((unit, source_error reader_error io_error) pump_failure + unit)) ending option)
      = Some (Returns (c', r', res)) \<and> addressable (source r') \<and> window_capacity (rc_window c') \<le> 4096
    \<and> (res = Ok () \<longrightarrow> pump_ok [1, 2, 3, 4, 5] c' (unread (\<lambda>bs. bs) r')
         \<and> (is_satisfied_by (AtLeast 2 2) (rc_offer c') \<or> past_the_end (length [1, 2, 3, 4, 5 :: byte]) (AtLeast 2 2) (rc_offer c')))"
proof -
  have "addressable [1, 2, 3, 4, 5 :: byte]" by (simp add: addressable_def u64_max_def)
  then show ?thesis
    using sequential_serve_exact[OF slice.over.sequential_reader_axioms,
        of "\<lparr> source = [1, 2, 3, 4, 5], position = 0 \<rparr>" "[1, 2, 3, 4, 5]" "read_cursor_new 0 4096" "[AtLeast 2 2]"
          "Some"] pump_ok_new[of "[1, 2, 3, 4, 5]" 0 4096]
    by (simp add: unread_def read_cursor_new_def u64_max_def address_overflows_def checked_add_def)
qed

end
