(* ===== verification/Media_Packet.thy ===== *)
theory Media_Packet
  imports Timing Storage Resource_Limits
begin

text \<open>
  Compressed packets: \<open>zencodec-media/src/packet.rs\<close>, and the structural limits of
  \<open>zencodec-media/src/limits.rs\<close>. A payload is owned, a range of a shared buffer, or a view of
  admitted storage; reading one that leaves its buffer panics (\<open>None\<close>). Copying a packet into
  admitted storage and mapping its payloads are loops over the payload and the side data that
  stop at the first error.
\<close>

subsection \<open>Limits\<close>

record media_limits =
  max_packet_bytes :: nat
  max_tracks :: nat
  max_header_bytes :: nat
  max_table_entries :: nat
  max_queued_packets :: nat
  max_queued_frames :: nat

definition media_limits_default :: media_limits where
  "media_limits_default = \<lparr> max_packet_bytes = 64 * 2 ^ 20, max_tracks = 64, max_header_bytes = 256 * 2 ^ 20,
     max_table_entries = 4 * 2 ^ 20, max_queued_packets = 64, max_queued_frames = 8 \<rparr>"

definition with_max_packet_bytes :: "nat \<Rightarrow> media_limits \<Rightarrow> media_limits" where
  "with_max_packet_bytes n l = l\<lparr>max_packet_bytes := n\<rparr>"

definition with_max_tracks :: "nat \<Rightarrow> media_limits \<Rightarrow> media_limits" where
  "with_max_tracks n l = l\<lparr>max_tracks := n\<rparr>"

definition with_max_header_bytes :: "nat \<Rightarrow> media_limits \<Rightarrow> media_limits" where
  "with_max_header_bytes n l = l\<lparr>max_header_bytes := n\<rparr>"

definition with_max_table_entries :: "nat \<Rightarrow> media_limits \<Rightarrow> media_limits" where
  "with_max_table_entries n l = l\<lparr>max_table_entries := n\<rparr>"

definition with_max_queued_packets :: "nat \<Rightarrow> media_limits \<Rightarrow> media_limits" where
  "with_max_queued_packets n l = l\<lparr>max_queued_packets := n\<rparr>"

definition with_max_queued_frames :: "nat \<Rightarrow> media_limits \<Rightarrow> media_limits" where
  "with_max_queued_frames n l = l\<lparr>max_queued_frames := n\<rparr>"

record media_exceeded =
  me_kind :: limit_kind
  me_requested :: nat
  me_limit :: nat

definition media_check :: "limit_kind \<Rightarrow> nat \<Rightarrow> nat \<Rightarrow> media_exceeded + unit" where
  "media_check k requested limit =
     (if requested > limit then Err \<lparr> me_kind = k, me_requested = requested, me_limit = limit \<rparr> else Ok ())"

definition check_packet_bytes :: "media_limits \<Rightarrow> nat \<Rightarrow> media_exceeded + unit" where
  "check_packet_bytes l n = media_check KPacketBytes n (max_packet_bytes l)"

definition check_tracks :: "media_limits \<Rightarrow> nat \<Rightarrow> media_exceeded + unit" where
  "check_tracks l n = media_check KTracks n (max_tracks l)"

definition check_header_bytes :: "media_limits \<Rightarrow> nat \<Rightarrow> media_exceeded + unit" where
  "check_header_bytes l n = media_check KHeaderBytes n (max_header_bytes l)"

definition check_table_entries :: "media_limits \<Rightarrow> nat \<Rightarrow> media_exceeded + unit" where
  "check_table_entries l n = media_check KTableEntries n (max_table_entries l)"

subsection \<open>Payloads\<close>

datatype payload =
    Owned "byte list"
  | Shared "byte list" nat nat
  | Accounted "byte shared_storage"

fun as_bytes :: "payload \<Rightarrow> byte list option" where
  "as_bytes (Owned bs) = Some bs"
| "as_bytes (Shared bs start n) =
     (if start + n \<le> length bs then Some (take n (drop start bs)) else None)"
| "as_bytes (Accounted v) = as_slice v"

definition payload_len :: "payload \<Rightarrow> nat option" where
  "payload_len x = map_option length (as_bytes x)"

definition into_vec :: "payload \<Rightarrow> byte list option" where
  "into_vec x = (case x of Owned bs \<Rightarrow> Some bs | _ \<Rightarrow> as_bytes x)"

datatype random_access = Yes | No | Unknown

record addition =
  add_id :: nat
  add_payload :: payload

record discard =
  dis_start :: "frame_duration option"
  dis_end :: "frame_duration option"

definition discard_start :: "frame_duration \<Rightarrow> discard" where
  "discard_start d = \<lparr> dis_start = Some d, dis_end = None \<rparr>"

definition discard_end :: "frame_duration \<Rightarrow> discard" where
  "discard_end d = \<lparr> dis_start = None, dis_end = Some d \<rparr>"

definition with_end :: "frame_duration \<Rightarrow> discard \<Rightarrow> discard" where
  "with_end d x = x\<lparr>dis_end := Some d\<rparr>"

subsection \<open>Packets\<close>

record packet =
  payload_of :: "payload option"
  track :: nat
  pts :: "timestamp option"
  dts :: "timestamp option"
  duration_ticks :: "nat option"
  random_access_of :: random_access
  config_epoch :: nat
  ordinal :: "nat option"
  input_offset :: "nat option"
  discard_of :: "discard option"
  additions :: "addition list"

datatype packet_error = EmptyPayload | OutOfRange

definition with_payload :: "payload \<Rightarrow> packet" where
  "with_payload x = \<lparr> payload_of = Some x, track = 0, pts = None, dts = None, duration_ticks = None,
     random_access_of = Unknown, config_epoch = 0, ordinal = None, input_offset = None, discard_of = None,
     additions = [] \<rparr>"

definition from_vec :: "byte list \<Rightarrow> packet_error + packet" where
  "from_vec bs = (if bs = [] then Err EmptyPayload else Ok (with_payload (Owned bs)))"

definition from_accounted :: "byte shared_storage \<Rightarrow> packet_error + packet" where
  "from_accounted v = (if view_len v = 0 then Err EmptyPayload else Ok (with_payload (Accounted v)))"

definition from_shared :: "byte list \<Rightarrow> nat \<Rightarrow> nat \<Rightarrow> packet_error + packet" where
  "from_shared bs start n =
     (if n = 0 then Err EmptyPayload
      else if (case checked_add usize_max start n of None \<Rightarrow> True | Some e \<Rightarrow> e > length bs) then Err OutOfRange
      else Ok (with_payload (Shared bs start n)))"

definition packet_bytes :: "packet \<Rightarrow> byte list option" where
  "packet_bytes p = (case payload_of p of None \<Rightarrow> Some [] | Some x \<Rightarrow> as_bytes x)"

definition packet_len :: "packet \<Rightarrow> nat option" where
  "packet_len p = map_option length (packet_bytes p)"

definition is_taken :: "packet \<Rightarrow> bool" where
  "is_taken p \<longleftrightarrow> payload_of p = None"

definition packet_take :: "packet \<Rightarrow> packet \<times> payload option" where
  "packet_take p = (p\<lparr>payload_of := None\<rparr>, payload_of p)"

definition decode_time :: "packet \<Rightarrow> timestamp option" where
  "decode_time p = (case dts p of Some t \<Rightarrow> Some t | None \<Rightarrow> pts p)"

definition with_track :: "nat \<Rightarrow> packet \<Rightarrow> packet" where
  "with_track x p = p\<lparr>track := x\<rparr>"

definition with_pts :: "timestamp \<Rightarrow> packet \<Rightarrow> packet" where
  "with_pts x p = p\<lparr>pts := Some x\<rparr>"

definition with_dts :: "timestamp \<Rightarrow> packet \<Rightarrow> packet" where
  "with_dts x p = p\<lparr>dts := Some x\<rparr>"

definition with_duration_ticks :: "nat \<Rightarrow> packet \<Rightarrow> packet" where
  "with_duration_ticks x p = p\<lparr>duration_ticks := Some x\<rparr>"

definition with_random_access :: "random_access \<Rightarrow> packet \<Rightarrow> packet" where
  "with_random_access x p = p\<lparr>random_access_of := x\<rparr>"

definition with_config_epoch :: "nat \<Rightarrow> packet \<Rightarrow> packet" where
  "with_config_epoch x p = p\<lparr>config_epoch := x\<rparr>"

definition with_ordinal :: "nat \<Rightarrow> packet \<Rightarrow> packet" where
  "with_ordinal x p = p\<lparr>ordinal := Some x\<rparr>"

definition with_input_offset :: "nat \<Rightarrow> packet \<Rightarrow> packet" where
  "with_input_offset x p = p\<lparr>input_offset := Some x\<rparr>"

definition with_discard :: "discard \<Rightarrow> packet \<Rightarrow> packet" where
  "with_discard x p = p\<lparr>discard_of := Some x\<rparr>"

definition with_addition :: "addition \<Rightarrow> packet \<Rightarrow> packet" where
  "with_addition a p = p\<lparr>additions := additions p @ [a]\<rparr>"

subsection \<open>Mapping the payloads\<close>

type_synonym ('s, 'e) mapper = "'s \<Rightarrow> payload \<Rightarrow> ('s \<times> ('e + payload)) option"

fun map_additions :: "('s, 'e) mapper \<Rightarrow> 's \<Rightarrow> addition list \<Rightarrow> ('s \<times> ('e + addition list)) option" where
  "map_additions m s [] = Some (s, Ok [])"
| "map_additions m s (a # as) = (case m s (add_payload a) of
     None \<Rightarrow> None
   | Some (s, Inl e) \<Rightarrow> Some (s, Err e)
   | Some (s, Inr x) \<Rightarrow> (case map_additions m s as of
       None \<Rightarrow> None
     | Some (s, Inl e) \<Rightarrow> Some (s, Err e)
     | Some (s, Inr as) \<Rightarrow> Some (s, Ok (a\<lparr>add_payload := x\<rparr> # as))))"

definition map_payloads :: "('s, 'e) mapper \<Rightarrow> 's \<Rightarrow> packet \<Rightarrow> ('s \<times> ('e + packet)) option" where
  "map_payloads m s p =
     (case (case payload_of p of
              None \<Rightarrow> Some (s, Ok None)
            | Some x \<Rightarrow> map_option (\<lambda>(s, r). (s, map_sum id Some r)) (m s x)) of
        None \<Rightarrow> None
      | Some (s, Inl e) \<Rightarrow> Some (s, Err e)
      | Some (s, Inr x) \<Rightarrow> (case map_additions m s (additions p) of
          None \<Rightarrow> None
        | Some (s, Inl e) \<Rightarrow> Some (s, Err e)
        | Some (s, Inr as) \<Rightarrow> Some (s, Ok (p\<lparr>payload_of := x, additions := as\<rparr>))))"

text \<open>
  A byte reservation of a budget nobody disturbs, with the vector's answer in \<open>capacity_of\<close>; a
  vector that fails to come drops the reservation again. Five accesses finish a reservation
  (\<open>reserve_decides\<close>), so the last branch is never taken (\<open>budget_bytes_cases\<close>). Undisturbed
  includes the payloads a copy replaces: where the code drops an accounted payload of the same budget as it
  assigns its copy, the model keeps that charge until the call is over, when another owner's step
  can release it (\<open>staging_history.others\<close>).
\<close>

definition budget_drop :: "budget \<Rightarrow> nat \<Rightarrow> budget" where
  "budget_drop b n = (case drop_step b (Live n 0) of (b, p) \<Rightarrow> fst (drop_step b p))"

definition budget_bytes :: "(nat \<Rightarrow> nat option) \<Rightarrow> budget \<Rightarrow> nat \<Rightarrow> budget \<times> (storage_error + byte list \<times> nat)" where
  "budget_bytes capacity_of b n = (case prepare_bytes 1 n of
     Inl e \<Rightarrow> (b, Err e)
   | Inr k \<Rightarrow> (case undisturbed 5 b (Enter k) of
       (b, Live k h) \<Rightarrow> (case allocate capacity_of 1 \<lparr> elements = n, fill_value = 0, reserved = k \<rparr> of
           Inl e \<Rightarrow> (budget_drop b k, Err e)
         | Inr bs \<Rightarrow> (b, Ok (bs, k)))
     | (b, Refused e) \<Rightarrow> (b, Err e)
     | (b, _) \<Rightarrow> (b, Err Allocation)))"

definition copy_in :: "(nat \<Rightarrow> nat option) \<Rightarrow> (budget \<times> nat list, storage_error) mapper" where
  "copy_in capacity_of s x = (case s of (b, taken) \<Rightarrow> (case as_bytes x of
     None \<Rightarrow> None
   | Some bs \<Rightarrow> (case budget_bytes capacity_of b (length bs) of
       (b, Inl e) \<Rightarrow> Some ((b, taken), Err e)
     | (b, Inr (zeros, k)) \<Rightarrow> Some ((b, k # taken), Ok (Accounted (freeze bs k))))))"

definition accounted_copy ::
    "(nat \<Rightarrow> nat option) \<Rightarrow> budget \<Rightarrow> packet \<Rightarrow> (budget \<times> (storage_error + packet)) option" where
  "accounted_copy capacity_of b p = (case map_payloads (copy_in capacity_of) (b, []) p of
     None \<Rightarrow> None
   | Some ((b, taken), Inl e) \<Rightarrow> Some (fold (\<lambda>k b. budget_drop b k) taken b, Err e)
   | Some ((b, taken), Inr p) \<Rightarrow> Some (b, Ok p))"

subsection \<open>The payloads as a list\<close>

definition payloads :: "packet \<Rightarrow> payload list" where
  "payloads p = (case payload_of p of None \<Rightarrow> [] | Some x \<Rightarrow> [x]) @ map add_payload (additions p)"

fun set_payloads :: "addition list \<Rightarrow> payload list \<Rightarrow> addition list" where
  "set_payloads (a # as) (x # xs) = a\<lparr>add_payload := x\<rparr> # set_payloads as xs"
| "set_payloads _ _ = []"

definition with_payloads :: "payload list \<Rightarrow> packet \<Rightarrow> packet" where
  "with_payloads xs p = (case payload_of p of
     None \<Rightarrow> p\<lparr>additions := set_payloads (additions p) xs\<rparr>
   | Some _ \<Rightarrow> p\<lparr>payload_of := Some (hd xs), additions := set_payloads (additions p) (tl xs)\<rparr>)"

fun map_list :: "('s, 'e) mapper \<Rightarrow> 's \<Rightarrow> payload list \<Rightarrow> ('s \<times> ('e + payload list)) option" where
  "map_list m s [] = Some (s, Ok [])"
| "map_list m s (x # xs) = (case m s x of
     None \<Rightarrow> None
   | Some (s, Inl e) \<Rightarrow> Some (s, Err e)
   | Some (s, Inr y) \<Rightarrow> (case map_list m s xs of
       None \<Rightarrow> None
     | Some (s, Inl e) \<Rightarrow> Some (s, Err e)
     | Some (s, Inr ys) \<Rightarrow> Some (s, Ok (y # ys))))"

lemma map_sum_Inl: "map_sum f g r = Inl e \<longleftrightarrow> (\<exists>e'. r = Inl e' \<and> e = f e')"
  by (cases r) auto

lemma map_sum_Inr: "map_sum f g r = Inr y \<longleftrightarrow> (\<exists>x. r = Inr x \<and> y = g x)"
  by (cases r) auto

lemma map_additions_list:
  "map_additions m s as = map_option (map_prod id (map_sum id (set_payloads as)))
     (map_list m s (map add_payload as))"
  by (induction as arbitrary: s) (auto split: option.splits sum.splits)

lemma map_payloads_list:
  "map_payloads m s p = map_option (map_prod id (map_sum id (\<lambda>xs. with_payloads xs p))) (map_list m s (payloads p))"
  by (cases "payload_of p")
    (auto simp: map_payloads_def map_additions_list payloads_def with_payloads_def map_sum_Inl map_sum_Inr
      split: option.splits sum.splits)

lemma length_map_list: "map_list m s xs = Some (s', Ok ys) \<Longrightarrow> length ys = length xs"
  by (induction xs arbitrary: s ys) (auto split: option.splits sum.splits)

lemma set_payloads_get: "length xs = length as \<Longrightarrow> map add_payload (set_payloads as xs) = xs"
  by (induction as xs rule: set_payloads.induct) auto

lemma set_payloads_twice: "length xs = length as \<Longrightarrow> length ys = length as \<Longrightarrow>
    set_payloads (set_payloads as ys) xs = set_payloads as xs"
  by (induction as arbitrary: xs ys) (auto simp: length_Suc_conv)

lemma set_payloads_same: "set_payloads as (map add_payload as) = as"
  by (induction as) auto

lemma payloads_with:
  "length xs = length (payloads p) \<Longrightarrow> payloads (with_payloads xs p) = xs"
  by (cases "payload_of p"; cases xs) (auto simp: payloads_def with_payloads_def set_payloads_get)

lemma with_with:
  "length xs = length (payloads p) \<Longrightarrow> length ys = length (payloads p) \<Longrightarrow>
    with_payloads xs (with_payloads ys p) = with_payloads xs p"
  by (cases "payload_of p"; cases xs; cases ys) (auto simp: payloads_def with_payloads_def set_payloads_twice)

lemma with_same: "with_payloads (payloads p) p = p"
  by (cases "payload_of p") (auto simp: payloads_def with_payloads_def set_payloads_same)

text \<open>What a packet says: everything recorded, with the bytes its payloads show.\<close>

definition readable :: "packet \<Rightarrow> bool" where
  "readable p \<longleftrightarrow> (\<forall>x \<in> set (payloads p). as_bytes x \<noteq> None)"

definition pieces :: "packet \<Rightarrow> byte list list" where
  "pieces p = map (the \<circ> as_bytes) (payloads p)"

definition settled :: "packet \<Rightarrow> packet" where
  "settled p = with_payloads (map Owned (pieces p)) p"

lemma settled_eqI:
  assumes "length xs = length (payloads p)" "map (the \<circ> as_bytes) xs = pieces p"
  shows "settled (with_payloads xs p) = settled p"
  using assms by (simp add: settled_def pieces_def payloads_with with_with)

subsection \<open>Admission\<close>

definition within_budget :: "budget \<Rightarrow> bool" where
  "within_budget b \<longleftrightarrow> objects b \<le> max_objects b \<and> bytes b \<le> max_bytes b
     \<and> max_objects b \<le> u64_max \<and> max_bytes b \<le> u64_max"

definition charge_budget :: "nat \<Rightarrow> budget \<Rightarrow> budget" where
  "charge_budget k b = b\<lparr>objects := objects b + 1, bytes := bytes b + k\<rparr>"

lemma budget_drop_charge: "within_budget (charge_budget k b) \<Longrightarrow> budget_drop (charge_budget k b) k = b"
  by (simp add: budget_drop_def charge_budget_def within_budget_def fetch_sub_le)

lemma budget_bytes_cases:
  assumes "within_budget b" "budget_bytes capacity_of b n = (b', r)"
  shows "(\<exists>e. r = Err e \<and> b' = b) \<or> (r = Ok (replicate n 0, n) \<and> b' = charge_budget n b \<and> within_budget b')"
proof (cases "prepare_bytes 1 n")
  case (Inl e)
  then show ?thesis using assms(2) by (auto simp: budget_bytes_def)
next
  case (Inr k)
  then have k: "k = n" by (auto simp: prepare_bytes_def split: option.splits if_splits)
  note decides = reserve_decides[of b n] assms(1)[unfolded within_budget_def]
  show ?thesis
  proof (cases "objects b + 1 > max_objects b \<or> bytes b + n > max_bytes b")
    case True
    then show ?thesis using assms(2) Inr k decides by (auto simp: budget_bytes_def split: if_splits)
  next
    case False
    then have live: "undisturbed 5 b (Enter n) = (charge_budget n b, Live n 1)"
      using decides by (auto simp: charge_budget_def)
    have "within_budget (charge_budget n b)"
      using False decides(2) by (simp add: within_budget_def charge_budget_def)
    then show ?thesis
      using assms(2) Inr k live budget_drop_charge
      by (auto simp: budget_bytes_def allocate_def split: option.splits sum.splits if_splits)
  qed
qed

definition charge_all :: "nat list \<Rightarrow> budget \<Rightarrow> budget" where
  "charge_all ks b = fold charge_budget ks b"

text \<open>The copies so far are what the charges are for, latest first.\<close>

lemma copy_in_list:
  assumes "within_budget b" "within_budget (charge_all (rev taken) b)"
    "map_list (copy_in capacity_of) (charge_all (rev taken) b, taken) xs = Some ((b', taken'), r)"
  shows "b' = charge_all (rev taken') b \<and> within_budget b'
    \<and> (\<forall>ys. r = Ok ys \<longrightarrow> (\<forall>x \<in> set xs. as_bytes x \<noteq> None) \<and> map as_bytes ys = map as_bytes xs
         \<and> rev taken' = rev taken @ map (length \<circ> the \<circ> as_bytes) xs)"
  using assms(2,3)
proof (induction xs arbitrary: taken r)
  case Nil
  then show ?case by auto
next
  case (Cons x xs)
  let ?b = "charge_all (rev taken) b"
  obtain bs where bs: "as_bytes x = Some bs"
    using Cons.prems(2) by (cases "as_bytes x") (auto simp: copy_in_def)
  obtain b1 r1 where one: "budget_bytes capacity_of ?b (length bs) = (b1, r1)" by fastforce
  consider (fails) e where "r1 = Err e" "b1 = ?b"
    | (gets) "r1 = Ok (replicate (length bs) 0, length bs)" "b1 = charge_budget (length bs) ?b" "within_budget b1"
    using budget_bytes_cases[OF Cons.prems(1) one] by blast
  then show ?case
  proof cases
    case fails
    then show ?thesis using Cons.prems bs one by (auto simp: copy_in_def)
  next
    case gets
    let ?t = "length bs # taken"
    have next_b: "b1 = charge_all (rev ?t) b" using gets by (simp add: charge_all_def)
    have step: "copy_in capacity_of (?b, taken) x = Some ((b1, ?t), Ok (Accounted (freeze bs (length bs))))"
      using bs one gets by (simp add: copy_in_def)
    obtain r2 where rest: "map_list (copy_in capacity_of) (b1, ?t) xs = Some ((b', taken'), r2)"
      and r: "r = (case r2 of Inl e \<Rightarrow> Err e | Inr ys \<Rightarrow> Ok (Accounted (freeze bs (length bs)) # ys))"
      using Cons.prems(2) step by (auto split: option.splits sum.splits)
    have "as_bytes (Accounted (freeze bs (length bs))) = Some bs"
      by (simp add: freeze_def as_slice_def view_len_def)
    moreover note ih = Cons.IH[of ?t r2, folded next_b, OF gets(3) rest]
    ultimately show ?thesis using r bs by (cases r2) auto
  qed
qed

lemma copy_in_shape:
  "map_list (copy_in capacity_of) s ys = Some (s', Ok zs) \<Longrightarrow> x \<in> set zs \<Longrightarrow> \<exists>v. x = Accounted v"
  by (induction ys arbitrary: s zs) (auto simp: copy_in_def split: option.splits sum.splits prod.splits)

lemma drop_charges:
  "within_budget b \<Longrightarrow> within_budget (charge_all ks b) \<Longrightarrow> fold (\<lambda>k b. budget_drop b k) (rev ks) (charge_all ks b) = b"
proof (induction ks arbitrary: b rule: rev_induct)
  case (snoc k ks)
  have all: "charge_all (ks @ [k]) b = charge_budget k (charge_all ks b)" by (simp add: charge_all_def)
  then have "within_budget (charge_all ks b)"
    using snoc.prems by (simp add: within_budget_def charge_budget_def)
  then show ?case using snoc all budget_drop_charge by simp
qed (simp add: charge_all_def)

text \<open>
  Copying a packet into admitted storage (\<open>Packet::accounted\<close>, packet.rs:193-207) keeps
  everything the packet records and every byte of its payload and side data; it charges the
  budget exactly the bytes copied, one object for each payload, and stays within its limits. When
  any part is refused the packet is gone and the budget is as it was before.
\<close>

lemma accounted_copy_ok:
  assumes "within_budget b" "accounted_copy capacity_of b p = Some (b', r)"
  shows "within_budget b' \<and> (case r of
      Inl e \<Rightarrow> b' = b
    | Inr q \<Rightarrow> readable p \<and> settled q = settled p \<and> readable q
        \<and> b' = charge_all (map length (pieces p)) b
        \<and> (\<forall>x \<in> set (payloads q). \<exists>v. x = Accounted v))"
proof -
  obtain bt taken rs where run: "map_list (copy_in capacity_of) (b, []) (payloads p) = Some ((bt, taken), rs)"
    and outcome: "(case rs of
        Inl e \<Rightarrow> b' = fold (\<lambda>k b. budget_drop b k) taken bt \<and> r = Err e
      | Inr xs \<Rightarrow> b' = bt \<and> r = Ok (with_payloads xs p))"
    using assms(2) by (cases "map_list (copy_in capacity_of) (b, []) (payloads p)")
      (auto simp: accounted_copy_def map_payloads_list map_sum_Inl map_sum_Inr
        split: option.splits sum.splits prod.splits)
  have here: "charge_all (rev []) b = b" by (simp add: charge_all_def)
  note list = copy_in_list[OF assms(1), of "[]" capacity_of "payloads p" bt taken rs, unfolded here, OF assms(1) run]
  show ?thesis
  proof (cases rs)
    case (Inl e)
    have "within_budget (charge_all (rev taken) b)" using list by auto
    from drop_charges[OF assms(1) this] show ?thesis using Inl list outcome assms(1) by simp
  next
    case (Inr xs)
    then have ok: "map as_bytes xs = map as_bytes (payloads p)" "b' = bt" "r = Ok (with_payloads xs p)"
      "rev taken = map length (pieces p)" "readable p"
      using list outcome by (auto simp: pieces_def readable_def)
    have len: "length xs = length (payloads p)" using ok(1) by (metis length_map)
    have "map (the \<circ> as_bytes) xs = pieces p" using ok(1) by (metis pieces_def map_map)
    then have same: "settled (with_payloads xs p) = settled p" by (rule settled_eqI[OF len])
    have "as_bytes ` set xs = as_bytes ` set (payloads p)" using ok(1) by (metis set_map)
    then have readable: "readable (with_payloads xs p)"
      using ok(5) len by (fastforce simp: readable_def payloads_with image_iff set_eq_iff)
    have "\<forall>x \<in> set xs. \<exists>v. x = Accounted v" using copy_in_shape run Inr by blast
    then show ?thesis using ok list same readable run Inr len by (auto simp: payloads_with)
  qed
qed

end
