(* ===== verification/Media_Staging.thy ===== *)
theory Media_Staging
  imports Media_Packet
begin

text \<open>
  Packet staging of \<open>zencodec-media/src/staging.rs\<close>: encoded packets kept in admitted memory or
  spooled to a scratch file until the encoder is gone. The file is its bytes, a position and the
  faults it will have, one entry for each operation: \<open>Some (k, e)\<close> fails with \<open>e\<close> after \<open>k\<close>
  bytes. A pulse is the answers of its checks. \<open>None\<close> of an operation is a panic.
\<close>

subsection \<open>Pulses\<close>

type_synonym 'r pulse = "'r option list"

definition pulse_check :: "'r pulse \<Rightarrow> 'r pulse \<times> ('r + unit)" where
  "pulse_check ps = (case ps of [] \<Rightarrow> ([], Ok ()) | None # ps \<Rightarrow> (ps, Ok ()) | Some r # ps \<Rightarrow> (ps, Err r))"

subsection \<open>The scratch file\<close>

datatype 'x io_fault = EndOfFile | Fault 'x

record 'x scratch =
  sc_bytes :: "byte list"
  sc_pos :: nat
  sc_faults :: "(nat \<times> 'x) option list"

definition next_fault :: "'x scratch \<Rightarrow> 'x scratch \<times> (nat \<times> 'x) option" where
  "next_fault f = (case sc_faults f of [] \<Rightarrow> (f, None) | x # xs \<Rightarrow> (f\<lparr>sc_faults := xs\<rparr>, x))"

definition overwrite :: "nat \<Rightarrow> byte list \<Rightarrow> byte list \<Rightarrow> byte list" where
  "overwrite pos bs f = take pos f @ replicate (pos - length f) 0 @ bs @ drop (pos + length bs) f"

definition scratch_seek :: "nat \<Rightarrow> 'x scratch \<Rightarrow> 'x scratch \<times> ('x io_fault + nat)" where
  "scratch_seek n f = (case next_fault f of
     (f, Some (_, e)) \<Rightarrow> (f, Err (Fault e)) | (f, None) \<Rightarrow> (f\<lparr>sc_pos := n\<rparr>, Ok n))"

definition scratch_seek_end :: "'x scratch \<Rightarrow> 'x scratch \<times> ('x io_fault + nat)" where
  "scratch_seek_end f = scratch_seek (length (sc_bytes f)) f"

definition scratch_position :: "'x scratch \<Rightarrow> 'x scratch \<times> ('x io_fault + nat)" where
  "scratch_position f = scratch_seek (sc_pos f) f"

definition scratch_write_all :: "byte list \<Rightarrow> 'x scratch \<Rightarrow> 'x scratch \<times> ('x io_fault + unit)" where
  "scratch_write_all bs f = (case next_fault f of
     (f, Some (k, e)) \<Rightarrow>
       (f\<lparr>sc_bytes := overwrite (sc_pos f) (take k bs) (sc_bytes f), sc_pos := sc_pos f + length (take k bs)\<rparr>,
        Err (Fault e))
   | (f, None) \<Rightarrow>
       (f\<lparr>sc_bytes := overwrite (sc_pos f) bs (sc_bytes f), sc_pos := sc_pos f + length bs\<rparr>, Ok ()))"

definition scratch_read_exact :: "nat \<Rightarrow> 'x scratch \<Rightarrow> 'x scratch \<times> ('x io_fault + byte list)" where
  "scratch_read_exact n f = (case next_fault f of
     (f, Some (k, e)) \<Rightarrow> (f\<lparr>sc_pos := sc_pos f + min k n\<rparr>, Err (Fault e))
   | (f, None) \<Rightarrow>
       if sc_pos f + n \<le> length (sc_bytes f)
       then (f\<lparr>sc_pos := sc_pos f + n\<rparr>, Ok (take n (drop (sc_pos f) (sc_bytes f))))
       else (f\<lparr>sc_pos := max (sc_pos f) (length (sc_bytes f))\<rparr>, Err EndOfFile))"

definition scratch_flush :: "'x scratch \<Rightarrow> 'x scratch \<times> ('x io_fault + unit)" where
  "scratch_flush f = (case next_fault f of (f, Some (_, e)) \<Rightarrow> (f, Err (Fault e)) | (f, None) \<Rightarrow> (f, Ok ()))"

subsection \<open>Stores\<close>

record disk_limits =
  dl_bytes :: nat
  dl_packets :: nat
  dl_additions :: nat

datatype staging_refusal = RefuseBytes | RefusePackets | RefuseAdditions | RefuseNotAtEnd | RefuseOverflow

datatype ('x, 'r) cause =
    Refused_by staging_refusal
  | FromStorage storage_error
  | FromIo "'x io_fault"
  | Stopped 'r
  | TryReserve

record staging_entry =
  en_metadata :: packet
  en_offset :: nat
  en_lengths :: "nat list"
  en_bytes :: nat

record 'x disk =
  dk_file :: "'x scratch"
  dk_limits :: disk_limits
  dk_replay :: budget
  dk_origin :: nat
  dk_entries :: "staging_entry list"

datatype 'x store = Memory budget "packet list" | Disk "'x disk"

record 'x staging =
  sg_store :: "'x store"
  sg_bytes :: nat

text \<open>What the allocator answers: one more slot of a queue of \<open>n\<close>, a vector of \<open>n\<close>, a capacity.\<close>

record memory =
  grows :: "nat \<Rightarrow> bool"
  room :: "nat \<Rightarrow> bool"
  capacity :: "nat \<Rightarrow> nat option"

definition staging_memory :: "budget \<Rightarrow> 'x staging" where
  "staging_memory b = \<lparr> sg_store = Memory b [], sg_bytes = 0 \<rparr>"

definition staging_disk :: "'x scratch \<Rightarrow> disk_limits \<Rightarrow> budget \<Rightarrow> ('x, 'r) cause + 'x staging" where
  "staging_disk f l b = (case scratch_position f of
     (f, Inl e) \<Rightarrow> Err (FromIo e)
   | (f, Inr origin) \<Rightarrow> (case scratch_seek_end f of
       (f, Inl e) \<Rightarrow> Err (FromIo e)
     | (f, Inr fin) \<Rightarrow>
         if origin \<noteq> fin then Err (Refused_by RefuseNotAtEnd)
         else Ok \<lparr> sg_store = Disk \<lparr> dk_file = f, dk_limits = l, dk_replay = b, dk_origin = origin, dk_entries = [] \<rparr>,
                sg_bytes = 0 \<rparr>))"

datatype staging_kind = KindMemory | KindDisk

record staging_facts =
  sf_kind :: staging_kind
  sf_payload_bytes :: nat
  sf_payload_limit :: nat

definition facts :: "'x staging \<Rightarrow> staging_facts" where
  "facts s = (case sg_store s of
     Memory b _ \<Rightarrow> \<lparr> sf_kind = KindMemory, sf_payload_bytes = sg_bytes s, sf_payload_limit = max_bytes b \<rparr>
   | Disk d \<Rightarrow> \<lparr> sf_kind = KindDisk, sf_payload_bytes = sg_bytes s, sf_payload_limit = dl_bytes (dk_limits d) \<rparr>)"

definition admitted_memory :: "'x staging \<Rightarrow> nat" where
  "admitted_memory s = (case sg_store s of Memory b _ \<Rightarrow> bytes b | Disk d \<Rightarrow> bytes (dk_replay d))"

subsection \<open>Pushing a packet\<close>

fun try_sum :: "nat \<Rightarrow> addition list \<Rightarrow> (staging_refusal + nat) option" where
  "try_sum n [] = Some (Ok n)"
| "try_sum n (a # as) = (case payload_len (add_payload a) of
     None \<Rightarrow> None
   | Some k \<Rightarrow> (case checked_add usize_max n k of None \<Rightarrow> Some (Err RefuseOverflow) | Some m \<Rightarrow> try_sum m as))"

definition chunk_len :: nat where "chunk_len = 65536"

fun chunks :: "byte list \<Rightarrow> byte list list" where
  "chunks [] = []"
| "chunks (b # bs) = take chunk_len (b # bs) # chunks (drop (chunk_len - 1) bs)"

fun write_chunks ::
    "byte list list \<Rightarrow> 'x scratch \<Rightarrow> 'r pulse \<Rightarrow> 'x scratch \<times> 'r pulse \<times> (('x, 'r) cause + unit)" where
  "write_chunks [] f ps = (f, ps, Ok ())"
| "write_chunks (c # cs) f ps = (case pulse_check ps of
     (ps, Inl r) \<Rightarrow> (f, ps, Err (Stopped r))
   | (ps, Inr _) \<Rightarrow> (case scratch_write_all c f of
       (f, Inl e) \<Rightarrow> (f, ps, Err (FromIo e))
     | (f, Inr _) \<Rightarrow> write_chunks cs f ps))"

definition spool :: "(nat list \<times> 'x scratch \<times> 'r pulse, ('x, 'r) cause) mapper" where
  "spool s x = (case s of (lens, f, ps) \<Rightarrow> (case as_bytes x of
     None \<Rightarrow> None
   | Some bs \<Rightarrow> (case write_chunks (chunks bs) f ps of
       (f, ps, Inl e) \<Rightarrow> Some ((lens @ [length bs], f, ps), Err e)
     | (f, ps, Inr _) \<Rightarrow> Some ((lens @ [length bs], f, ps), Ok (Owned [])))))"

type_synonym ('x, 'r, 'a) staging_result = "('x staging \<times> 'r pulse \<times> (('x, 'r) cause + 'a)) option"

definition push_memory :: "memory \<Rightarrow> budget \<Rightarrow> packet list \<Rightarrow> packet \<Rightarrow> ('x store \<times> (('x, 'r) cause + unit)) option" where
  "push_memory m b packets p =
     (if \<not> grows m (length packets) then Some (Memory b packets, Err TryReserve)
      else case accounted_copy (capacity m) b p of
        None \<Rightarrow> None
      | Some (b, Inl e) \<Rightarrow> Some (Memory b packets, Err (FromStorage e))
      | Some (b, Inr p) \<Rightarrow> Some (Memory b (packets @ [p]), Ok ()))"

definition push_disk ::
    "memory \<Rightarrow> 'x disk \<Rightarrow> nat \<Rightarrow> nat \<Rightarrow> nat \<Rightarrow> packet \<Rightarrow> 'r pulse
      \<Rightarrow> ('x store \<times> 'r pulse \<times> (('x, 'r) cause + unit)) option" where
  "push_disk m d before n grown p ps =
     (if grown > dl_bytes (dk_limits d) then Some (Disk d, ps, Err (Refused_by RefuseBytes))
      else if length (dk_entries d) \<ge> dl_packets (dk_limits d) then Some (Disk d, ps, Err (Refused_by RefusePackets))
      else if length (additions p) > dl_additions (dk_limits d)
      then Some (Disk d, ps, Err (Refused_by RefuseAdditions))
      else case checked_add u64_max (dk_origin d) before of
        None \<Rightarrow> Some (Disk d, ps, Err (Refused_by RefuseOverflow))
      | Some offset \<Rightarrow> (case checked_add u64_max (dk_origin d) grown of
          None \<Rightarrow> Some (Disk d, ps, Err (Refused_by RefuseOverflow))
        | Some _ \<Rightarrow>
            if \<not> grows m (length (dk_entries d)) then Some (Disk d, ps, Err TryReserve)
            else if \<not> room m (length (additions p) + 1) then Some (Disk d, ps, Err TryReserve)
            else case scratch_seek offset (dk_file d) of
              (f, Inl e) \<Rightarrow> Some (Disk (d\<lparr>dk_file := f\<rparr>), ps, Err (FromIo e))
            | (f, Inr _) \<Rightarrow> (case map_payloads spool ([], f, ps) p of
                None \<Rightarrow> None
              | Some ((lens, f, ps), Inl e) \<Rightarrow> Some (Disk (d\<lparr>dk_file := f\<rparr>), ps, Err e)
              | Some ((lens, f, ps), Inr metadata) \<Rightarrow>
                  Some (Disk (d\<lparr>dk_file := f, dk_entries := dk_entries d
                    @ [\<lparr> en_metadata = metadata, en_offset = offset, en_lengths = lens, en_bytes = n \<rparr>]\<rparr>),
                    ps, Ok ()))))"

definition staging_push :: "memory \<Rightarrow> packet \<Rightarrow> 'r pulse \<Rightarrow> 'x staging \<Rightarrow> ('x, 'r, unit) staging_result" where
  "staging_push m p ps s = (case pulse_check ps of
     (ps, Inl r) \<Rightarrow> Some (s, ps, Err (Stopped r))
   | (ps, Inr _) \<Rightarrow> (case Option.bind (packet_len p) (\<lambda>n. try_sum n (additions p)) of
       None \<Rightarrow> None
     | Some (Inl e) \<Rightarrow> Some (s, ps, Err (Refused_by e))
     | Some (Inr n) \<Rightarrow> (case checked_add u64_max (sg_bytes s) n of
         None \<Rightarrow> Some (s, ps, Err (Refused_by RefuseOverflow))
       | Some grown \<Rightarrow> (case (case sg_store s of
             Memory b packets \<Rightarrow> map_option (\<lambda>(st, r). (st, ps, r)) (push_memory m b packets p)
           | Disk d \<Rightarrow> push_disk m d (sg_bytes s) n grown p ps) of
           None \<Rightarrow> None
         | Some (st, ps, Inl e) \<Rightarrow> Some (s\<lparr>sg_store := st\<rparr>, ps, Err e)
         | Some (st, ps, Inr _) \<Rightarrow> (case pulse_check ps of
             (ps, r) \<Rightarrow> Some (\<lparr> sg_store = st, sg_bytes = grown \<rparr>, ps, map_sum Stopped id r))))))"

subsection \<open>Replaying\<close>

definition begin_replay :: "'r pulse \<Rightarrow> 'x staging \<Rightarrow> 'x staging \<times> 'r pulse \<times> (('x, 'r) cause + unit)" where
  "begin_replay ps s = (case pulse_check ps of
     (ps, Inl r) \<Rightarrow> (s, ps, Err (Stopped r))
   | (ps, Inr _) \<Rightarrow> (case sg_store s of
       Memory b packets \<Rightarrow> (case pulse_check ps of (ps, r) \<Rightarrow> (s, ps, map_sum Stopped id r))
     | Disk d \<Rightarrow> (case scratch_flush (dk_file d) of
         (f, Inl e) \<Rightarrow> (s\<lparr>sg_store := Disk (d\<lparr>dk_file := f\<rparr>)\<rparr>, ps, Err (FromIo e))
       | (f, Inr _) \<Rightarrow> (case pulse_check ps of
           (ps, r) \<Rightarrow> (s\<lparr>sg_store := Disk (d\<lparr>dk_file := f\<rparr>)\<rparr>, ps, map_sum Stopped id r)))))"

fun chunk_sizes :: "nat \<Rightarrow> nat list" where
  "chunk_sizes 0 = []"
| "chunk_sizes (Suc n) = min (Suc n) chunk_len # chunk_sizes (n - (chunk_len - 1))"

fun read_chunks ::
    "nat list \<Rightarrow> byte list \<Rightarrow> 'x scratch \<Rightarrow> 'r pulse \<Rightarrow> 'x scratch \<times> 'r pulse \<times> (('x, 'r) cause + byte list)" where
  "read_chunks [] got f ps = (f, ps, Ok got)"
| "read_chunks (n # ns) got f ps = (case pulse_check ps of
     (ps, Inl r) \<Rightarrow> (f, ps, Err (Stopped r))
   | (ps, Inr _) \<Rightarrow> (case scratch_read_exact n f of
       (f, Inl e) \<Rightarrow> (f, ps, Err (FromIo e))
     | (f, Inr bs) \<Rightarrow> read_chunks ns (got @ bs) f ps))"

definition read_entry ::
    "staging_entry \<Rightarrow> 'x scratch \<Rightarrow> 'r pulse \<Rightarrow> 'x scratch \<times> 'r pulse \<times> (('x, 'r) cause + byte list)" where
  "read_entry e f ps = (case scratch_seek (en_offset e) f of
     (f, Inl x) \<Rightarrow> (f, ps, Err (FromIo x))
   | (f, Inr _) \<Rightarrow> (case read_chunks (chunk_sizes (en_bytes e)) [] f ps of
       (f, ps, Inl x) \<Rightarrow> (f, ps, Err x)
     | (f, ps, Inr bs) \<Rightarrow> (case pulse_check ps of
         (ps, Inl r) \<Rightarrow> (f, ps, Err (Stopped r)) | (ps, Inr _) \<Rightarrow> (f, ps, Ok bs))))"

definition next_view :: "byte shared_storage \<Rightarrow> (nat list \<times> nat, ('x, 'r) cause) mapper" where
  "next_view v s x = (case s of
     ([], offset) \<Rightarrow> None
   | (n # lens, offset) \<Rightarrow> (case view_slice v offset (offset + n) of
       Inl e \<Rightarrow> Some ((lens, offset), Err (FromStorage e))
     | Inr w \<Rightarrow> Some ((lens, offset + n), Ok (Accounted w))))"

definition next_disk ::
    "memory \<Rightarrow> 'x disk \<Rightarrow> 'r pulse \<Rightarrow> ('x disk \<times> 'r pulse \<times> (('x, 'r) cause + packet option)) option" where
  "next_disk m d ps = (case dk_entries d of
     [] \<Rightarrow> Some (d, ps, Ok None)
   | e # es \<Rightarrow> (case budget_bytes (capacity m) (dk_replay d) (en_bytes e) of
       (b, Inl x) \<Rightarrow> Some (d\<lparr>dk_entries := es, dk_replay := b\<rparr>, ps, Err (FromStorage x))
     | (b, Inr (zeros, k)) \<Rightarrow> (case read_entry e (dk_file d) ps of
         (f, ps, Inl x) \<Rightarrow> Some (d\<lparr>dk_entries := es, dk_file := f, dk_replay := budget_drop b k\<rparr>, ps, Err x)
       | (f, ps, Inr bs) \<Rightarrow> (case map_payloads (next_view (freeze bs k)) (en_lengths e, 0) (en_metadata e) of
           None \<Rightarrow> None
         | Some (_, Inl x) \<Rightarrow> Some (d\<lparr>dk_entries := es, dk_file := f, dk_replay := budget_drop b k\<rparr>, ps, Err x)
         | Some (_, Inr p) \<Rightarrow>
             Some (d\<lparr>dk_entries := es, dk_file := f,
                     dk_replay := (if en_lengths e = [] then budget_drop b k else b)\<rparr>, ps, Ok (Some p))))))"

definition staging_next :: "memory \<Rightarrow> 'r pulse \<Rightarrow> 'x staging \<Rightarrow> ('x, 'r, packet option) staging_result" where
  "staging_next m ps s = (case pulse_check ps of
     (ps, Inl r) \<Rightarrow> Some (s, ps, Err (Stopped r))
   | (ps, Inr _) \<Rightarrow> (case sg_store s of
       Memory b [] \<Rightarrow> Some (s, ps, Ok None)
     | Memory b (p # packets) \<Rightarrow> Some (s\<lparr>sg_store := Memory b packets\<rparr>, ps, Ok (Some p))
     | Disk d \<Rightarrow> map_option (\<lambda>(d, ps, r). (s\<lparr>sg_store := Disk d\<rparr>, ps, r)) (next_disk m d ps)))"

subsection \<open>Writing and reading in chunks\<close>

lemma take_chunk: "take chunk_len (b # bs) = b # take (chunk_len - 1) bs"
  by (cases chunk_len) (simp_all add: chunk_len_def)

lemma concat_chunks: "concat (chunks bs) = bs"
  by (induction bs rule: chunks.induct) (simp_all add: take_chunk)

lemma overwrite_append:
  "pos \<le> length f \<Longrightarrow> overwrite (pos + length a) b (overwrite pos a f) = overwrite pos (a @ b) f"
  by (simp add: overwrite_def add.commute add.left_commute)

lemma overwrite_keeps:
  assumes "pos \<le> length f"
  shows "n \<le> pos \<Longrightarrow> take n (overwrite pos a f) = take n f"
    and "take (length a) (drop pos (overwrite pos a f)) = a"
    and "length (overwrite pos a f) = max (length f) (pos + length a)"
    and "overwrite pos [] f = f"
  using assms by (auto simp: overwrite_def min_def)

text \<open>What a run of writes leaves: some prefix of the data, written from the position on.\<close>

definition wrote :: "byte list \<Rightarrow> 'x scratch \<Rightarrow> 'x scratch \<Rightarrow> bool \<Rightarrow> bool" where
  "wrote bs f f' whole \<longleftrightarrow> (\<exists>k. sc_bytes f' = overwrite (sc_pos f) (take k bs) (sc_bytes f)
     \<and> sc_pos f' = sc_pos f + length (take k bs) \<and> (whole \<longrightarrow> length bs \<le> k))"

lemma wrote_none: "sc_pos f \<le> length (sc_bytes f) \<Longrightarrow> wrote bs f f (bs = [])"
  unfolding wrote_def by (rule exI[of _ 0]) (simp add: overwrite_keeps)

lemma wrote_pos: "sc_pos f \<le> length (sc_bytes f) \<Longrightarrow> wrote bs f f' whole \<Longrightarrow> sc_pos f' \<le> length (sc_bytes f')"
  by (auto simp: wrote_def overwrite_keeps)

lemma wrote_append:
  assumes "sc_pos f \<le> length (sc_bytes f)" "wrote a f f1 True" "wrote b f1 f2 whole"
  shows "wrote (a @ b) f f2 whole"
proof -
  obtain j where "sc_bytes f1 = overwrite (sc_pos f) a (sc_bytes f)" "sc_pos f1 = sc_pos f + length a"
    using assms(2) by (auto simp: wrote_def)
  moreover obtain k where "sc_bytes f2 = overwrite (sc_pos f1) (take k b) (sc_bytes f1)"
    "sc_pos f2 = sc_pos f1 + length (take k b)" "whole \<longrightarrow> length b \<le> k"
    using assms(3) by (auto simp: wrote_def)
  ultimately show ?thesis
    using assms(1) unfolding wrote_def
    by (intro exI[of _ "length a + k"]) (auto simp: overwrite_append)
qed

lemma wrote_part:
  assumes "wrote a f f' False"
  shows "wrote (a @ b) f f' False"
proof -
  obtain k where "sc_bytes f' = overwrite (sc_pos f) (take k a) (sc_bytes f)" "sc_pos f' = sc_pos f + length (take k a)"
    using assms by (auto simp: wrote_def)
  then show ?thesis unfolding wrote_def by (intro exI[of _ "min k (length a)"]) (simp add: min_def)
qed

text \<open>Every fault and every pulse leaves a prefix written.\<close>

lemma next_fault_same [simp]:
  "next_fault f = (f', x) \<Longrightarrow> sc_bytes f' = sc_bytes f \<and> sc_pos f' = sc_pos f"
  by (auto simp: next_fault_def split: list.splits)

lemma scratch_write_all_wrote:
  "scratch_write_all bs f = (f', r) \<Longrightarrow> wrote bs f f' (r = Ok ())"
  by (auto simp: scratch_write_all_def wrote_def split: prod.splits option.splits
      dest!: next_fault_same intro: exI[of _ "length bs"])

lemma write_chunks_wrote:
  assumes "sc_pos f \<le> length (sc_bytes f)" "write_chunks cs f ps = (f', ps', r)"
  shows "wrote (concat cs) f f' (r = Ok ())"
  using assms
proof (induction cs f ps rule: write_chunks.induct)
  case (1 f ps)
  then show ?case using wrote_none[of f "[]"] by simp
next
  case (2 c cs f ps)
  obtain ps1 x where p: "pulse_check ps = (ps1, x)" by fastforce
  show ?case
  proof (cases x)
    case (Inl e)
    then show ?thesis using 2 p wrote_none[OF 2(2), of "[]"] wrote_part[of "[]" f f "concat (c # cs)"]
      by (auto simp: wrote_def)
  next
    case (Inr u)
    obtain f1 r1 where w: "scratch_write_all c f = (f1, r1)" by fastforce
    note one = scratch_write_all_wrote[OF w]
    show ?thesis
    proof (cases r1)
      case (Inl e)
      then show ?thesis using 2 p Inr w one wrote_part[of c f f1 "concat cs"] by auto
    next
      case ok: (Inr v)
      then have rest: "write_chunks cs f1 ps1 = (f', ps', r)" using 2 p Inr w by simp
      have "sc_pos f1 \<le> length (sc_bytes f1)" using wrote_pos[OF 2(2) one] .
      from 2(1)[OF p[symmetric] Inr w[symmetric] ok this rest] show ?thesis
        using wrote_append[OF 2(2), of c f1] one ok by simp
    qed
  qed
qed

lemma spool_applied:
  "spool (lens, f, ps) x = (case as_bytes x of
     None \<Rightarrow> None
   | Some bs \<Rightarrow> (case write_chunks (chunks bs) f ps of
       (f, ps, Inl e) \<Rightarrow> Some ((lens @ [length bs], f, ps), Err e)
     | (f, ps, Inr _) \<Rightarrow> Some ((lens @ [length bs], f, ps), Ok (Owned []))))"
  by (simp add: spool_def)

lemma spool_list:
  assumes "\<forall>x \<in> set xs. as_bytes x \<noteq> None" "sc_pos f \<le> length (sc_bytes f)"
  shows "\<exists>lens' f' ps' r. map_list spool (lens, f, ps) xs = Some ((lens', f', ps'), r)
    \<and> wrote (concat (map (the \<circ> as_bytes) xs)) f f' (is_ok r)
    \<and> (\<forall>ys. r = Ok ys \<longrightarrow> ys = replicate (length xs) (Owned []) \<and> lens' = lens @ map (length \<circ> the \<circ> as_bytes) xs)"
  using assms
proof (induction xs arbitrary: lens f ps)
  case Nil
  then show ?case using wrote_none[of f "[]"] by simp
next
  case (Cons x xs)
  obtain bs where bs: "as_bytes x = Some bs" using Cons.prems(1) by auto
  obtain f1 ps1 r1 where w: "write_chunks (chunks bs) f ps = (f1, ps1, r1)" by (metis prod_cases3)
  have one: "wrote bs f f1 (r1 = Ok ())"
    using write_chunks_wrote[OF Cons.prems(2) w] by (simp add: concat_chunks)
  show ?case
  proof (cases r1)
    case (Inl e)
    then have "wrote (bs @ concat (map (the \<circ> as_bytes) xs)) f f1 False" using one Inl wrote_part[of bs f f1] by simp
    then show ?thesis using Inl bs w by (simp add: spool_applied comp_def)
  next
    case (Inr u)
    have "sc_pos f1 \<le> length (sc_bytes f1)" using wrote_pos[OF Cons.prems(2) one] .
    with Cons.IH[of f1 "lens @ [length bs]" ps1] Cons.prems(1)
    obtain lens' f' ps' r where rest: "map_list spool (lens @ [length bs], f1, ps1) xs = Some ((lens', f', ps'), r)"
      "wrote (concat (map (the \<circ> as_bytes) xs)) f1 f' (is_ok r)"
      "\<forall>ys. r = Ok ys \<longrightarrow> ys = replicate (length xs) (Owned [])
         \<and> lens' = (lens @ [length bs]) @ map (length \<circ> the \<circ> as_bytes) xs"
      by (auto simp: comp_def)
    have "wrote (bs @ concat (map (the \<circ> as_bytes) xs)) f f' (is_ok r)"
      using wrote_append[OF Cons.prems(2) _ rest(2), of bs] one Inr by simp
    then show ?thesis using bs w Inr rest by (cases r) (auto simp: spool_applied comp_def)
  qed
qed

lemma sum_chunk_sizes: "sum_list (chunk_sizes n) = n"
  by (induction n rule: chunk_sizes.induct) (auto simp: chunk_len_def)

lemma read_chunks_reads:
  assumes "read_chunks ns got f ps = (f', ps', r)"
  shows "sc_bytes f' = sc_bytes f"
    and "r = Ok bs \<Longrightarrow> bs = got @ take (sum_list ns) (drop (sc_pos f) (sc_bytes f))
      \<and> (sc_pos f \<le> length (sc_bytes f) \<longrightarrow> sc_pos f + sum_list ns \<le> length (sc_bytes f))"
proof -
  have "sc_bytes f' = sc_bytes f \<and> (\<forall>bs. r = Ok bs \<longrightarrow> bs = got @ take (sum_list ns) (drop (sc_pos f) (sc_bytes f))
      \<and> (sc_pos f \<le> length (sc_bytes f) \<longrightarrow> sc_pos f + sum_list ns \<le> length (sc_bytes f)))"
    using assms
  proof (induction ns got f ps rule: read_chunks.induct)
    case (2 n ns got f ps)
    obtain ps1 x where p: "pulse_check ps = (ps1, x)" by fastforce
    obtain f1 y where rd: "scratch_read_exact n f = (f1, y)" by fastforce
    have same: "sc_bytes f1 = sc_bytes f"
      using rd by (auto simp: scratch_read_exact_def split: prod.splits option.splits if_splits dest!: next_fault_same)
    have got: "c = take n (drop (sc_pos f) (sc_bytes f)) \<and> sc_pos f1 = sc_pos f + n \<and> sc_pos f + n \<le> length (sc_bytes f)"
      if "y = Ok c" for c
      using rd that
      by (auto simp: scratch_read_exact_def split: prod.splits option.splits if_splits dest!: next_fault_same)
    show ?case
    proof (cases x)
      case (Inl e)
      then show ?thesis using 2 p by auto
    next
      case Inr: (Inr u)
      show ?thesis
      proof (cases y)
        case (Inl e)
        then show ?thesis using 2 p Inr rd same by auto
      next
        case (Inr c)
        then show ?thesis
          using 2(1)[OF p[symmetric] \<open>x = Ok u\<close> rd[symmetric] Inr] 2(2) p \<open>x = Ok u\<close> rd same got[OF Inr]
          by (auto simp: take_add add.commute add.left_commute)
      qed
    qed
  qed auto
  then show "sc_bytes f' = sc_bytes f"
    and "r = Ok bs \<Longrightarrow> bs = got @ take (sum_list ns) (drop (sc_pos f) (sc_bytes f))
      \<and> (sc_pos f \<le> length (sc_bytes f) \<longrightarrow> sc_pos f + sum_list ns \<le> length (sc_bytes f))"
    by blast+
qed

fun cut :: "nat list \<Rightarrow> 'a list \<Rightarrow> 'a list list" where
  "cut [] xs = []"
| "cut (n # ns) xs = take n xs # cut ns (drop n xs)"

lemma cut_concat: "cut (map length xss) (concat xss) = xss"
  by (induction xss) auto

lemma next_view_Cons:
  "next_view v (n # lens, offset) x = (case view_slice v offset (offset + n) of
      Inl e \<Rightarrow> Some ((lens, offset), Err (FromStorage e))
    | Inr w \<Rightarrow> Some ((lens, offset + n), Ok (Accounted w)))"
  by (simp add: next_view_def)

lemma next_view_list:
  assumes "length lens = length xs" "offset + sum_list lens \<le> length bs"
  shows "\<exists>ys. map_list (next_view (freeze bs k) :: (nat list \<times> nat, ('x, 'r) cause) mapper) (lens, offset) xs = Some (([], offset + sum_list lens), Ok ys)
    \<and> map as_bytes ys = map Some (cut lens (drop offset bs)) \<and> length ys = length xs"
  using assms
proof (induction xs arbitrary: lens offset)
  case (Cons x xs)
  then obtain n ns where lens: "lens = n # ns" "length ns = length xs" by (cases lens) auto
  have all: "as_slice (freeze bs k) = Some bs" by (simp add: freeze_def as_slice_def view_len_def)
  have fits: "offset + n \<le> length bs" using Cons.prems(2) lens by simp
  then obtain w where w: "view_slice (freeze bs k) offset (offset + n) = Ok w"
    by (simp add: view_slice_def freeze_def view_len_def)
  have "as_slice w = Some (take n (drop offset bs))"
    using view_slice_as_slice[OF all w] by (simp add: sublist_def)
  moreover obtain ys where "map_list (next_view (freeze bs k) :: (nat list \<times> nat, ('x, 'r) cause) mapper) (ns, offset + n) xs
      = Some (([], offset + n + sum_list ns), Ok ys)"
    "map as_bytes ys = map Some (cut ns (drop (offset + n) bs))" "length ys = length xs"
    using Cons.IH[of ns "offset + n"] Cons.prems(2) lens by auto
  ultimately show ?case using lens w by (simp add: next_view_Cons add.assoc add.commute[of n])
qed simp

subsection \<open>What a store keeps\<close>

lemma settled_simps:
  "payloads (settled p) = map Owned (pieces p)" "pieces (settled p) = pieces p" "settled (settled p) = settled p"
  "length xs = length (payloads p) \<Longrightarrow> with_payloads xs (settled p) = with_payloads xs p"
proof -
  show 1: "payloads (settled p) = map Owned (pieces p)"
    by (simp add: settled_def payloads_with pieces_def)
  then show 2: "pieces (settled p) = pieces p" by (simp add: pieces_def[of "settled p"] comp_def)
  show w: "length xs = length (payloads p) \<Longrightarrow> with_payloads xs (settled p) = with_payloads xs p" for xs
    by (simp add: settled_def with_with pieces_def)
  show "settled (settled p) = settled p"
    unfolding settled_def[of "settled p"] 2 by (simp add: w pieces_def) (simp add: settled_def pieces_def)
qed

definition packet_size :: "packet \<Rightarrow> nat" where
  "packet_size p = sum_list (map length (pieces p))"

definition entry_holds :: "byte list \<Rightarrow> packet \<Rightarrow> staging_entry \<Rightarrow> bool" where
  "entry_holds f v e \<longleftrightarrow> en_metadata e = with_payloads (replicate (length (payloads v)) (Owned [])) v
     \<and> en_lengths e = map length (pieces v) \<and> en_bytes e = packet_size v
     \<and> take (en_bytes e) (drop (en_offset e) f) = concat (pieces v)
     \<and> en_offset e + en_bytes e \<le> length f \<and> settled v = v"

definition disk_holds :: "packet list \<Rightarrow> 'x disk \<Rightarrow> nat \<Rightarrow> bool" where
  "disk_holds q d n \<longleftrightarrow> list_all2 (entry_holds (sc_bytes (dk_file d))) q (dk_entries d)
     \<and> within_budget (dk_replay d) \<and> dk_origin d + n \<le> length (sc_bytes (dk_file d))
     \<and> (\<forall>e \<in> set (dk_entries d). en_offset e + en_bytes e \<le> dk_origin d + n)"

definition store_holds :: "packet list \<Rightarrow> 'x staging \<Rightarrow> bool" where
  "store_holds q s \<longleftrightarrow> (case sg_store s of
     Memory b ps \<Rightarrow> map settled ps = q \<and> (\<forall>p \<in> set ps. readable p) \<and> within_budget b
   | Disk d \<Rightarrow> disk_holds q d (sg_bytes s))"

definition queued :: "'x staging \<Rightarrow> nat" where
  "queued s = (case sg_store s of Memory _ ps \<Rightarrow> length ps | Disk d \<Rightarrow> length (dk_entries d))"

lemma queued_length: "store_holds q s \<Longrightarrow> queued s = length q"
  by (auto simp: store_holds_def queued_def disk_holds_def list_all2_lengthD split: store.splits)

lemma sum_pieces: "sum_list (map length xss) = length (concat xss)"
  by (simp add: length_concat)

lemma try_sum_exact:
  "\<forall>a \<in> set as. as_bytes (add_payload a) \<noteq> None \<Longrightarrow> \<exists>r. try_sum n as = Some r
    \<and> (\<forall>k. r = Ok k \<longrightarrow> k = n + sum_list (map (length \<circ> the \<circ> as_bytes \<circ> add_payload) as))"
proof (induction as arbitrary: n)
  case (Cons a as)
  then obtain y where y: "as_bytes (add_payload a) = Some y" by auto
  from Cons.IH[of "n + length y"] Cons.prems obtain r where "try_sum (n + length y) as = Some r"
    "\<forall>k. r = Ok k \<longrightarrow> k = n + length y + sum_list (map (length \<circ> the \<circ> as_bytes \<circ> add_payload) as)" by (auto simp: comp_def)
  then show ?case using y by (auto simp: payload_len_def comp_def split: option.splits)
qed simp

lemma measured:
  assumes "readable p"
  shows "\<exists>r. Option.bind (packet_len p) (\<lambda>n. try_sum n (additions p)) = Some r \<and> (\<forall>k. r = Ok k \<longrightarrow> k = packet_size p)"
proof -
  have "\<exists>n. packet_len p = Some n \<and> (\<forall>k. k = n + sum_list (map (length \<circ> the \<circ> as_bytes \<circ> add_payload) (additions p))
      \<longrightarrow> k = packet_size p)"
    using assms
    by (cases "payload_of p") (auto simp: packet_len_def packet_bytes_def packet_size_def pieces_def payloads_def
        readable_def comp_def)
  moreover have "\<forall>a \<in> set (additions p). as_bytes (add_payload a) \<noteq> None"
    using assms by (auto simp: readable_def payloads_def)
  ultimately show ?thesis using try_sum_exact by fastforce
qed

lemma overwrite_before:
  assumes "offset + n \<le> pos" "pos \<le> length f"
  shows "take n (drop offset (overwrite pos a f)) = take n (drop offset f)"
proof -
  have "take n (drop offset g) = drop offset (take (offset + n) g)" for g :: "byte list"
    by (simp add: drop_take)
  then show ?thesis using overwrite_keeps(1)[OF assms(2,1), of a] by simp
qed

text \<open>A write at the end of what is staged keeps every entry and the bytes before the origin.\<close>

lemma disk_wrote:
  assumes "disk_holds q d n" "sc_pos f = dk_origin d + n" "sc_bytes f = sc_bytes (dk_file d)" "wrote bs f f' whole"
  shows "disk_holds q (d\<lparr>dk_file := f'\<rparr>) n"
    and "take (dk_origin d) (sc_bytes f') = take (dk_origin d) (sc_bytes (dk_file d))"
    and "length (sc_bytes f') \<le> max (length (sc_bytes (dk_file d))) (dk_origin d + n + length bs)"
proof -
  obtain a where a: "sc_bytes f' = overwrite (dk_origin d + n) a (sc_bytes (dk_file d))" "length a \<le> length bs"
    using assms(2-4) by (auto simp: wrote_def)
  have pos: "dk_origin d + n \<le> length (sc_bytes (dk_file d))" using assms(1) by (simp add: disk_holds_def)
  note keeps = overwrite_keeps[OF pos]
  have "entry_holds (sc_bytes f') v e" if "entry_holds (sc_bytes (dk_file d)) v e" "e \<in> set (dk_entries d)" for v e
    using that assms(1) overwrite_before[OF _ pos, of "en_offset e" "en_bytes e" a] a keeps(3)[of a]
    by (auto simp: entry_holds_def disk_holds_def)
  then have "list_all2 (entry_holds (sc_bytes f')) q (dk_entries d)"
    using assms(1) by (auto simp: disk_holds_def list_all2_conv_all_nth)
  then show "disk_holds q (d\<lparr>dk_file := f'\<rparr>) n"
    using assms(1) a keeps(3)[of a] by (auto simp: disk_holds_def)
  show "take (dk_origin d) (sc_bytes f') = take (dk_origin d) (sc_bytes (dk_file d))"
    using keeps(1)[of "dk_origin d" a] a by simp
  show "length (sc_bytes f') \<le> max (length (sc_bytes (dk_file d))) (dk_origin d + n + length bs)"
    using keeps(3)[of a] a by simp
qed

definition disk_kept :: "'x disk \<Rightarrow> 'x disk \<Rightarrow> bool" where
  "disk_kept d d' \<longleftrightarrow> dk_origin d' = dk_origin d \<and> dk_limits d' = dk_limits d
     \<and> take (dk_origin d) (sc_bytes (dk_file d')) = take (dk_origin d) (sc_bytes (dk_file d))
     \<and> length (sc_bytes (dk_file d')) \<le> max (length (sc_bytes (dk_file d))) (dk_origin d + dl_bytes (dk_limits d))"

lemma disk_kept_refl [simp]: "disk_kept d d"
  by (simp add: disk_kept_def)

lemma scratch_seek_same:
  "scratch_seek n f = (f', r) \<Longrightarrow> sc_bytes f' = sc_bytes f \<and> (r = Ok k \<longrightarrow> sc_pos f' = n \<and> k = n)"
  by (auto simp: scratch_seek_def split: prod.splits option.splits dest!: next_fault_same)

lemma write_chunks_not_refused: "write_chunks cs f ps = (f', ps', Err e) \<Longrightarrow> e \<noteq> Refused_by x"
  by (induction cs f ps rule: write_chunks.induct) (auto split: prod.splits sum.splits)

lemma spool_not_refused: "map_list spool st xs = Some (st', Err e) \<Longrightarrow> e \<noteq> Refused_by x"
  by (induction xs arbitrary: st)
    (auto simp: spool_def split: option.splits sum.splits prod.splits dest: write_chunks_not_refused)

lemma push_disk_ok:
  assumes holds: "disk_holds q d before" and p: "readable p" and n: "n = packet_size p"
  shows "\<exists>d' ps' r. (push_disk m d before n (before + n) p ps
      :: ('x store \<times> 'r pulse \<times> (('x, 'r) cause + unit)) option) = Some (Disk d', ps', r)
    \<and> disk_kept d d' \<and> (\<forall>e. r = Err (Refused_by e) \<longrightarrow> d' = d)
    \<and> (if r = Ok () then disk_holds (q @ [settled p]) d' (before + n) \<and> length (dk_entries d') = Suc (length (dk_entries d))
         \<and> before + n \<le> dl_bytes (dk_limits d) \<and> length (dk_entries d) < dl_packets (dk_limits d)
       else disk_holds q d' before)"
proof (cases "before + n > dl_bytes (dk_limits d) \<or> length (dk_entries d) \<ge> dl_packets (dk_limits d)
    \<or> length (additions p) > dl_additions (dk_limits d) \<or> dk_origin d + (before + n) > u64_max
    \<or> \<not> grows m (length (dk_entries d)) \<or> \<not> room m (length (additions p) + 1)")
  case True
  then have "\<exists>e. (push_disk m d before n (before + n) p ps
      :: ('x store \<times> 'r pulse \<times> (('x, 'r) cause + unit)) option) = Some (Disk d, ps, Err e)"
    by (auto simp: push_disk_def checked_add_def)
  then obtain e where "(push_disk m d before n (before + n) p ps
      :: ('x store \<times> 'r pulse \<times> (('x, 'r) cause + unit)) option) = Some (Disk d, ps, Err e)" by blast
  then show ?thesis using holds by (intro exI[of _ d] exI[of _ ps] exI[of _ "Err e"]) simp
next
  case go: False
  obtain f r1 where seek: "scratch_seek (dk_origin d + before) (dk_file d) = (f, r1)" by fastforce
  have goes: "(push_disk m d before n (before + n) p ps
      :: ('x store \<times> 'r pulse \<times> (('x, 'r) cause + unit)) option) = (case r1 of
        Inl e \<Rightarrow> Some (Disk (d\<lparr>dk_file := f\<rparr>), ps, Err (FromIo e))
      | Inr _ \<Rightarrow> (case map_payloads spool ([], f, ps) p of
          None \<Rightarrow> None
        | Some ((lens, f, ps), Inl e) \<Rightarrow> Some (Disk (d\<lparr>dk_file := f\<rparr>), ps, Err e)
        | Some ((lens, f, ps), Inr metadata) \<Rightarrow>
            Some (Disk (d\<lparr>dk_file := f, dk_entries := dk_entries d @ [\<lparr> en_metadata = metadata,
              en_offset = dk_origin d + before, en_lengths = lens, en_bytes = n \<rparr>]\<rparr>), ps, Ok ())))"
    using go seek by (simp add: push_disk_def checked_add_def not_le not_less)
  have bytes: "sc_bytes f = sc_bytes (dk_file d)" using scratch_seek_same[OF seek] by blast
  show ?thesis
  proof (cases r1)
    case (Inl e)
    then have "push_disk m d before n (before + n) p ps = Some (Disk (d\<lparr>dk_file := f\<rparr>), ps, Err (FromIo e))"
      by (simp add: goes)
    moreover have "disk_holds q (d\<lparr>dk_file := f\<rparr>) before" using holds bytes by (simp add: disk_holds_def)
    ultimately show ?thesis using bytes by (auto simp: disk_kept_def)
  next
    case (Inr k)
    then have pos: "sc_pos f = dk_origin d + before" using scratch_seek_same[OF seek, of k] by simp
    have "sc_pos f \<le> length (sc_bytes f)" using holds pos bytes by (simp add: disk_holds_def)
    with spool_list[of "payloads p" f "[]" ps] p obtain lens f' ps' and r :: "('x, 'r) cause + payload list" where
      run: "map_list spool ([], f, ps) (payloads p) = Some ((lens, f', ps'), r)"
      and w: "wrote (concat (pieces p)) f f' (is_ok r)"
      and ok: "\<And>ys. r = Ok ys \<Longrightarrow> ys = replicate (length (payloads p)) (Owned [])
         \<and> lens = map (length \<circ> the \<circ> as_bytes) (payloads p)"
      by (auto simp: readable_def pieces_def)
    note kept = disk_wrote[OF holds pos bytes w]
    have size: "length (concat (pieces p)) = n" by (simp add: n packet_size_def sum_pieces)
    have disk: "disk_kept d (d\<lparr>dk_file := f', dk_entries := es\<rparr>)" for es
      using kept(2,3) go size by (auto simp: disk_kept_def)
    show ?thesis
    proof (cases r)
      case fail: (Inl e)
      have "e \<noteq> Refused_by x" for x
        using spool_not_refused run fail by blast
      then show ?thesis using goes Inr run fail kept(1) disk[of "dk_entries d"]
        by (auto simp: map_payloads_list)
    next
      case fin: (Inr ys)
      let ?e = "\<lparr> en_metadata = with_payloads ys p, en_offset = dk_origin d + before, en_lengths = lens, en_bytes = n \<rparr>"
      let ?d = "d\<lparr>dk_file := f', dk_entries := dk_entries d @ [?e]\<rparr>"
      have res: "push_disk m d before n (before + n) p ps = Some (Disk ?d, ps', Ok ())"
        using goes Inr run fin by (simp add: map_payloads_list)
      have f': "sc_bytes f' = overwrite (dk_origin d + before) (concat (pieces p)) (sc_bytes (dk_file d))"
        using w fin pos bytes by (auto simp: wrote_def)
      have at: "dk_origin d + before \<le> length (sc_bytes (dk_file d))" using holds by (simp add: disk_holds_def)
      note keeps = overwrite_keeps(2,3)[OF at, of "concat (pieces p)", folded f', unfolded size]
      have "entry_holds (sc_bytes f') (settled p) ?e"
        using ok[OF fin] keeps by (simp add: entry_holds_def settled_simps pieces_def n packet_size_def comp_def)
      then have "disk_holds (q @ [settled p]) ?d (before + n)"
        using kept(1) keeps(2) by (auto simp: disk_holds_def intro!: list_all2_appendI)
      then show ?thesis using res disk go by auto
    qed
  qed
qed

fun store_kept :: "'x store \<Rightarrow> 'x store \<Rightarrow> bool" where
  "store_kept (Memory _ _) st \<longleftrightarrow> (\<exists>b ps. st = Memory b ps)"
| "store_kept (Disk d) st \<longleftrightarrow> (\<exists>d'. st = Disk d' \<and> disk_kept d d')"

lemma copy_in_total: "\<forall>x \<in> set xs. as_bytes x \<noteq> None \<Longrightarrow> map_list (copy_in cap) s xs \<noteq> None"
proof (induction xs arbitrary: s)
  case (Cons x xs)
  have "copy_in cap s x \<noteq> None"
    using Cons.prems by (auto simp: copy_in_def split: prod.splits sum.splits)
  then obtain s1 r1 where one: "copy_in cap s x = Some (s1, r1)" by fastforce
  have "map_list (copy_in cap) s1 xs \<noteq> None" using Cons by simp
  then show ?case using one by (cases r1) (auto split: option.splits sum.splits)
qed simp

lemma push_memory_ok:
  assumes "within_budget b" "\<forall>p \<in> set packets. readable p" "readable p"
  shows "\<exists>b' packets' r. (push_memory m b packets p :: ('x store \<times> (('x, 'r) cause + unit)) option)
      = Some (Memory b' packets', r) \<and> within_budget b' \<and> (\<forall>e. r = Err (Refused_by e) \<longrightarrow> b' = b)
    \<and> (if r = Ok () then map settled packets' = map settled packets @ [settled p] \<and> (\<forall>p \<in> set packets'. readable p)
       else packets' = packets)"
proof -
  have "map_list (copy_in cap) s xs \<noteq> None" if "\<forall>x \<in> set xs. as_bytes x \<noteq> None" for cap s xs
    using that copy_in_total by blast
  then obtain b' r' where copy: "accounted_copy (capacity m) b p = Some (b', r')"
    using assms(3) by (fastforce simp: accounted_copy_def map_payloads_list readable_def split: option.splits
        sum.splits prod.splits)
  from accounted_copy_ok[OF assms(1) copy] show ?thesis
    using assms copy by (cases r') (auto simp: push_memory_def)
qed

lemma staging_push_ok:
  fixes s :: "'x staging" and ps :: "'r pulse"
  assumes holds: "store_holds q s" and p: "readable p"
  shows "\<exists>s' ps' r. staging_push m p ps s = Some (s', ps', r) \<and> store_kept (sg_store s) (sg_store s')
    \<and> (\<forall>e. r = Err (Refused_by e) \<longrightarrow> s' = s)
    \<and> (if r = Ok () then store_holds (q @ [settled p]) s'
       else store_holds q s' \<and> sg_bytes s' = sg_bytes s
         \<or> (\<exists>x. r = Err (Stopped x)) \<and> store_holds (q @ [settled p]) s')
    \<and> (store_holds (q @ [settled p]) s' \<longrightarrow> (\<forall>d. sg_store s = Disk d \<longrightarrow>
         sg_bytes s' \<le> dl_bytes (dk_limits d) \<and> queued s' \<le> dl_packets (dk_limits d)))"
proof -
  have kept_refl: "store_kept st st" for st :: "'x store" by (cases st) auto
  have not_both: "\<not> store_holds (q @ [settled p]) t" if "store_holds q t" for t :: "'x staging"
    using queued_length[OF that] queued_length[of "q @ [settled p]" t] by auto
  obtain ps1 c where check: "pulse_check ps = (ps1, c)" by fastforce
  obtain size where size: "Option.bind (packet_len p) (\<lambda>n. try_sum n (additions p)) = Some size"
    "\<And>k. size = Ok k \<Longrightarrow> k = packet_size p" using measured[OF p] by blast
  consider (stop) x where "c = Err x" | (early) e where "c = Ok ()" "size = Err e"
    | (over) "c = Ok ()" "size = Ok (packet_size p)" "u64_max < sg_bytes s + packet_size p"
    | (go) "c = Ok ()" "size = Ok (packet_size p)" "sg_bytes s + packet_size p \<le> u64_max"
    using size(2) by (cases c; cases size) force+
  then show ?thesis
  proof cases
    case go
    let ?grown = "sg_bytes s + packet_size p"
    have add: "checked_add u64_max (sg_bytes s) (packet_size p) = Some ?grown" using go by simp
    obtain st ps2 r where put: "(case sg_store s of
        Memory b packets \<Rightarrow> map_option (\<lambda>(st, r). (st, ps1, r)) (push_memory m b packets p)
      | Disk d \<Rightarrow> push_disk m d (sg_bytes s) (packet_size p) ?grown p ps1) = Some (st, ps2, r :: ('x, 'r) cause + unit)"
      and kept: "store_kept (sg_store s) st" and refused: "\<And>e. r = Err (Refused_by e) \<Longrightarrow> st = sg_store s"
      and fails: "r \<noteq> Ok () \<Longrightarrow> store_holds q (s\<lparr>sg_store := st\<rparr>)"
      and puts: "r = Ok () \<Longrightarrow> store_holds (q @ [settled p]) \<lparr> sg_store = st, sg_bytes = ?grown \<rparr>
        \<and> (\<forall>d. sg_store s = Disk d \<longrightarrow> ?grown \<le> dl_bytes (dk_limits d)
            \<and> queued \<lparr> sg_store = st, sg_bytes = ?grown \<rparr> \<le> dl_packets (dk_limits d))"
    proof (cases "sg_store s")
      case (Memory b packets)
      then have b: "within_budget b" "\<forall>p \<in> set packets. readable p" "map settled packets = q"
        using holds by (auto simp: store_holds_def)
      obtain b' packets' r where "(push_memory m b packets p :: ('x store \<times> (('x, 'r) cause + unit)) option)
          = Some (Memory b' packets', r)" "within_budget b'" "\<forall>e. r = Err (Refused_by e) \<longrightarrow> b' = b"
        "if r = Ok () then map settled packets' = map settled packets @ [settled p] \<and> (\<forall>p \<in> set packets'. readable p)
         else packets' = packets"
        using push_memory_ok[OF b(1,2) p, of m] by blast
      then show ?thesis
        using that[of "Memory b' packets'" ps1 r] Memory b by (auto simp: store_holds_def split: if_splits)
    next
      case (Disk d)
      then have "disk_holds q d (sg_bytes s)" using holds by (simp add: store_holds_def)
      from push_disk_ok[OF this p refl, of m ps1] obtain d' ps' r where
        "(push_disk m d (sg_bytes s) (packet_size p) ?grown p ps1
          :: ('x store \<times> 'r pulse \<times> (('x, 'r) cause + unit)) option) = Some (Disk d', ps', r)"
        "disk_kept d d'" "\<forall>e. r = Err (Refused_by e) \<longrightarrow> d' = d"
        "if r = Ok () then disk_holds (q @ [settled p]) d' ?grown \<and> length (dk_entries d') = Suc (length (dk_entries d))
         \<and> ?grown \<le> dl_bytes (dk_limits d) \<and> length (dk_entries d) < dl_packets (dk_limits d)
         else disk_holds q d' (sg_bytes s)" by blast
      then show ?thesis
        using that[of "Disk d'" ps' r] Disk by (auto simp: store_holds_def queued_def split: if_splits)
    qed
    have run: "staging_push m p ps s = (case r of Inl e \<Rightarrow> Some (s\<lparr>sg_store := st\<rparr>, ps2, Err e)
      | Inr _ \<Rightarrow> (case pulse_check ps2 of
          (ps, r) \<Rightarrow> Some (\<lparr> sg_store = st, sg_bytes = ?grown \<rparr>, ps, map_sum Stopped id r)))"
      using check go size(1) put by (simp add: staging_push_def checked_add_def)
    show ?thesis
    proof (cases r)
      case (Inl e)
      then have "store_holds q (s\<lparr>sg_store := st\<rparr>)" using fails by simp
      then show ?thesis using run Inl kept refused not_both by auto
    next
      case (Inr u)
      obtain ps3 r3 where last: "pulse_check ps2 = (ps3, r3)" by fastforce
      show ?thesis using run Inr kept puts last by (cases r3) auto
    qed
  qed (use check size(1) holds not_both kept_refl in \<open>auto simp: staging_push_def checked_add_def\<close>)
qed

subsection \<open>What a replay gives back\<close>

lemma read_entry_reads:
  assumes "read_entry e f ps = (f', ps', r)" "en_offset e \<le> length (sc_bytes f)"
  shows "sc_bytes f' = sc_bytes f
    \<and> (\<forall>bs. r = Ok bs \<longrightarrow> bs = take (en_bytes e) (drop (en_offset e) (sc_bytes f)) \<and> length bs = en_bytes e)"
proof -
  obtain f1 r1 where seek: "scratch_seek (en_offset e) f = (f1, r1)" by fastforce
  obtain f2 ps2 r2 where rd: "read_chunks (chunk_sizes (en_bytes e)) [] f1 ps = (f2, ps2, r2)" by (metis prod_cases3)
  note same = scratch_seek_same[OF seek]
  note reads = read_chunks_reads[OF rd, unfolded sum_chunk_sizes append_Nil]
  have "r2 = Ok bs \<Longrightarrow> r1 = Ok k \<Longrightarrow> bs = take (en_bytes e) (drop (en_offset e) (sc_bytes f)) \<and> length bs = en_bytes e"
    for bs k
    using reads(2)[of bs] same[of k] assms(2) by auto
  then show ?thesis
    using assms(1) seek rd same reads(1)
    by (auto simp: read_entry_def split: sum.splits prod.splits)
qed

lemma entry_replays:
  assumes e: "entry_holds f v e" and bs: "bs = concat (pieces v)"
  shows "\<exists>st p. (map_payloads (next_view (freeze bs k)) (en_lengths e, 0) (en_metadata e)
      :: ((nat list \<times> nat) \<times> (('x, 'r) cause + packet)) option) = Some (st, Ok p)
    \<and> settled p = v \<and> readable p"
proof -
  let ?blank = "replicate (length (payloads v)) (Owned [])"
  have meta: "en_metadata e = with_payloads ?blank v" "en_lengths e = map length (pieces v)" "settled v = v"
    using e by (simp_all add: entry_holds_def)
  have "length (en_lengths e) = length ?blank" "0 + sum_list (en_lengths e) \<le> length bs"
    by (simp_all add: meta(2) bs sum_pieces) (simp add: pieces_def)
  from next_view_list[OF this, of k, where 'x = 'x and 'r = 'r] obtain ys where
    run: "(map_list (next_view (freeze bs k) :: (nat list \<times> nat, ('x, 'r) cause) mapper) (en_lengths e, 0) ?blank)
      = Some (([], 0 + sum_list (en_lengths e)), Ok ys)"
    and ys: "map as_bytes ys = map Some (cut (en_lengths e) (drop 0 bs))" "length ys = length (payloads v)"
    by auto
  have same: "map as_bytes ys = map Some (pieces v)" using ys(1) by (simp add: meta(2) bs cut_concat)
  then have "map (the \<circ> as_bytes) ys = pieces v" by (metis (no_types, lifting) list.map_comp map_map option.sel
        list.map_id0 id_apply map_eq_conv comp_apply list.map_ident_strong)
  then have "settled (with_payloads ys v) = v" using settled_eqI[OF ys(2)] meta(3) by simp
  moreover have "readable (with_payloads ys v)"
    using same ys(2) by (auto simp: readable_def payloads_with) (metis image_iff imageE list.set_map option.distinct(1))
  ultimately show ?thesis
    using run meta(1) ys(2) by (simp add: map_payloads_list payloads_with with_with)
qed

lemma next_disk_ok:
  fixes d :: "'x disk" and ps :: "'r pulse"
  assumes holds: "disk_holds q d n"
  shows "\<exists>d' ps' r. next_disk m d ps = Some (d', ps', r) \<and> disk_kept d d'
    \<and> (case r of Inr None \<Rightarrow> q = [] \<and> d' = d
      | Inr (Some p) \<Rightarrow> q \<noteq> [] \<and> settled p = hd q \<and> readable p \<and> disk_holds (tl q) d' n
      | Inl e \<Rightarrow> q \<noteq> [] \<and> disk_holds (tl q) d' n)"
proof (cases "dk_entries d")
  case Nil
  then show ?thesis using holds by (simp add: next_disk_def disk_holds_def)
next
  case (Cons e es)
  then obtain v q' where q: "q = v # q'" and ev: "entry_holds (sc_bytes (dk_file d)) v e"
    and es: "list_all2 (entry_holds (sc_bytes (dk_file d))) q' es"
    using holds by (auto simp: disk_holds_def list_all2_Cons2)
  have rest: "disk_holds q' (d\<lparr>dk_entries := es, dk_file := f, dk_replay := b\<rparr>) n"
    if "sc_bytes f = sc_bytes (dk_file d)" "within_budget b" for f b
    using holds that es Cons by (auto simp: disk_holds_def)
  have b: "within_budget (dk_replay d)" using holds by (simp add: disk_holds_def)
  obtain b1 r1 where take: "budget_bytes (capacity m) (dk_replay d) (en_bytes e) = (b1, r1)" by fastforce
  show ?thesis
  proof (cases r1)
    case (Inl x)
    then have "b1 = dk_replay d" using budget_bytes_cases[OF b take] by auto
    then show ?thesis using Cons q take Inl rest[of "dk_file d" b1] b
      by (simp add: next_disk_def disk_kept_def)
  next
    case (Inr zk)
    then have b1: "zk = (replicate (en_bytes e) 0, en_bytes e)" "b1 = charge_budget (en_bytes e) (dk_replay d)" "within_budget b1"
      using budget_bytes_cases[OF b take] by auto
    then have undo: "budget_drop b1 (en_bytes e) = dk_replay d" using budget_drop_charge by simp
    obtain f ps1 r2 where rd: "read_entry e (dk_file d) ps = (f, ps1, r2)" by (metis prod_cases3)
    have "en_offset e \<le> length (sc_bytes (dk_file d))" using ev by (simp add: entry_holds_def)
    note reads = read_entry_reads[OF rd this]
    note tail = rest[of f "dk_replay d"] rest[of f b1]
    show ?thesis
    proof (cases r2)
      case (Inl x)
      then show ?thesis using Cons q take Inr b1 rd reads tail(1) b undo
        by (simp add: next_disk_def disk_kept_def)
    next
      case got: (Inr bs)
      then have "bs = concat (pieces v)" using reads ev by (auto simp: entry_holds_def)
      from entry_replays[OF ev this, of "en_bytes e", where 'x = 'x and 'r = 'r] obtain st p where
        run: "(map_payloads (next_view (freeze bs (en_bytes e))) (en_lengths e, 0) (en_metadata e)
          :: ((nat list \<times> nat) \<times> (('x, 'r) cause + packet)) option) = Some (st, Ok p)"
        and p: "settled p = v" "readable p" by blast
      then show ?thesis using Cons q take Inr b1 rd reads got tail b undo
        by (simp add: next_disk_def disk_kept_def)
    qed
  qed
qed

lemma staging_next_ok:
  fixes s :: "'x staging" and ps :: "'r pulse"
  assumes "store_holds q s"
  shows "\<exists>s' ps' r. staging_next m ps s = Some (s', ps', r) \<and> store_kept (sg_store s) (sg_store s')
    \<and> sg_bytes s' = sg_bytes s
    \<and> (case r of Inr None \<Rightarrow> q = [] \<and> s' = s
      | Inr (Some p) \<Rightarrow> q \<noteq> [] \<and> settled p = hd q \<and> readable p \<and> store_holds (tl q) s'
      | Inl e \<Rightarrow> s' = s \<and> (\<exists>x. e = Stopped x)
          \<or> (\<exists>d. sg_store s = Disk d) \<and> q \<noteq> [] \<and> store_holds (tl q) s')"
proof -
  obtain ps1 c where check: "pulse_check ps = (ps1, c)" by fastforce
  have kept_refl: "store_kept st st" for st :: "'x store" by (cases st) auto
  show ?thesis
  proof (cases c)
    case (Inl x)
    then show ?thesis using check assms kept_refl by (simp add: staging_next_def)
  next
    case (Inr u)
    show ?thesis
    proof (cases "sg_store s")
      case (Memory b packets)
      then show ?thesis using check Inr assms
        by (cases packets) (auto simp: staging_next_def store_holds_def)
    next
      case (Disk d)
      then have "disk_holds q d (sg_bytes s)" using assms by (simp add: store_holds_def)
      from next_disk_ok[OF this, of m ps1] obtain d' ps' r where
        "next_disk m d ps1 = Some (d', ps', r)" "disk_kept d d'"
        "case r of Inr None \<Rightarrow> q = [] \<and> d' = d
          | Inr (Some p) \<Rightarrow> q \<noteq> [] \<and> settled p = hd q \<and> readable p \<and> disk_holds (tl q) d' (sg_bytes s)
          | Inl e \<Rightarrow> q \<noteq> [] \<and> disk_holds (tl q) d' (sg_bytes s)"
        by blast
      then show ?thesis using check Inr Disk assms
        by (cases r) (auto simp: staging_next_def store_holds_def split: option.splits)
    qed
  qed
qed

subsection \<open>Histories\<close>

text \<open>
  What happens to one staging store after \<open>start\<close>: pushes and takes that may fail anywhere,
  replays, and other owners of the budget taking or releasing memory between calls. \<open>ins\<close> are
  the packets that entered the queue, in order, and \<open>gone\<close> says of each packet that left its
  head what became of it: \<open>Some\<close> of the packet a take returned, or \<open>None\<close> for an entry that
  \<open>next\<close> popped before it failed (staging.rs:220-227), which no later take gives back.
\<close>

definition fresh :: "'x staging \<Rightarrow> bool" where
  "fresh s \<longleftrightarrow> (\<exists>b. s = staging_memory b \<and> within_budget b)
     \<or> (\<exists>f l b. (staging_disk f l b :: ('x, unit) cause + 'x staging) = Ok s \<and> within_budget b)"

definition set_budget :: "budget \<Rightarrow> 'x staging \<Rightarrow> 'x staging" where
  "set_budget b s = s\<lparr>sg_store := (case sg_store s of
     Memory _ ps \<Rightarrow> Memory b ps | Disk d \<Rightarrow> Disk (d\<lparr>dk_replay := b\<rparr>))\<rparr>"

definition left_queue ::
    "'x staging \<Rightarrow> 'x staging \<Rightarrow> ('x, 'r) cause + packet option \<Rightarrow> packet option list" where
  "left_queue s s' r = (case r of
     Inr None \<Rightarrow> [] | Inr (Some p) \<Rightarrow> [Some (settled p)]
   | Inl e \<Rightarrow> if queued s' = queued s then [] else [None])"

inductive staging_history ::
    "memory \<Rightarrow> 'x staging \<Rightarrow> 'x staging \<Rightarrow> 'r pulse \<Rightarrow> packet list \<Rightarrow> packet option list \<Rightarrow> bool"
  for m start where
  start: "fresh start \<Longrightarrow> staging_history m start start ps [] []"
| push: "staging_history m start s ps0 ins gone \<Longrightarrow> readable p \<Longrightarrow> staging_push m p ps s = Some (s', ps', r) \<Longrightarrow>
    staging_history m start s' ps' (if queued s' = queued s then ins else ins @ [settled p]) gone"
| replay: "staging_history m start s ps0 ins gone \<Longrightarrow> begin_replay ps s = (s', ps', r) \<Longrightarrow>
    staging_history m start s' ps' ins gone"
| taken: "staging_history m start s ps0 ins gone \<Longrightarrow> staging_next m ps s = Some (s', ps', r) \<Longrightarrow>
    staging_history m start s' ps' ins (gone @ left_queue s s' r)"
| others: "staging_history m start s ps ins gone \<Longrightarrow> within_budget b \<Longrightarrow>
    staging_history m start (set_budget b s) ps ins gone"

definition within_limits :: "'x staging \<Rightarrow> 'x staging \<Rightarrow> bool" where
  "within_limits start s \<longleftrightarrow> (\<forall>d0. sg_store start = Disk d0 \<longrightarrow> (\<exists>d. sg_store s = Disk d
     \<and> dk_origin d = dk_origin d0 \<and> dk_limits d = dk_limits d0
     \<and> take (dk_origin d0) (sc_bytes (dk_file d)) = sc_bytes (dk_file d0)
     \<and> length (sc_bytes (dk_file d)) \<le> dk_origin d0 + dl_bytes (dk_limits d0)
     \<and> sg_bytes s \<le> dl_bytes (dk_limits d0) \<and> queued s \<le> dl_packets (dk_limits d0)))"

lemma staging_disk_Ok:
  assumes "(staging_disk f l b :: ('x, 'r) cause + 'x staging) = Ok s"
  shows "\<exists>g. s = \<lparr> sg_store = Disk \<lparr> dk_file = g, dk_limits = l, dk_replay = b,
    dk_origin = length (sc_bytes g), dk_entries = [] \<rparr>, sg_bytes = 0 \<rparr> \<and> sc_bytes g = sc_bytes f"
proof -
  obtain f1 r1 where one: "scratch_position f = (f1, r1)" by fastforce
  obtain f2 r2 where two: "scratch_seek_end f1 = (f2, r2)" by fastforce
  obtain j k where ok: "r1 = Ok j" "r2 = Ok k" using assms one two by (cases r1; cases r2) (auto simp: staging_disk_def)
  have "sc_bytes f1 = sc_bytes f" "sc_bytes f2 = sc_bytes f1" "k = length (sc_bytes f1)"
    using scratch_seek_same[of "sc_pos f" f f1 r1 j] scratch_seek_same[of "length (sc_bytes f1)" f1 f2 r2 k] one two ok
    by (simp_all add: scratch_position_def scratch_seek_end_def)
  then show ?thesis using assms one two ok by (auto simp: staging_disk_def split: if_splits)
qed

lemma fresh_holds:
  assumes "fresh s"
  shows "store_holds [] s \<and> within_limits s s"
proof -
  consider b where "s = staging_memory b" "within_budget b"
    | f l b where "(staging_disk f l b :: ('a, unit) cause + 'a staging) = Ok s" "within_budget b"
    using assms by (auto simp: fresh_def)
  then show ?thesis
  proof cases
    case 1
    then show ?thesis by (simp add: store_holds_def staging_memory_def within_limits_def)
  next
    case 2
    then show ?thesis using staging_disk_Ok[OF 2(1)]
      by (auto simp: store_holds_def disk_holds_def within_limits_def queued_def)
  qed
qed

lemma begin_replay_ok:
  assumes "begin_replay ps s = (s', ps', r)" "store_holds q s"
  shows "store_holds q s' \<and> store_kept (sg_store s) (sg_store s') \<and> queued s' = queued s \<and> sg_bytes s' = sg_bytes s"
  using assms
  by (auto simp: begin_replay_def scratch_flush_def store_holds_def queued_def disk_holds_def disk_kept_def
      split: prod.splits sum.splits store.splits option.splits dest!: next_fault_same)

lemma kept_within_limits:
  assumes "within_limits start s" "store_kept (sg_store s) (sg_store s')"
    and "\<And>d. sg_store s = Disk d \<Longrightarrow> sg_bytes s \<le> dl_bytes (dk_limits d) \<Longrightarrow> queued s \<le> dl_packets (dk_limits d) \<Longrightarrow>
      sg_bytes s' \<le> dl_bytes (dk_limits d) \<and> queued s' \<le> dl_packets (dk_limits d)"
  shows "within_limits start s'"
  using assms by (fastforce simp: within_limits_def disk_kept_def)

text \<open>Each packet that left the head was returned as it had been queued, or was lost, on disk only.\<close>

definition accounts :: "'x staging \<Rightarrow> packet list \<Rightarrow> packet option list \<Rightarrow> bool" where
  "accounts s front gone \<longleftrightarrow>
     list_all2 (\<lambda>p g. g = Some p \<or> g = None \<and> (\<exists>d. sg_store s = Disk d)) front gone"

lemma accounts_kept: "accounts s front gone \<Longrightarrow> store_kept (sg_store s) (sg_store s') \<Longrightarrow> accounts s' front gone"
  by (cases "sg_store s") (auto simp: accounts_def elim!: list_all2_mono)

lemma staging_history_ok:
  assumes "staging_history m start s ps ins gone"
  shows "(\<exists>front q. ins = front @ q \<and> accounts s front gone \<and> store_holds q s) \<and> within_limits start s"
  using assms
proof (induction rule: staging_history.induct)
  case (start ps)
  then show ?case using fresh_holds by (auto simp: accounts_def)
next
  case (push s ps0 ins gone p ps s' ps' r)
  then obtain front q where q: "ins = front @ q" "accounts s front gone" "store_holds q s" by blast
  from staging_push_ok[OF q(3) push.hyps(2), of m ps] push.hyps(3)
  have ok: "store_kept (sg_store s) (sg_store s')" "r = Ok () \<longrightarrow> store_holds (q @ [settled p]) s'"
    "r \<noteq> Ok () \<longrightarrow> store_holds q s' \<and> sg_bytes s' = sg_bytes s \<or> store_holds (q @ [settled p]) s'"
    "store_holds (q @ [settled p]) s' \<longrightarrow> (\<forall>d. sg_store s = Disk d \<longrightarrow>
         sg_bytes s' \<le> dl_bytes (dk_limits d) \<and> queued s' \<le> dl_packets (dk_limits d))"
    by (auto split: if_splits)
  note acc = accounts_kept[OF q(2) ok(1)]
  consider "store_holds q s'" "queued s' = queued s" "sg_bytes s' = sg_bytes s"
    | "store_holds (q @ [settled p]) s'" "queued s' \<noteq> queued s"
    using ok(2,3) queued_length[OF q(3)] queued_length[of q s'] queued_length[of "q @ [settled p]" s'] by fastforce
  then show ?case
  proof cases
    case 1
    moreover have "within_limits start s'" using kept_within_limits[OF _ ok(1)] push.IH 1(2,3) by simp
    ultimately show ?thesis using q acc by auto
  next
    case 2
    then show ?thesis using q acc push.IH kept_within_limits[OF _ ok(1)] ok(4)
      by (intro conjI exI[of _ front] exI[of _ "q @ [settled p]"]) auto
  qed
next
  case (replay s ps0 ins gone ps s' ps' r)
  then obtain front q where q: "ins = front @ q" "accounts s front gone" "store_holds q s" by blast
  note ok = begin_replay_ok[OF replay.hyps(2) q(3)]
  then have "within_limits start s'" using kept_within_limits[of start s s'] replay.IH by simp
  then show ?case using q ok accounts_kept[OF q(2)] by blast
next
  case (taken s ps0 ins gone ps s' ps' r)
  then obtain front q where q: "ins = front @ q" "accounts s front gone" "store_holds q s" by blast
  from staging_next_ok[OF q(3), of m ps] taken.hyps(2)
  have ok: "store_kept (sg_store s) (sg_store s')" "sg_bytes s' = sg_bytes s"
    and res: "case r of Inr None \<Rightarrow> q = [] \<and> s' = s
      | Inr (Some p) \<Rightarrow> q \<noteq> [] \<and> settled p = hd q \<and> readable p \<and> store_holds (tl q) s'
      | Inl e \<Rightarrow> s' = s \<and> (\<exists>x. e = Stopped x)
          \<or> (\<exists>d. sg_store s = Disk d) \<and> q \<noteq> [] \<and> store_holds (tl q) s'" by auto
  note acc = accounts_kept[OF q(2) ok(1)]
  have disk: "\<exists>d. sg_store s' = Disk d" if "\<exists>d. sg_store s = Disk d" using that ok(1) by auto
  have shorter: "queued s' \<noteq> queued s" if "q \<noteq> []" "store_holds (tl q) s'"
    using that(1) queued_length[OF q(3)] queued_length[OF that(2)] by (cases q) simp_all
  consider (same) "left_queue s s' r = []" "s' = s"
    | (left) g where "left_queue s s' r = [g]" "q \<noteq> []" "store_holds (tl q) s'"
        "g = Some (hd q) \<or> g = None \<and> (\<exists>d. sg_store s' = Disk d)"
    using res disk shorter by (cases r) (auto simp: left_queue_def split: option.splits)
  then show ?case
  proof cases
    case same
    then show ?thesis using q taken.IH by auto
  next
    case (left g)
    have "queued s' \<le> queued s" using queued_length[OF q(3)] queued_length[OF left(3)] by simp
    then have "within_limits start s'" using kept_within_limits[OF _ ok(1)] taken.IH ok(2) by (metis le_trans)
    moreover have "accounts s' (front @ [hd q]) (gone @ [g])"
      using acc left(4) by (auto simp: accounts_def intro: list_all2_appendI)
    moreover have "ins = (front @ [hd q]) @ tl q" using q(1) left(2) by simp
    ultimately show ?thesis using left(1,3) by metis
  qed
next
  case (others s ps ins gone b)
  then obtain front q where q: "ins = front @ q" "accounts s front gone" "store_holds q s" by blast
  have "accounts (set_budget b s) front gone"
    using q(2) by (cases "sg_store s") (auto simp: accounts_def set_budget_def)
  moreover have "store_holds q (set_budget b s)"
    using q(3) others.hyps by (auto simp: set_budget_def store_holds_def disk_holds_def split: store.splits)
  moreover have "within_limits start (set_budget b s)"
    using others.IH by (auto simp: set_budget_def within_limits_def queued_def split: store.splits)
  ultimately show ?case using q(1) by blast
qed

text \<open>
  C7: Packet staging is a queue, in memory and on disk alike (staging.rs:152-249). Take any history
  of pushes and takes with any result, replays and other use of the budget. The packets that left the
  queue are the oldest that entered it, in order, and each was given to the caller exactly once with
  everything it recorded and every byte of its payload and side data, but for those that a failed
  take on disk popped and lost; in memory none is lost. A take never panics: it gives the oldest
  packet left and removes only it; it answers \<open>None\<close> only when the queue is empty; when it fails,
  it was cancelled first and changed nothing, or the store is on disk and exactly the oldest packet
  left is lost. A push never panics, queues exactly one packet at the end when it succeeds and none
  when it fails, but for a cancellation seen after the packet was queued.
\<close>

theorem staging_is_a_queue:
  assumes "staging_history m start s ps0 ins gone"
  shows "\<exists>front q. ins = front @ q \<and> queued s = length q
    \<and> list_all2 (\<lambda>p g. g = Some p \<or> g = None \<and> (\<exists>d. sg_store s = Disk d)) front gone
    \<and> (\<forall>ps. \<exists>s' ps' r. staging_next m ps s = Some (s', ps', r)
         \<and> (r = Ok None \<longrightarrow> q = [] \<and> s' = s)
         \<and> (\<forall>p. r = Ok (Some p) \<longrightarrow> q \<noteq> [] \<and> settled p = hd q \<and> Suc (queued s') = queued s)
         \<and> (\<forall>e. r = Err e \<longrightarrow> s' = s \<and> (\<exists>x. e = Stopped x)
              \<or> (\<exists>d. sg_store s = Disk d) \<and> Suc (queued s') = queued s))
    \<and> (\<forall>p ps. readable p \<longrightarrow> (\<exists>s' ps' r. staging_push m p ps s = Some (s', ps', r)
         \<and> (r = Ok () \<longrightarrow> queued s' = Suc (queued s))
         \<and> (\<forall>e. r = Err e \<longrightarrow> (\<forall>x. e \<noteq> Stopped x) \<longrightarrow> queued s' = queued s)))"
proof -
  obtain front q where q: "ins = front @ q" "accounts s front gone" "store_holds q s"
    using staging_history_ok[OF assms] by blast
  have fewer: "Suc (queued s') = queued s" if "q \<noteq> []" "store_holds (tl q) s'" for s' :: "'a staging"
    using that queued_length[OF q(3)] queued_length[OF that(2)] by simp
  have "\<exists>s' ps' r. staging_next m ps s = Some (s', ps', r)
         \<and> (r = Ok None \<longrightarrow> q = [] \<and> s' = s)
         \<and> (\<forall>p. r = Ok (Some p) \<longrightarrow> q \<noteq> [] \<and> settled p = hd q \<and> Suc (queued s') = queued s)
         \<and> (\<forall>e. r = Err e \<longrightarrow> s' = s \<and> (\<exists>x. e = Stopped x)
              \<or> (\<exists>d. sg_store s = Disk d) \<and> Suc (queued s') = queued s)" for ps
  proof -
    from staging_next_ok[OF q(3), of m ps] obtain s' ps' r where "staging_next m ps s = Some (s', ps', r)"
      "case r of Inr None \<Rightarrow> q = [] \<and> s' = s
      | Inr (Some p) \<Rightarrow> q \<noteq> [] \<and> settled p = hd q \<and> readable p \<and> store_holds (tl q) s'
      | Inl e \<Rightarrow> s' = s \<and> (\<exists>x. e = Stopped x)
          \<or> (\<exists>d. sg_store s = Disk d) \<and> q \<noteq> [] \<and> store_holds (tl q) s'" by blast
    then show ?thesis using fewer[of s']
      by (intro exI[of _ s'] exI[of _ ps'] exI[of _ r]) (auto split: sum.splits)
  qed
  moreover have "\<exists>s' ps' r. staging_push m p ps s = Some (s', ps', r)
         \<and> (r = Ok () \<longrightarrow> queued s' = Suc (queued s))
         \<and> (\<forall>e. r = Err e \<longrightarrow> (\<forall>x. e \<noteq> Stopped x) \<longrightarrow> queued s' = queued s)" if "readable p" for p ps
  proof -
    from staging_push_ok[OF q(3) that, of m ps] obtain s' ps' r where "staging_push m p ps s = Some (s', ps', r)"
      "if r = Ok () then store_holds (q @ [settled p]) s'
       else store_holds q s' \<and> sg_bytes s' = sg_bytes s
         \<or> (\<exists>x. r = Err (Stopped x)) \<and> store_holds (q @ [settled p]) s'" by blast
    then show ?thesis using queued_length[OF q(3)] queued_length[of q s'] queued_length[of "q @ [settled p]" s']
      by (intro exI[of _ s'] exI[of _ ps'] exI[of _ r]) (auto split: if_splits)
  qed
  ultimately show ?thesis
    using q(1) q(2)[unfolded accounts_def] queued_length[OF q(3)] by blast
qed

definition sample_packet :: packet where
  "sample_packet = (with_payload (Owned [1, 2, 3]))\<lparr>additions := [\<lparr> add_id = 9, add_payload = Shared [3, 4, 5] 1 2 \<rparr>]\<rparr>"

definition sample_memory :: memory where
  "sample_memory = \<lparr> grows = \<lambda>_. True, room = \<lambda>_. True, capacity = Some \<rparr>"

definition sample_start :: "byte list \<Rightarrow> staging_entry list \<Rightarrow> nat \<Rightarrow> unit staging" where
  "sample_start f es n = \<lparr> sg_store = Disk \<lparr> dk_file = \<lparr> sc_bytes = f, sc_pos = length f, sc_faults = [] \<rparr>,
     dk_limits = \<lparr> dl_bytes = 5, dl_packets = 1, dl_additions = 1 \<rparr>, dk_replay = budget_new 10 2,
     dk_origin = 1, dk_entries = es \<rparr>, sg_bytes = n \<rparr>"

definition sample_entry :: staging_entry where
  "sample_entry = \<lparr> en_metadata = (with_payload (Owned []))\<lparr>additions := [\<lparr> add_id = 9, add_payload = Owned [] \<rparr>]\<rparr>,
     en_offset = 1, en_lengths = [3, 2], en_bytes = 5 \<rparr>"

lemmas sample_defs = sample_packet_def sample_memory_def sample_start_def sample_entry_def

lemma sample_fresh: "fresh (sample_start [9] [] 0)"
proof -
  have "(staging_disk \<lparr> sc_bytes = [9], sc_pos = 1, sc_faults = [] \<rparr>
      \<lparr> dl_bytes = 5, dl_packets = 1, dl_additions = 1 \<rparr> (budget_new 10 2) :: (unit, unit) cause + unit staging)
    = Ok (sample_start [9] [] 0)"
    by (simp add: staging_disk_def scratch_position_def scratch_seek_end_def scratch_seek_def next_fault_def
        sample_defs)
  moreover have "within_budget (budget_new 10 2)" by (simp add: within_budget_def budget_new_def u64_max_def)
  ultimately show ?thesis unfolding fresh_def by blast
qed

lemma sample_push:
  "staging_push sample_memory sample_packet ([] :: unit pulse) (sample_start [9] [] 0)
    = Some (sample_start [9, 1, 2, 3, 4, 5] [sample_entry] 5, [], Ok ())"
  by (simp add: staging_push_def pulse_check_def packet_len_def packet_bytes_def payload_len_def with_payload_def
      push_disk_def scratch_seek_def next_fault_def map_payloads_def spool_applied chunk_len_def
      scratch_write_all_def overwrite_def width_eval sample_defs)

lemma sample_history:
  "staging_history sample_memory (sample_start [9] [] 0) (sample_start [9, 1, 2, 3, 4, 5] [sample_entry] 5)
    ([] :: unit pulse) [settled sample_packet] []"
proof -
  have "readable sample_packet"
    by (simp add: readable_def payloads_def with_payload_def sample_defs)
  from staging_history.push[OF staging_history.start[OF sample_fresh] this sample_push]
  show ?thesis by (simp add: queued_def sample_start_def)
qed

lemma sample_lost_take:
  "\<exists>s' ps' e. staging_next sample_memory [None, Some ()] (sample_start [9, 1, 2, 3, 4, 5] [sample_entry] 5)
     = Some (s', ps', Err e) \<and> queued s' = 0"
proof -
  have sizes: "chunk_sizes 5 = [5]"
    using chunk_sizes.simps(2) [of 4] by (simp add: chunk_len_def)
  have "within_budget (budget_new 10 2)" by (simp add: within_budget_def budget_new_def u64_max_def)
  moreover obtain b r where "budget_bytes Some (budget_new 10 2) 5 = (b, r)" by fastforce
  ultimately show ?thesis
    using budget_bytes_cases [of "budget_new 10 2" Some 5 b r] sizes
    by (auto simp: staging_next_def pulse_check_def next_disk_def read_entry_def scratch_seek_def next_fault_def
      queued_def sample_defs)
qed

theorem staging_is_a_queue_witness:
  "(\<exists>s' ps' r. staging_next sample_memory ([] :: unit pulse) (sample_start [9, 1, 2, 3, 4, 5] [sample_entry] 5)
      = Some (s', ps', r) \<and> r \<noteq> Ok None \<and> (\<forall>p. r = Ok (Some p) \<longrightarrow> settled p = settled sample_packet))
   \<and> (\<exists>s' ps' e. staging_next sample_memory [None, Some ()] (sample_start [9, 1, 2, 3, 4, 5] [sample_entry] 5)
        = Some (s', ps', Err e)
      \<and> (\<forall>ps. \<exists>t ps'' r. staging_next sample_memory ps s' = Some (t, ps'', r) \<and> (\<forall>p. r \<noteq> Ok (Some p))))"
proof
  show "\<exists>s' ps' r. staging_next sample_memory ([] :: unit pulse) (sample_start [9, 1, 2, 3, 4, 5] [sample_entry] 5)
      = Some (s', ps', r) \<and> r \<noteq> Ok None \<and> (\<forall>p. r = Ok (Some p) \<longrightarrow> settled p = settled sample_packet)"
    using staging_is_a_queue[OF sample_history] by fastforce
  obtain s' ps' e where lost: "staging_next sample_memory [None, Some ()]
      (sample_start [9, 1, 2, 3, 4, 5] [sample_entry] 5) = Some (s', ps', Err e)" "queued s' = 0"
    using sample_lost_take by blast
  from staging_history.taken[OF sample_history lost(1)] have hist:
    "staging_history sample_memory (sample_start [9] [] 0) s' ps' [settled sample_packet] [None]"
    using lost(2) by (simp add: left_queue_def) (simp add: queued_def sample_start_def)
  have "\<exists>t ps'' r. staging_next sample_memory ps s' = Some (t, ps'', r) \<and> (\<forall>p. r \<noteq> Ok (Some p))" for ps
    using staging_is_a_queue[OF hist] lost(2) by (metis list.size(3) length_0_conv)
  then show "\<exists>s' ps' e. staging_next sample_memory [None, Some ()] (sample_start [9, 1, 2, 3, 4, 5] [sample_entry] 5)
        = Some (s', ps', Err e)
      \<and> (\<forall>ps. \<exists>t ps'' r. staging_next sample_memory ps s' = Some (t, ps'', r) \<and> (\<forall>p. r \<noteq> Ok (Some p)))"
    using lost(1) by blast
qed

text \<open>
  C29: Staging on disk stays inside what it was given: after any history the scratch file still
  begins with the bytes it had when the operation took it, it never grows past its origin plus the
  byte limit, however the writes failed, and neither the bytes accounted nor the number of packets
  in the index pass their limits (staging.rs:120-206).
\<close>

theorem staging_keeps_scratch:
  assumes "staging_history m start s ps ins gone" "sg_store start = Disk d0"
  shows "\<exists>d. sg_store s = Disk d
     \<and> take (dk_origin d0) (sc_bytes (dk_file d)) = sc_bytes (dk_file d0)
     \<and> length (sc_bytes (dk_file d)) \<le> dk_origin d0 + dl_bytes (dk_limits d0)
     \<and> sg_bytes s \<le> dl_bytes (dk_limits d0) \<and> length (dk_entries d) \<le> dl_packets (dk_limits d0)"
  using staging_history_ok[OF assms(1)] assms(2) by (auto simp: within_limits_def queued_def)

theorem staging_keeps_scratch_witness:
  "\<exists>d. sg_store (sample_start [9, 1, 2, 3, 4, 5] [sample_entry] 5) = Disk d
     \<and> take 1 (sc_bytes (dk_file d)) = [9] \<and> length (sc_bytes (dk_file d)) \<le> 1 + 5 \<and> length (dk_entries d) \<le> 1"
  using staging_keeps_scratch[OF sample_history] by (simp add: sample_start_def)

text \<open>
  C33: A push that staging refuses (\<open>Bytes\<close>, \<open>Packets\<close>, \<open>Additions\<close> or \<open>Overflow\<close>) leaves the store, the scratch
  file and its position exactly as they were, and a packet that would pass the byte, packet or side
  data limit of a disk store is never accepted (staging.rs:158-188).
\<close>

theorem staging_refusal_untouched:
  assumes "staging_history m start s ps0 ins gone" "readable p"
  shows "\<exists>s' ps' r. staging_push m p ps s = Some (s', ps', r) \<and> (\<forall>e. r = Err (Refused_by e) \<longrightarrow> s' = s)
    \<and> (\<forall>d. sg_store s = Disk d \<longrightarrow> sg_bytes s + packet_size p > dl_bytes (dk_limits d)
         \<or> length (dk_entries d) \<ge> dl_packets (dk_limits d) \<or> length (additions p) > dl_additions (dk_limits d)
         \<longrightarrow> r \<noteq> Ok () \<and> queued s' = queued s)"
proof -
  obtain q where q: "store_holds q s" using staging_history_ok[OF assms(1)] by blast
  from staging_push_ok[OF q assms(2), of m ps] obtain s' ps' r where run: "staging_push m p ps s = Some (s', ps', r)"
    and refused: "\<forall>e. r = Err (Refused_by e) \<longrightarrow> s' = s" by blast
  obtain size where size: "Option.bind (packet_len p) (\<lambda>n. try_sum n (additions p)) = Some size"
    "\<And>k. size = Ok k \<Longrightarrow> k = packet_size p" using measured[OF assms(2)] by blast
  have "r \<noteq> Ok () \<and> s' = s" if "sg_store s = Disk d" "sg_bytes s + packet_size p > dl_bytes (dk_limits d)
         \<or> length (dk_entries d) \<ge> dl_packets (dk_limits d) \<or> length (additions p) > dl_additions (dk_limits d)" for d
    using that run size by (cases size)
      (auto simp: staging_push_def push_disk_def split: prod.splits sum.splits option.splits if_splits)
  then show ?thesis using run refused by blast
qed

theorem staging_refusal_untouched_witness:
  "\<exists>s' ps' r. staging_push sample_memory sample_packet ([] :: unit pulse)
      (sample_start [9, 1, 2, 3, 4, 5] [sample_entry] 5) = Some (s', ps', r) \<and> r \<noteq> Ok ()"
proof -
  have "readable sample_packet" by (simp add: readable_def payloads_def with_payload_def sample_defs)
  from staging_refusal_untouched[OF sample_history this, of "[]"] show ?thesis
    by (auto simp: sample_start_def)
qed

end
