(* ===== verification/Media_Track.thy ===== *)
theory Media_Track
  imports Media_Packet
begin

text \<open>
  Tracks and the vocabulary of media sessions: \<open>zencodec-media/src/track.rs\<close>, and from
  \<open>zencodec-media/src/session.rs\<close> and \<open>container.rs\<close> the statuses, errors, configurations and
  layout values that sessions, muxers and their drivers exchange. \<open>cicp\<close> is the colour code of the
  zenpixels package, only ever carried.
\<close>

subsection \<open>Tracks\<close>

typedecl cicp

datatype track_kind = KindVideo | KindAudio | KindSubtitle | KindData

datatype codec_id = Av1 | Vp9 | Vp8 | H264 | Hevc | Aac | Opus | Flac | Pcm | OtherCodec string

record video_track_info =
  coded_width :: nat
  coded_height :: nat
  display :: "(nat \<times> nat) option"
  color :: "cicp option"

definition video_track_new :: "nat \<Rightarrow> nat \<Rightarrow> video_track_info" where
  "video_track_new w h = \<lparr> coded_width = w, coded_height = h, display = None, color = None \<rparr>"

definition with_display :: "nat \<Rightarrow> nat \<Rightarrow> video_track_info \<Rightarrow> video_track_info" where
  "with_display w h v = v\<lparr>display := Some (w, h)\<rparr>"

definition with_color :: "cicp \<Rightarrow> video_track_info \<Rightarrow> video_track_info" where
  "with_color c v = v\<lparr>color := Some c\<rparr>"

record channel_layout =
  channel_count :: nat
  channel_mask :: "nat option"

record audio_track_info =
  sample_rate :: nat
  channels :: channel_layout

record track_info =
  track_index :: nat
  track_kind_of :: track_kind
  track_codec :: codec_id
  track_time_base :: time_base
  codec_private :: "byte list option"
  track_epoch :: nat
  video_info :: "video_track_info option"
  audio_info :: "audio_track_info option"
  codec_delay :: "frame_duration option"
  seek_preroll :: "frame_duration option"
  edit_delay_ticks :: "int option"
  declared_packets :: "nat option"
  declared_duration_ticks :: "nat option"

datatype track_error = ZeroDimension | ZeroSampleRate | NoChannels

definition track_base :: "nat \<Rightarrow> track_kind \<Rightarrow> codec_id \<Rightarrow> time_base \<Rightarrow> track_info" where
  "track_base i k c t = \<lparr> track_index = i, track_kind_of = k, track_codec = c, track_time_base = t,
     codec_private = None, track_epoch = 0, video_info = None, audio_info = None, codec_delay = None,
     seek_preroll = None, edit_delay_ticks = None, declared_packets = None, declared_duration_ticks = None \<rparr>"

definition track_video :: "nat \<Rightarrow> codec_id \<Rightarrow> time_base \<Rightarrow> video_track_info \<Rightarrow> track_info" where
  "track_video i c t v = (track_base i KindVideo c t)\<lparr>video_info := Some v\<rparr>"

definition track_audio :: "nat \<Rightarrow> codec_id \<Rightarrow> time_base \<Rightarrow> audio_track_info \<Rightarrow> track_info" where
  "track_audio i c t a = (track_base i KindAudio c t)\<lparr>audio_info := Some a\<rparr>"

definition track_other :: "nat \<Rightarrow> track_kind \<Rightarrow> codec_id \<Rightarrow> time_base \<Rightarrow> track_info" where
  "track_other i k c t = track_base i k c t"

definition with_codec_private :: "byte list \<Rightarrow> track_info \<Rightarrow> track_info" where
  "with_codec_private bs t = t\<lparr>codec_private := Some bs\<rparr>"

definition track_with_epoch :: "nat \<Rightarrow> track_info \<Rightarrow> track_info" where
  "track_with_epoch n t = t\<lparr>track_epoch := n\<rparr>"

definition with_codec_delay :: "frame_duration \<Rightarrow> track_info \<Rightarrow> track_info" where
  "with_codec_delay d t = t\<lparr>codec_delay := Some d\<rparr>"

definition with_seek_preroll :: "frame_duration \<Rightarrow> track_info \<Rightarrow> track_info" where
  "with_seek_preroll d t = t\<lparr>seek_preroll := Some d\<rparr>"

definition with_edit_delay_ticks :: "int \<Rightarrow> track_info \<Rightarrow> track_info" where
  "with_edit_delay_ticks n t = t\<lparr>edit_delay_ticks := Some n\<rparr>"

definition with_declared_packets :: "nat \<Rightarrow> track_info \<Rightarrow> track_info" where
  "with_declared_packets n t = t\<lparr>declared_packets := Some n\<rparr>"

definition with_declared_duration_ticks :: "nat \<Rightarrow> track_info \<Rightarrow> track_info" where
  "with_declared_duration_ticks n t = t\<lparr>declared_duration_ticks := Some n\<rparr>"

definition track_build :: "track_info \<Rightarrow> track_error + track_info" where
  "track_build t =
     (if (case video_info t of None \<Rightarrow> False | Some v \<Rightarrow> coded_width v = 0 \<or> coded_height v = 0)
      then Err ZeroDimension
      else case audio_info t of
        None \<Rightarrow> Ok t
      | Some a \<Rightarrow>
          if sample_rate a = 0 then Err ZeroSampleRate
          else if channel_count (channels a) = 0 then Err NoChannels
          else Ok t)"

subsection \<open>Sessions\<close>

datatype send_status = Accepted | ReceivePending

datatype 'a receive = Ready 'a | NeedInput | EndOfStream

datatype media_protocol =
    SendAfterEnd | EmptyPacket | NotConfigured | EpochMismatch | MissingTimestamp | ClockMismatch | BeginTwice
  | NoBegin | NoProgressMade | ReceivePendingWithoutOutput | FinishTwice | IndexRequired | EndOfStreamBeforeEndInput

datatype unsupported_media =
    SeekUnsupported | ConfigChange | ForwardOnlyLayout | CodecUnsupported | ContainerUnsupported
  | PixelFormatUnsupported | ExactTiming

datatype ('e, 'r) session_error =
    SCodec 'e
  | SCancelled 'r
  | SFinished
  | SProtocol media_protocol
  | SUnsupported unsupported_media
  | SLimit media_exceeded

fun map_codec :: "('e \<Rightarrow> 'f) \<Rightarrow> ('e, 'r) session_error \<Rightarrow> ('f, 'r) session_error" where
  "map_codec f (SCodec e) = SCodec (f e)"
| "map_codec f (SCancelled r) = SCancelled r"
| "map_codec f SFinished = SFinished"
| "map_codec f (SProtocol p) = SProtocol p"
| "map_codec f (SUnsupported u) = SUnsupported u"
| "map_codec f (SLimit l) = SLimit l"

record codec_config =
  cfg_codec :: codec_id
  cfg_private :: "byte list option"
  cfg_epoch :: nat
  cfg_time_base :: time_base
  cfg_video :: "video_track_info option"

definition codec_config_new :: "codec_id \<Rightarrow> time_base \<Rightarrow> codec_config" where
  "codec_config_new c t = \<lparr> cfg_codec = c, cfg_private = None, cfg_epoch = 0, cfg_time_base = t, cfg_video = None \<rparr>"

definition config_of_track :: "track_info \<Rightarrow> codec_config" where
  "config_of_track t = \<lparr> cfg_codec = track_codec t, cfg_private = codec_private t, cfg_epoch = track_epoch t,
     cfg_time_base = track_time_base t, cfg_video = video_info t \<rparr>"

subsection \<open>Container layouts\<close>

record mux_timing =
  streams :: bool
  patches_at_finish :: bool

definition timing_at_finish :: mux_timing where
  "timing_at_finish = \<lparr> streams = False, patches_at_finish = False \<rparr>"

definition timing_streaming :: mux_timing where
  "timing_streaming = \<lparr> streams = True, patches_at_finish = False \<rparr>"

definition timing_with_patches :: mux_timing where
  "timing_with_patches = \<lparr> streams = True, patches_at_finish = True \<rparr>"

record mux_hint =
  forward_only :: bool

definition hint_default :: mux_hint where
  "hint_default = \<lparr> forward_only = False \<rparr>"

definition hint_forward_only :: mux_hint where
  "hint_forward_only = \<lparr> forward_only = True \<rparr>"

end
