(* ===== verification/Media_Output.thy ===== *)
theory Media_Output
  imports Media_Track Media_Staging Output_Stream
begin

text \<open>
  Container output: \<open>zencodec-media/src/output.rs\<close> over the destinations of
  \<open>zencodec-io/src/destination.rs\<close>. A writer is the bytes written, a position, and what its
  coming calls will answer: short writes, interruptions, errors, a claim to have taken more than
  it was given, seeks that fail or land elsewhere. Once the answers are used up the writer behaves.
  The muxer is a parameter: a state and the operations of the trait \<open>Muxer\<close>.
\<close>

subsection \<open>Writers and destinations\<close>

datatype io_kind = WriteZero | InvalidData | InvalidInput | UnsupportedIo

datatype 'x io_failure = IoKind io_kind | IoOs 'x

datatype 'x write_answer = Takes nat | Interrupts | Breaks 'x | Overclaims

datatype 'x seek_answer = Lands | Misses nat | SeekBreaks 'x

record 'x writer =
  wr_bytes :: "byte list"
  wr_pos :: nat
  wr_writes :: "'x write_answer list"
  wr_seeks :: "'x seek_answer list"
  wr_flushes :: "'x option list"

definition put_bytes :: "byte list \<Rightarrow> 'x writer \<Rightarrow> 'x writer" where
  "put_bytes bs w = w\<lparr>wr_bytes := overwrite (wr_pos w) bs (wr_bytes w), wr_pos := wr_pos w + length bs\<rparr>"

datatype 'x wrote_result = Wrote nat | WasInterrupted | WriteFailed 'x

definition writer_write :: "byte list \<Rightarrow> 'x writer \<Rightarrow> 'x writer \<times> 'x wrote_result" where
  "writer_write bs w = (case wr_writes w of
     [] \<Rightarrow> (put_bytes bs w, Wrote (length bs))
   | a # as \<Rightarrow> let w = w\<lparr>wr_writes := as\<rparr> in (case a of
       Takes k \<Rightarrow> (put_bytes (take k bs) w, Wrote (min k (length bs)))
     | Interrupts \<Rightarrow> (w, WasInterrupted)
     | Breaks e \<Rightarrow> (w, WriteFailed e)
     | Overclaims \<Rightarrow> (put_bytes bs w, Wrote (Suc (length bs)))))"

definition writer_seek :: "nat \<Rightarrow> 'x writer \<Rightarrow> 'x writer \<times> ('x io_failure + nat)" where
  "writer_seek n w = (case wr_seeks w of
     [] \<Rightarrow> (w\<lparr>wr_pos := n\<rparr>, Ok n)
   | a # as \<Rightarrow> let w = w\<lparr>wr_seeks := as\<rparr> in (case a of
       Lands \<Rightarrow> (w\<lparr>wr_pos := n\<rparr>, Ok n)
     | Misses k \<Rightarrow> (w\<lparr>wr_pos := k\<rparr>, Ok k)
     | SeekBreaks e \<Rightarrow> (w, Err (IoOs e))))"

definition writer_flush :: "'x writer \<Rightarrow> 'x writer \<times> ('x io_failure + unit)" where
  "writer_flush w = (case wr_flushes w of
     [] \<Rightarrow> (w, Ok ())
   | None # fs \<Rightarrow> (w\<lparr>wr_flushes := fs\<rparr>, Ok ())
   | Some e # fs \<Rightarrow> (w\<lparr>wr_flushes := fs\<rparr>, Err (IoOs e)))"

record 'x destination =
  dst_writer :: "'x writer"
  dst_start :: "nat option"

definition forward :: "'x writer \<Rightarrow> 'x destination" where
  "forward w = \<lparr> dst_writer = w, dst_start = None \<rparr>"

definition seek_back :: "'x writer \<Rightarrow> 'x io_failure + 'x destination" where
  "seek_back w = (case writer_seek (wr_pos w) w of
     (w, Inl e) \<Rightarrow> Err e | (w, Inr k) \<Rightarrow> Ok \<lparr> dst_writer = w, dst_start = Some k \<rparr>)"

definition can_patch :: "'x destination \<Rightarrow> bool" where
  "can_patch d \<longleftrightarrow> dst_start d \<noteq> None"

definition dest_position :: "nat \<Rightarrow> 'x destination \<Rightarrow> 'x destination \<times> ('x io_failure + unit)" where
  "dest_position relative d = (case dst_start d of
     None \<Rightarrow> (d, Err (IoKind UnsupportedIo))
   | Some origin \<Rightarrow> (case checked_add u64_max origin relative of
       None \<Rightarrow> (d, Err (IoKind InvalidInput))
     | Some absolute \<Rightarrow> (case writer_seek absolute (dst_writer d) of
         (w, Inl e) \<Rightarrow> (d\<lparr>dst_writer := w\<rparr>, Err e)
       | (w, Inr actual) \<Rightarrow>
           (d\<lparr>dst_writer := w\<rparr>, if actual \<noteq> absolute then Err (IoKind InvalidData) else Ok ()))))"

subsection \<open>Failures\<close>

datatype output_stage = StagePrepare | StagePacket | StageDrain | StageFinish | StagePatch

datatype ('x, 'e, 'r) output_cause =
    OutIo "'x io_failure"
  | OutSession "('e, 'r) session_error"
  | OutPatch patch_error

record ('x, 'e, 'r) output_failure =
  fail_stage :: output_stage
  fail_emitted :: nat
  fail_cause :: "('x, 'e, 'r) output_cause"

definition stopped :: "'r pulse \<Rightarrow> 'r pulse \<times> (('x, 'e, 'r) output_cause + unit)" where
  "stopped ps = (case pulse_check ps of (ps, r) \<Rightarrow> (ps, map_sum (OutSession \<circ> SCancelled) id r))"

function write_all ::
    "'x writer \<Rightarrow> byte list \<Rightarrow> nat \<Rightarrow> 'r pulse \<Rightarrow> 'x writer \<times> nat \<times> 'r pulse \<times> (('x, 'e, 'r) output_cause + unit)" where
  "write_all w bs n ps =
     (if bs = [] then (case stopped ps of (ps, r) \<Rightarrow> (w, n, ps, r))
      else case stopped ps of
        (ps, Inl e) \<Rightarrow> (w, n, ps, Err e)
      | (ps, Inr _) \<Rightarrow> (case writer_write bs w of
          (w', WasInterrupted) \<Rightarrow> write_all w' bs n ps
        | (w', WriteFailed e) \<Rightarrow> (w', n, ps, Err (OutIo (IoOs e)))
        | (w', Wrote k) \<Rightarrow>
            if k = 0 then (w', n, ps, Err (OutIo (IoKind WriteZero)))
            else if k \<le> length bs then (case checked_add u64_max n k of
                None \<Rightarrow> (w', n, ps, Err (OutIo (IoKind InvalidData)))
              | Some n \<Rightarrow> write_all w' (drop k bs) n ps)
            else (w', n, ps, Err (OutIo (IoKind InvalidData)))))"
  by pat_completeness auto

lemma writer_write_script:
  assumes "writer_write bs w = (w', r)"
  shows "length (wr_writes w') \<le> length (wr_writes w)
    \<and> (r = WasInterrupted \<longrightarrow> length (wr_writes w') < length (wr_writes w))"
  using assms by (auto simp: writer_write_def put_bytes_def Let_def split: list.splits write_answer.splits)

termination write_all
proof (relation "measure (\<lambda>(w, bs, n, ps). length (wr_writes w) + length bs)", goal_cases)
  case 1
  show ?case by simp
next
  case (2 w bs n ps a b ba x y k m)
  then have "length (wr_writes x) \<le> length (wr_writes w)" using writer_write_script[of bs w x y] by metis
  moreover have "length (drop k bs) < length bs" using 2 by (cases bs) auto
  ultimately show ?case by simp
next
  case (3 w bs n ps a b ba x y)
  then have "length (wr_writes x) < length (wr_writes w)" using writer_write_script[of bs w x y] by metis
  then show ?case by simp
qed

declare write_all.simps [simp del]

subsection \<open>The output driver\<close>

record ('m, 'e, 'r) muxer =
  mx_begin :: "'m \<Rightarrow> track_info list \<Rightarrow> mux_hint \<Rightarrow> 'm \<times> (('e, 'r) session_error + mux_timing)"
  mx_begin_exact :: "'m \<Rightarrow> track_info list \<Rightarrow> mux_hint \<Rightarrow> 'm \<times> (('e, 'r) session_error + mux_timing)"
  mx_write :: "'m \<Rightarrow> packet \<Rightarrow> 'r pulse \<Rightarrow> 'm \<times> 'r pulse \<times> (('e, 'r) session_error + unit)"
  mx_pending :: "'m \<Rightarrow> byte list"
  mx_consume :: "nat \<Rightarrow> 'm \<Rightarrow> 'm"
  mx_finish :: "'m \<Rightarrow> 'r pulse \<Rightarrow> 'r pulse \<times> (('e, 'r) session_error + output_finish)"

record output_stats =
  os_emitted :: nat
  os_patches :: nat
  os_patch_bytes :: nat
  os_max_pending :: nat

record ('m, 'x) media_output =
  mo_mux :: "'m option"
  mo_dest :: "'x destination"
  mo_tracks :: "track_info list"
  mo_timing :: mux_timing
  mo_exact :: bool
  mo_stats :: output_stats

definition output_failed :: "output_stats \<Rightarrow> output_stage \<Rightarrow> ('x, 'e, 'r) output_cause \<Rightarrow> ('x, 'e, 'r) output_failure" where
  "output_failed s st c = \<lparr> fail_stage = st, fail_emitted = os_emitted s, fail_cause = c \<rparr>"

definition dest_write_all ::
    "'x destination \<Rightarrow> byte list \<Rightarrow> nat \<Rightarrow> 'r pulse
      \<Rightarrow> 'x destination \<times> nat \<times> 'r pulse \<times> (('x, 'e, 'r) output_cause + unit)" where
  "dest_write_all d bs n ps = (case write_all (dst_writer d) bs n ps of
     (w, n, ps, r) \<Rightarrow> (d\<lparr>dst_writer := w\<rparr>, n, ps, r))"

definition prepare_unpublished ::
    "('m, 'e, 'r) muxer \<Rightarrow> bool \<Rightarrow> 'm \<Rightarrow> 'x destination \<Rightarrow> track_info list \<Rightarrow> 'r pulse
      \<Rightarrow> 'r pulse \<times> (('x, 'e, 'r) output_failure + ('m, 'x) media_output)" where
  "prepare_unpublished mx exact m d tracks ps =
     (let zero = \<lparr> os_emitted = 0, os_patches = 0, os_patch_bytes = 0, os_max_pending = 0 \<rparr> in
      case stopped ps of
        (ps, Inl e) \<Rightarrow> (ps, Err (output_failed zero StagePrepare e))
      | (ps, Inr _) \<Rightarrow>
          let hint = (if can_patch d then hint_default else hint_forward_only) in
          (case (if exact then mx_begin_exact mx else mx_begin mx) m tracks hint of
            (m, Inl e) \<Rightarrow> (ps, Err (output_failed zero StagePrepare (OutSession e)))
          | (m, Inr timing) \<Rightarrow>
              if patches_at_finish timing \<and> \<not> can_patch d
              then (ps, Err (output_failed zero StagePrepare (OutSession (SUnsupported ForwardOnlyLayout))))
              else case stopped ps of
                (ps, Inl e) \<Rightarrow> (ps, Err (output_failed zero StagePrepare e))
              | (ps, Inr _) \<Rightarrow> (ps, Ok \<lparr> mo_mux = Some m, mo_dest = d, mo_tracks = tracks, mo_timing = timing,
                  mo_exact = exact, mo_stats = zero \<rparr>)))"

record destination_facts =
  df_seek_back :: bool
  df_streams :: bool
  df_patches :: bool
  df_exact :: bool

definition output_facts :: "('m, 'x) media_output \<Rightarrow> destination_facts" where
  "output_facts o' = \<lparr> df_seek_back = can_patch (mo_dest o'), df_streams = streams (mo_timing o'),
     df_patches = patches_at_finish (mo_timing o'), df_exact = mo_exact o' \<rparr>"

definition validate_packet :: "('m, 'x) media_output \<Rightarrow> packet \<Rightarrow> ('x, 'e, 'r) output_cause + unit" where
  "validate_packet o' p = (case find (\<lambda>t. track_index t = track p) (mo_tracks o') of
     None \<Rightarrow> Err (OutSession (SProtocol NotConfigured))
   | Some t \<Rightarrow>
       if config_epoch p \<noteq> track_epoch t then Err (OutSession (SProtocol EpochMismatch))
       else if (case pts p of None \<Rightarrow> False | Some x \<Rightarrow> ts_base x \<noteq> track_time_base t)
         \<or> (case dts p of None \<Rightarrow> False | Some x \<Rightarrow> ts_base x \<noteq> track_time_base t)
       then Err (OutSession (SProtocol ClockMismatch))
       else Ok ())"

definition drain ::
    "('m, 'e, 'r) muxer \<Rightarrow> 'm \<Rightarrow> ('m, 'x) media_output \<Rightarrow> 'r pulse
      \<Rightarrow> 'm \<times> ('m, 'x) media_output \<times> 'r pulse \<times> (('x, 'e, 'r) output_cause + unit)" where
  "drain mx m o' ps =
     (let bs = mx_pending mx m; s = mo_stats o'; s = s\<lparr>os_max_pending := max (os_max_pending s) (length bs)\<rparr> in
      case dest_write_all (mo_dest o') bs (os_emitted s) ps of
        (d, n, ps, r) \<Rightarrow>
          let o' = o'\<lparr>mo_dest := d, mo_stats := s\<lparr>os_emitted := n\<rparr>\<rparr> in
          (case r of Inl e \<Rightarrow> (m, o', ps, Err e) | Inr _ \<Rightarrow> (mx_consume mx (length bs) m, o', ps, Ok ())))"

definition output_publish ::
    "('m, 'e, 'r) muxer \<Rightarrow> ('m, 'x) media_output \<Rightarrow> 'r pulse
      \<Rightarrow> (('m, 'x) media_output \<times> 'r pulse \<times> (('x, 'e, 'r) output_failure + unit)) option" where
  "output_publish mx o' ps = (case mo_mux o' of
     None \<Rightarrow> None
   | Some m \<Rightarrow> (case drain mx m (o'\<lparr>mo_mux := None\<rparr>) ps of
       (m, o', ps, Inl e) \<Rightarrow> Some (o', ps, Err (output_failed (mo_stats o') StageDrain e))
     | (m, o', ps, Inr _) \<Rightarrow> Some (o'\<lparr>mo_mux := Some m\<rparr>, ps, Ok ())))"

definition output_is_failed :: "('m, 'x) media_output \<Rightarrow> bool" where
  "output_is_failed o' \<longleftrightarrow> mo_mux o' = None"

definition output_send ::
    "('m, 'e, 'r) muxer \<Rightarrow> packet \<Rightarrow> ('m, 'x) media_output \<Rightarrow> 'r pulse
      \<Rightarrow> ('m, 'x) media_output \<times> 'r pulse \<times> (('x, 'e, 'r) output_failure + unit)" where
  "output_send mx p o' ps = (case mo_mux o' of
     None \<Rightarrow> (o', ps, Err (output_failed (mo_stats o') StagePacket (OutSession SFinished)))
   | Some m \<Rightarrow>
       let o' = o'\<lparr>mo_mux := None\<rparr> in (case stopped ps of
         (ps, Inl e) \<Rightarrow> (o', ps, Err (output_failed (mo_stats o') StagePacket e))
       | (ps, Inr _) \<Rightarrow> (case validate_packet o' p of
           Inl e \<Rightarrow> (o', ps, Err (output_failed (mo_stats o') StagePacket e))
         | Inr _ \<Rightarrow> (case mx_write mx m p ps of
             (m, ps, Inl e) \<Rightarrow> (o', ps, Err (output_failed (mo_stats o') StagePacket (OutSession e)))
           | (m, ps, Inr _) \<Rightarrow> (case drain mx m o' ps of
               (m, o', ps, Inl e) \<Rightarrow> (o', ps, Err (output_failed (mo_stats o') StagePacket e))
             | (m, o', ps, Inr _) \<Rightarrow> (o'\<lparr>mo_mux := Some m\<rparr>, ps, Ok ()))))))"

text \<open>The patches of a finish, one after the other; the failure is at the stage \<open>Patch\<close>.\<close>

fun write_out_patches ::
    "patch list \<Rightarrow> 'x destination \<Rightarrow> output_stats \<Rightarrow> 'r pulse
      \<Rightarrow> 'x destination \<times> output_stats \<times> 'r pulse \<times> (('x, 'e, 'r) output_failure + unit)" where
  "write_out_patches [] d s ps = (d, s, ps, Ok ())"
| "write_out_patches (q # qs) d s ps = (case dest_position (patch_offset q) d of
     (d, Inl e) \<Rightarrow> (d, s, ps, Err (output_failed s StagePatch (OutIo e)))
   | (d, Inr _) \<Rightarrow> (case dest_write_all d (patch_bytes q) 0 ps of
       (d, _, ps, Inl e) \<Rightarrow> (d, s, ps, Err (output_failed s StagePatch e))
     | (d, _, ps, Inr _) \<Rightarrow>
         write_out_patches qs d (s\<lparr>os_patch_bytes := os_patch_bytes s + length (patch_bytes q)\<rparr>) ps))"

definition finish_flush ::
    "'x destination \<Rightarrow> output_stats \<Rightarrow> 'r pulse
      \<Rightarrow> 'x destination \<times> 'r pulse \<times> (('x, 'e, 'r) output_failure + output_stats)" where
  "finish_flush d s ps = (case stopped ps of
     (ps, Inl e) \<Rightarrow> (d, ps, Err (output_failed s StageFinish e))
   | (ps, Inr _) \<Rightarrow> (case writer_flush (dst_writer d) of
       (w, Inl e) \<Rightarrow> (d\<lparr>dst_writer := w\<rparr>, ps, Err (output_failed s StageFinish (OutIo e)))
     | (w, Inr _) \<Rightarrow> (case stopped ps of
         (ps, Inl e) \<Rightarrow> (d\<lparr>dst_writer := w\<rparr>, ps, Err (output_failed s StageFinish e))
       | (ps, Inr _) \<Rightarrow> (d\<lparr>dst_writer := w\<rparr>, ps, Ok s))))"

definition finish_tail ::
    "output_finish \<Rightarrow> nat \<Rightarrow> 'x destination \<Rightarrow> output_stats \<Rightarrow> 'r pulse
      \<Rightarrow> 'x destination \<times> 'r pulse \<times> (('x, 'e, 'r) output_failure + output_stats)" where
  "finish_tail f extent d s ps =
     (let s = s\<lparr>os_max_pending := max (os_max_pending s) (length (tail f))\<rparr> in
      case dest_write_all d (tail f) (os_emitted s) ps of
        (d, n, ps, r) \<Rightarrow> let s = s\<lparr>os_emitted := n\<rparr> in (case r of
          Inl e \<Rightarrow> (d, ps, Err (output_failed s StageFinish e))
        | Inr _ \<Rightarrow> (case write_out_patches (patches f) d (s\<lparr>os_patches := length (patches f)\<rparr>) ps of
            (d, s, ps, Inl e) \<Rightarrow> (d, ps, Err e)
          | (d, s, ps, Inr _) \<Rightarrow>
              if os_patches s > 0 then (case dest_position extent d of
                (d, Inl e) \<Rightarrow> (d, ps, Err (output_failed s StagePatch (OutIo e)))
              | (d, Inr _) \<Rightarrow> finish_flush d s ps)
              else finish_flush d s ps)))"

definition output_finish_all ::
    "('m, 'e, 'r) muxer \<Rightarrow> ('m, 'x) media_output \<Rightarrow> 'r pulse
      \<Rightarrow> 'x destination \<times> 'r pulse \<times> (('x, 'e, 'r) output_failure + output_stats)" where
  "output_finish_all mx o' ps =
     (let d = mo_dest o'; s = mo_stats o' in case mo_mux o' of
        None \<Rightarrow> (d, ps, Err (output_failed s StageFinish (OutSession SFinished)))
      | Some m \<Rightarrow> (case stopped ps of
          (ps, Inl e) \<Rightarrow> (d, ps, Err (output_failed s StageFinish e))
        | (ps, Inr _) \<Rightarrow> (case mx_finish mx m ps of
            (ps, Inl e) \<Rightarrow> (d, ps, Err (output_failed s StageFinish (OutSession e)))
          | (ps, Inr f) \<Rightarrow> (case finish_validate f (os_emitted s) of
              Inl e \<Rightarrow> (d, ps, Err (output_failed s StageFinish (OutPatch e)))
            | Inr extent \<Rightarrow>
                if patches f \<noteq> [] \<and> (\<not> can_patch d \<or> \<not> patches_at_finish (mo_timing o'))
                then (d, ps, Err (output_failed s StageFinish (OutSession (SUnsupported ForwardOnlyLayout))))
                else finish_tail f extent d s ps))))"

definition output_prepare ::
    "('m, 'e, 'r) muxer \<Rightarrow> bool \<Rightarrow> 'm \<Rightarrow> 'x destination \<Rightarrow> track_info list \<Rightarrow> 'r pulse
      \<Rightarrow> ('x destination \<times> 'r pulse \<times> (('x, 'e, 'r) output_failure + ('m, 'x) media_output)) option" where
  "output_prepare mx exact m d tracks ps = (case prepare_unpublished mx exact m d tracks ps of
     (ps, Inl e) \<Rightarrow> Some (d, ps, Err e)
   | (ps, Inr o') \<Rightarrow> map_option (\<lambda>(o', ps, r). (mo_dest o', ps, map_sum id (\<lambda>_. o') r)) (output_publish mx o' ps))"

subsection \<open>What the writes leave\<close>

definition honest :: "'x destination \<Rightarrow> bool" where
  "honest d \<longleftrightarrow> Overclaims \<notin> set (wr_writes (dst_writer d))"

text \<open>The first \<open>k\<close> bytes of \<open>bs\<close> reached the writer, at its position.\<close>

definition part_written :: "byte list \<Rightarrow> nat \<Rightarrow> 'x writer \<Rightarrow> 'x writer \<Rightarrow> bool" where
  "part_written bs k w w' \<longleftrightarrow> k \<le> length bs \<and> wr_bytes w' = overwrite (wr_pos w) (take k bs) (wr_bytes w)
     \<and> wr_pos w' = wr_pos w + k \<and> set (wr_writes w') \<subseteq> set (wr_writes w)"

definition in_range :: "'x writer \<Rightarrow> bool" where
  "in_range w \<longleftrightarrow> wr_pos w \<le> length (wr_bytes w)"

lemma part_none: "in_range w \<Longrightarrow> part_written bs 0 w w"
  by (simp add: part_written_def in_range_def overwrite_keeps)

lemma part_in_range: "in_range w \<Longrightarrow> part_written bs k w w' \<Longrightarrow> in_range w'"
  by (auto simp: part_written_def in_range_def overwrite_keeps)

lemma part_append:
  assumes "in_range w" "part_written bs k w w1" "part_written (drop k bs) i w1 w2"
  shows "part_written bs (k + i) w w2"
proof -
  have "overwrite (wr_pos w + length (take k bs)) (take i (drop k bs)) (overwrite (wr_pos w) (take k bs) (wr_bytes w))
      = overwrite (wr_pos w) (take (k + i) bs) (wr_bytes w)"
    by (subst overwrite_append) (use assms(1) in \<open>simp_all add: take_add in_range_def\<close>)
  with assms(2,3) show ?thesis by (auto simp: part_written_def min_absorb2 intro: subset_trans)
qed

lemma writer_write_spec:
  assumes "writer_write bs w = (w', r)" "in_range w"
  shows "\<exists>k. part_written bs k w w'
    \<and> (case r of Wrote n \<Rightarrow> n = k \<or> n > length bs \<and> Overclaims \<in> set (wr_writes w)
       | WasInterrupted \<Rightarrow> k = 0 | WriteFailed e \<Rightarrow> k = 0)"
proof (cases "wr_writes w")
  case Nil
  with assms show ?thesis
    by (intro exI[of _ "length bs"]) (auto simp: writer_write_def put_bytes_def part_written_def)
next
  case (Cons a as)
  show ?thesis
  proof (cases a)
    case (Takes k)
    with assms Cons show ?thesis
      by (intro exI[of _ "min k (length bs)"])
        (auto simp: writer_write_def put_bytes_def Let_def min_def part_written_def)
  next
    case Overclaims
    with assms Cons show ?thesis
      by (intro exI[of _ "length bs"]) (auto simp: writer_write_def put_bytes_def Let_def part_written_def)
  qed (use assms Cons in \<open>auto simp: writer_write_def Let_def part_written_def in_range_def overwrite_keeps intro!: exI[of _ 0]\<close>)
qed

text \<open>Some prefix of the data is written, all of it on success, and counted by a truthful writer.\<close>

definition counted :: "byte list \<Rightarrow> nat \<Rightarrow> 'x writer \<Rightarrow> nat \<Rightarrow> nat \<Rightarrow> ('c + unit) \<Rightarrow> bool" where
  "counted bs k w n n' r \<longleftrightarrow> (r = Ok () \<longrightarrow> k = length bs \<and> n' = n + k)
     \<and> (Overclaims \<notin> set (wr_writes w) \<and> n + length bs \<le> u64_max \<longrightarrow> n' = n + k)"

lemma counted_append:
  "part_written bs k w w1 \<Longrightarrow> counted (drop k bs) i w1 (n + k) n' r \<Longrightarrow> counted bs (k + i) w n n' r"
  by (auto simp: counted_def part_written_def)

lemma write_all_spec:
  fixes r :: "('x, 'e, 'r) output_cause + unit"
  assumes "write_all w bs n ps = (w', n', ps', r)" "in_range w"
  shows "\<exists>k. part_written bs k w w' \<and> counted bs k w n n' r"
  using assms
proof (induction "length (wr_writes w) + length bs" arbitrary: w bs n ps rule: less_induct)
  case less
  obtain ps1 s where s: "(stopped ps :: 'r pulse \<times> (('x, 'e, 'r) output_cause + unit)) = (ps1, s)" by fastforce
  show ?case
  proof (cases "bs = [] \<or> (\<exists>e. s = Err e)")
    case True
    with less.prems s have "w' = w \<and> n' = n \<and> (r = Ok () \<longrightarrow> bs = [])"
      by (subst (asm) write_all.simps) (auto split: prod.splits if_splits)
    then show ?thesis using part_none[OF less.prems(2)] by (intro exI[of _ 0]) (auto simp: counted_def)
  next
    case live: False
    then have live: "s = Ok ()" "bs \<noteq> []" by (cases s; auto)+
    obtain w1 x where x: "writer_write bs w = (w1, x)" by fastforce
    note step = less.prems(1)[unfolded write_all.simps[of w] s live(1)] x live(2)
    obtain k where k: "part_written bs k w w1"
      "case x of Wrote n \<Rightarrow> n = k \<or> n > length bs \<and> Overclaims \<in> set (wr_writes w)
         | WasInterrupted \<Rightarrow> k = 0 | WriteFailed e \<Rightarrow> k = 0"
      using writer_write_spec[OF x less.prems(2)] by blast
    have again: ?thesis if "write_all w1 (drop k bs) (n + k) ps1 = (w', n', ps', r)"
      "length (wr_writes w1) + length (drop k bs) < length (wr_writes w) + length bs"
      using less.hyps[OF that(2,1) part_in_range[OF less.prems(2) k(1)]]
        part_append[OF less.prems(2) k(1)] counted_append[OF k(1)] by blast
    have stop: ?thesis if "w' = w1" "r = Err e" "Overclaims \<notin> set (wr_writes w) \<and> n + length bs \<le> u64_max \<longrightarrow> n' = n + k" for e
      using k(1) that by (auto simp: counted_def)
    show ?thesis
    proof (cases x)
      case (Wrote j)
      show ?thesis
      proof (cases "j \<noteq> 0 \<and> j \<le> length bs \<and> n + j \<le> u64_max")
        case True
        then show ?thesis
          using again step k(2) Wrote writer_write_script[OF x] by (auto simp: checked_add_def)
      next
        case False
        then obtain e where "w' = w1" "n' = n" "r = Err e"
          using step Wrote by (auto simp: checked_add_def split: if_splits)
        then show ?thesis
          using False Wrote k by (intro stop[of e]) (auto simp: part_written_def)
      qed
    qed (use again stop step k(2) writer_write_script[OF x] in auto)
  qed
qed

subsection \<open>The stream of a run\<close>

text \<open>A destination just made, and one that holds a stream from the place where it started.\<close>

definition fresh_dest :: "'x destination \<Rightarrow> bool" where
  "fresh_dest d \<longleftrightarrow> in_range (dst_writer d) \<and> dst_start d \<in> {None, Some (wr_pos (dst_writer d))}"

definition dest_contains :: "'x destination \<Rightarrow> byte list \<Rightarrow> 'x destination \<Rightarrow> bool" where
  "dest_contains d0 bs d \<longleftrightarrow> dst_start d = dst_start d0
     \<and> wr_bytes (dst_writer d) = overwrite (wr_pos (dst_writer d0)) bs (wr_bytes (dst_writer d0))
     \<and> set (wr_writes (dst_writer d)) \<subseteq> set (wr_writes (dst_writer d0))"

definition dest_holds :: "'x destination \<Rightarrow> byte list \<Rightarrow> 'x destination \<Rightarrow> bool" where
  "dest_holds d0 bs d \<longleftrightarrow> dest_contains d0 bs d \<and> wr_pos (dst_writer d) = wr_pos (dst_writer d0) + length bs"

lemma forward_fresh: "in_range w \<Longrightarrow> fresh_dest (forward w)"
  by (simp add: fresh_dest_def forward_def)

lemma seek_back_fresh: "seek_back w = Ok d \<Longrightarrow> in_range (dst_writer d) \<Longrightarrow> fresh_dest d"
  by (auto simp: fresh_dest_def seek_back_def writer_seek_def Let_def split: list.splits seek_answer.splits)

lemma dest_holds_nil: "fresh_dest d0 \<Longrightarrow> dest_holds d0 [] d0"
  by (simp add: fresh_dest_def in_range_def dest_holds_def dest_contains_def overwrite_keeps)

lemma dest_holds_range: "fresh_dest d0 \<Longrightarrow> dest_holds d0 bs d \<Longrightarrow> in_range (dst_writer d)"
  by (simp add: fresh_dest_def in_range_def dest_holds_def dest_contains_def overwrite_keeps)

lemma dest_holds_write:
  fixes r :: "('x, 'e, 'r) output_cause + unit"
  assumes "fresh_dest d0" "dest_holds d0 bs d" "dest_write_all d cs n ps = (d', n', ps', r)"
  shows "\<exists>k \<le> length cs. dest_holds d0 (bs @ take k cs) d' \<and> counted cs k (dst_writer d) n n' r"
proof -
  obtain w where w: "write_all (dst_writer d) cs n ps = (w, n', ps', r)" "d' = d\<lparr>dst_writer := w\<rparr>"
    using assms(3) by (auto simp: dest_write_all_def split: prod.splits)
  obtain k where k: "part_written cs k (dst_writer d) w" "counted cs k (dst_writer d) n n' r"
    using write_all_spec[OF w(1) dest_holds_range[OF assms(1,2)]] by blast
  have "wr_pos (dst_writer d0) \<le> length (wr_bytes (dst_writer d0))"
    using assms(1) by (simp add: fresh_dest_def in_range_def)
  then have "dest_holds d0 (bs @ take k cs) d'"
    using assms(2) k(1) w(2) by (auto simp: dest_holds_def dest_contains_def part_written_def overwrite_append min_absorb2)
  with k show ?thesis by (auto simp: part_written_def)
qed

lemma counted_honest: "honest d0 \<Longrightarrow> dest_holds d0 bs d \<Longrightarrow> counted cs k (dst_writer d) n n' r
    \<Longrightarrow> n + length cs \<le> u64_max \<Longrightarrow> n' = n + k"
  by (auto simp: honest_def dest_holds_def dest_contains_def counted_def)

text \<open>The bytes a muxer has pending once it took the packet; none if the packet is refused before.\<close>

definition send_pending :: "('m, 'e, 'r) muxer \<Rightarrow> packet \<Rightarrow> ('m, 'x) media_output \<Rightarrow> 'r pulse \<Rightarrow> byte list" where
  "send_pending mx p o' ps = (case mo_mux o' of
     None \<Rightarrow> []
   | Some m \<Rightarrow> (case pulse_check ps of
       (ps, Inl _) \<Rightarrow> []
     | (ps, Inr _) \<Rightarrow> (case (validate_packet o' p :: ('x, 'e, 'r) output_cause + unit) of
         Inl _ \<Rightarrow> []
       | Inr _ \<Rightarrow> (case mx_write mx m p ps of (m, ps, r) \<Rightarrow> if is_ok r then mx_pending mx m else []))))"

inductive output_run ::
    "('m, 'e, 'r) muxer \<Rightarrow> 'm \<Rightarrow> 'x destination \<Rightarrow> ('m, 'x) media_output \<Rightarrow> packet list \<Rightarrow> byte list \<Rightarrow> bool"
  for mx :: "('m, 'e, 'r) muxer" and m0 :: 'm and d0 :: "'x destination" where
  published: "prepare_unpublished mx exact m0 d0 tracks ps = (ps1, Ok o1) \<Longrightarrow> mo_mux o1 = Some m1
    \<Longrightarrow> output_publish mx o1 ps1 = Some (o2, ps2, Ok ()) \<Longrightarrow> output_run mx m0 d0 o2 [] (mx_pending mx m1)"
| sent: "output_run mx m0 d0 o1 sent stream \<Longrightarrow> output_send mx p o1 ps = (o2, ps2, Ok ())
    \<Longrightarrow> output_run mx m0 d0 o2 (sent @ [p]) (stream @ send_pending mx p o1 ps)"

definition carries :: "'x destination \<Rightarrow> byte list \<Rightarrow> ('m, 'x) media_output \<Rightarrow> bool" where
  "carries d0 bs o' \<longleftrightarrow> dest_holds d0 bs (mo_dest o') \<and> os_emitted (mo_stats o') = length bs"

lemma drain_spec:
  fixes r :: "('x, 'e, 'r) output_cause + unit"
  assumes "fresh_dest d0" "carries d0 bs o1" "drain mx m o1 ps = (m2, o2, ps2, r)"
  shows "\<exists>k \<le> length (mx_pending mx m). dest_holds d0 (bs @ take k (mx_pending mx m)) (mo_dest o2)
    \<and> counted (mx_pending mx m) k (dst_writer (mo_dest o1)) (length bs) (os_emitted (mo_stats o2)) r
    \<and> mo_mux o2 = mo_mux o1"
proof -
  let ?bs = "mx_pending mx m"
  obtain d n p where w: "(dest_write_all (mo_dest o1) ?bs (length bs) ps
      :: 'x destination \<times> nat \<times> 'r pulse \<times> (('x, 'e, 'r) output_cause + unit)) = (d, n, p, r)"
    using assms(2,3) by (auto simp: drain_def Let_def carries_def split: prod.splits sum.splits)
  then have "mo_dest o2 = d" "os_emitted (mo_stats o2) = n" "mo_mux o2 = mo_mux o1"
    using assms(2,3) by (auto simp: drain_def Let_def carries_def split: sum.splits)
  then show ?thesis using dest_holds_write[OF assms(1) _ w] assms(2) by (auto simp: carries_def)
qed

lemma drain_ok:
  assumes "fresh_dest d0" "carries d0 bs o1" "drain mx m o1 ps = (m2, o2, ps2, Ok ())"
  shows "carries d0 (bs @ mx_pending mx m) o2"
  using drain_spec[OF assms] by (auto simp: carries_def counted_def)

lemma publish_ok:
  assumes "output_publish mx o1 ps = Some (o2, ps2, Ok ())" "mo_mux o1 = Some m" "fresh_dest d0" "carries d0 bs o1"
  shows "carries d0 (bs @ mx_pending mx m) o2 \<and> mo_mux o2 \<noteq> None"
proof -
  obtain m2 o3 p where d: "drain mx m (o1\<lparr>mo_mux := None\<rparr>) ps = (m2, o3, p, Ok ())" "o2 = o3\<lparr>mo_mux := Some m2\<rparr>"
    using assms(1,2) by (auto simp: output_publish_def split: prod.splits sum.splits)
  moreover have "carries d0 bs (o1\<lparr>mo_mux := None\<rparr>)" using assms(4) by (simp add: carries_def)
  ultimately show ?thesis using drain_ok[OF assms(3)] by (fastforce simp: carries_def)
qed

text \<open>A send fails before the drain, with nothing written, or in the drain; else it goes on.\<close>

lemma send_cases:
  fixes r :: "('x, 'e, 'r) output_failure + unit"
  assumes "output_send mx p o1 ps = (o2, ps2, r)" "mo_mux o1 = Some m"
  obtains c where "r = Err (output_failed (mo_stats o2) StagePacket c)" "o2 = o1\<lparr>mo_mux := None\<rparr>"
    "send_pending mx p o1 ps = []"
  | m1 m2 o3 p1 c where "send_pending mx p o1 ps = mx_pending mx m1"
    "drain mx m1 (o1\<lparr>mo_mux := None\<rparr>) p1 = (m2, o3, ps2, Err c)" "o2 = o3"
    "r = Err (output_failed (mo_stats o2) StagePacket c)"
  | m1 m2 o3 p1 where "send_pending mx p o1 ps = mx_pending mx m1"
    "drain mx m1 (o1\<lparr>mo_mux := None\<rparr>) p1 = (m2, o3, ps2, Ok ())" "o2 = o3\<lparr>mo_mux := Some m2\<rparr>" "r = Ok ()"
proof -
  have same: "validate_packet (o1\<lparr>mo_mux := None\<rparr>) p = validate_packet o1 p" by (simp add: validate_packet_def)
  obtain p1 x where x: "pulse_check ps = (p1, x)" by fastforce
  show ?thesis
  proof (cases x)
    case (Inl e)
    with assms x show ?thesis by (intro that(1)) (auto simp: output_send_def send_pending_def stopped_def)
  next
    case Inr
    note defs = output_send_def send_pending_def stopped_def Let_def same x Inr assms(2)
    show ?thesis
    proof (cases "validate_packet o1 p :: ('x, 'e, 'r) output_cause + unit")
      case (Inl c)
      with assms(1) show ?thesis by (intro that(1)) (auto simp: defs)
    next
      case ok: (Inr u)
      obtain m1 p2 y where y: "mx_write mx m p p1 = (m1, p2, y)" by (cases "mx_write mx m p p1") auto
      obtain m2 o3 p3 z where z: "drain mx m1 (o1\<lparr>mo_mux := None\<rparr>) p2 = (m2, o3, p3, z)"
        by (cases "drain mx m1 (o1\<lparr>mo_mux := None\<rparr>) p2") auto
      show ?thesis
      proof (cases y)
        case (Inl e)
        with assms(1) ok y show ?thesis by (intro that(1)) (auto simp: defs)
      next
        case wrote: (Inr v)
        then have pend: "send_pending mx p o1 ps = mx_pending mx m1" using ok y by (simp add: defs)
        show ?thesis
        proof (cases z)
          case (Inl c)
          with assms(1) ok y wrote z pend show ?thesis by (intro that(2)) (auto simp: defs)
        next
          case (Inr w)
          with assms(1) ok y wrote z pend show ?thesis by (intro that(3)) (auto simp: defs)
        qed
      qed
    qed
  qed
qed

lemma send_ok:
  assumes "output_send mx p o1 ps = (o2, ps2, Ok ())" "fresh_dest d0" "carries d0 bs o1"
  shows "carries d0 (bs @ send_pending mx p o1 ps) o2 \<and> mo_mux o2 \<noteq> None"
proof -
  obtain m where m: "mo_mux o1 = Some m" using assms(1) by (auto simp: output_send_def split: option.splits)
  have c: "carries d0 bs (o1\<lparr>mo_mux := None\<rparr>)" using assms(3) by (simp add: carries_def)
  show ?thesis
  proof (rule send_cases[OF assms(1) m])
    fix m1 m2 o3 p1
    assume d: "send_pending mx p o1 ps = mx_pending mx m1"
      "drain mx m1 (o1\<lparr>mo_mux := None\<rparr>) p1 = (m2, o3, ps2, Ok ())" "o2 = o3\<lparr>mo_mux := Some m2\<rparr>"
    show ?thesis using drain_ok[OF assms(2) c d(2)] d(1,3) by (simp add: carries_def)
  qed auto
qed

lemma run_carries:
  assumes "output_run mx m0 d0 o' sent stream" "fresh_dest d0"
  shows "carries d0 stream o' \<and> mo_mux o' \<noteq> None"
  using assms(1)
proof induction
  case (published exact tracks ps ps1 o1 m1 o2 ps2)
  have "carries d0 [] o1"
    using published(1) dest_holds_nil[OF assms(2)]
    by (auto simp: prepare_unpublished_def Let_def carries_def split: prod.splits sum.splits if_splits)
  from publish_ok[OF published(3,2) assms(2) this] show ?case by simp
next
  case (sent o1 sent stream p ps o2 ps2)
  then show ?case using send_ok[OF sent(2) assms(2)] by blast
qed

subsection \<open>The finish\<close>

lemma overwrite_inside:
  assumes "pos \<le> length b" "i + length cs \<le> length fl"
  shows "overwrite (pos + i) cs (overwrite pos fl b) = overwrite pos (take i fl @ cs @ drop (i + length cs) fl) b"
proof -
  have "fl = take i fl @ take (length cs) (drop i fl) @ drop (length cs) (drop i fl)"
    by (simp only: append_take_drop_id)
  then obtain x y z where "fl = x @ y @ z" "length x = i" "length y = length cs"
    using assms(2) by (metis add_le_imp_le_diff add_leD1 length_drop length_take min_absorb2 add.commute)
  with assms(1) show ?thesis by (simp add: overwrite_def add.assoc)
qed

lemma dest_position_ok:
  assumes "dest_position rel d = (d', Ok ())"
  shows "\<exists>origin. dst_start d = Some origin \<and> dst_start d' = Some origin \<and> wr_pos (dst_writer d') = origin + rel
    \<and> wr_bytes (dst_writer d') = wr_bytes (dst_writer d) \<and> wr_writes (dst_writer d') = wr_writes (dst_writer d)"
  using assms
  by (auto simp: dest_position_def writer_seek_def Let_def split: option.splits prod.splits sum.splits
      list.splits seek_answer.splits if_splits)

text \<open>The patches of a finish are those of \<open>write_patches\<close> on the stream, wherever it lies.\<close>

lemma patch_lands:
  fixes ps :: "'r pulse"
  assumes "dest_position i d = (d1, Ok ())" "fresh_dest d0" "dest_contains d0 fl d" "i + length cs \<le> length fl"
    "dest_write_all d1 cs 0 ps = (d2, n, ps2, Ok () :: ('x, 'e, 'r) output_cause + unit)"
  shows "dest_contains d0 (take i fl @ cs @ drop (i + length cs) fl) d2"
proof -
  let ?p0 = "wr_pos (dst_writer d0)" and ?b0 = "wr_bytes (dst_writer d0)"
  have d1: "wr_bytes (dst_writer d1) = overwrite ?p0 fl ?b0" "wr_pos (dst_writer d1) = ?p0 + i"
    "dst_start d1 = dst_start d0" "wr_writes (dst_writer d1) = wr_writes (dst_writer d)"
    using dest_position_ok[OF assms(1)] assms(2,3) by (auto simp: fresh_dest_def dest_contains_def)
  have r: "?p0 \<le> length ?b0" using assms(2) by (simp add: fresh_dest_def in_range_def)
  then have "in_range (dst_writer d1)" using d1 assms(4) by (simp add: in_range_def overwrite_keeps)
  moreover obtain w where "write_all (dst_writer d1) cs 0 ps = (w, n, ps2, Ok () :: ('x, 'e, 'r) output_cause + unit)"
    "d2 = d1\<lparr>dst_writer := w\<rparr>"
    using assms(5) by (auto simp: dest_write_all_def split: prod.splits)
  ultimately show ?thesis
    using write_all_spec[of "dst_writer d1" cs 0 ps w n ps2] d1 assms(3) overwrite_inside[OF r assms(4)]
    by (fastforce simp: counted_def part_written_def dest_contains_def)
qed

lemma write_out_patches_ok:
  fixes ps :: "'r pulse"
  assumes "write_out_patches qs d s ps = (d', s', ps', Ok () :: ('x, 'e, 'r) output_failure + unit)"
    "list_all (patch_fits (length fl)) qs" "fresh_dest d0" "dest_contains d0 fl d"
  shows "\<exists>fl'. write_patches fl qs = Some fl' \<and> length fl' = length fl \<and> dest_contains d0 fl' d'
    \<and> os_emitted s' = os_emitted s \<and> os_patches s' = os_patches s"
  using assms
proof (induction qs arbitrary: d s ps fl)
  case (Cons q qs)
  let ?i = "patch_offset q" and ?c = "patch_bytes q"
  let ?fl = "take ?i fl @ ?c @ drop (?i + length ?c) fl"
  obtain d1 where d1: "dest_position ?i d = (d1, Ok ())"
    using Cons.prems(1) by (auto split: prod.splits sum.splits)
  obtain d2 n ps2 where d2: "dest_write_all d1 ?c 0 ps = (d2, n, ps2, Ok () :: ('x, 'e, 'r) output_cause + unit)"
    using Cons.prems(1) d1 by (auto split: prod.splits sum.splits)
  have fits: "?i + length ?c \<le> length fl" using Cons.prems(2) by (simp add: patch_fits_def)
  then have len: "length ?fl = length fl" by simp
  have "write_out_patches qs d2 (s\<lparr>os_patch_bytes := os_patch_bytes s + length ?c\<rparr>) ps2
      = (d', s', ps', Ok () :: ('x, 'e, 'r) output_failure + unit)"
    using Cons.prems(1) d1 d2 by simp
  from Cons.IH[OF this _ Cons.prems(3) patch_lands[OF d1 Cons.prems(3,4) fits d2]] Cons.prems(2) len fits
  show ?case by (simp add: write_at_def)
qed simp

lemma write_no_patches: "write_out_patches [] d s ps = (d', s', ps', r) \<longleftrightarrow> d' = d \<and> s' = s \<and> ps' = ps \<and> r = Ok ()"
  by auto

lemma finish_flush_ok:
  assumes "finish_flush d s ps = (d', ps', Ok s')" "dest_holds d0 bs d"
  shows "s' = s \<and> dest_holds d0 bs d'"
  using assms
  by (auto simp: finish_flush_def writer_flush_def dest_holds_def dest_contains_def
      split: prod.splits sum.splits list.splits option.splits)

lemma stopped_Ok: "stopped ps = (ps1, Ok u) \<longleftrightarrow> pulse_check ps = (ps1, Ok ())"
  by (cases "pulse_check ps") (auto simp: stopped_def map_sum_def split: sum.splits)

text \<open>What a finish that succeeds went through.\<close>

lemma finish_all_ok:
  assumes "output_finish_all mx o' ps = (d, ps', Ok s :: ('x, 'e, 'r) output_failure + output_stats)"
  obtains m ps1 ps2 f n where "mo_mux o' = Some m" "pulse_check ps = (ps1, Ok ())" "mx_finish mx m ps1 = (ps2, Ok f)"
    "finish_validate f (os_emitted (mo_stats o')) = Ok n"
    "patches f \<noteq> [] \<longrightarrow> can_patch (mo_dest o') \<and> patches_at_finish (mo_timing o')"
    "finish_tail f n (mo_dest o') (mo_stats o') ps2 = (d, ps', Ok s :: ('x, 'e, 'r) output_failure + output_stats)"
  using assms
  by (auto simp: output_finish_all_def Let_def stopped_Ok split: option.splits prod.splits sum.splits if_splits)

lemma finish_tail_ok:
  fixes ps :: "'r pulse"
  assumes "finish_tail f n d s ps = (d', ps', Ok s' :: ('x, 'e, 'r) output_failure + output_stats)"
    "fresh_dest d0" "dest_holds d0 bs d" "os_emitted s = length bs"
    "n = length bs + length (tail f)" "list_all (patch_fits n) (patches f)"
  shows "\<exists>fl. write_patches (bs @ tail f) (patches f) = Some fl \<and> dest_holds d0 fl d' \<and> os_emitted s' = length fl"
proof -
  let ?s = "s\<lparr>os_max_pending := max (os_max_pending s) (length (tail f))\<rparr>"
  obtain d1 k p1 where t: "dest_write_all d (tail f) (os_emitted s) ps
      = (d1, k, p1, Ok () :: ('x, 'e, 'r) output_cause + unit)"
    using assms(1) by (auto simp: finish_tail_def Let_def split: prod.splits sum.splits)
  have d1: "dest_holds d0 (bs @ tail f) d1" "k = n"
    using dest_holds_write[OF assms(2,3) t] assms(4,5) by (auto simp: counted_def)
  obtain d2 s2 p2 where p: "write_out_patches (patches f) d1 (?s\<lparr>os_emitted := k, os_patches := length (patches f)\<rparr>) p1
      = (d2, s2, p2, Ok () :: ('x, 'e, 'r) output_failure + unit)"
    using assms(1) t by (auto simp: finish_tail_def Let_def split: prod.splits sum.splits)
  obtain fl where fl: "write_patches (bs @ tail f) (patches f) = Some fl" "length fl = n" "dest_contains d0 fl d2"
    "os_emitted s2 = n" "os_patches s2 = length (patches f)"
    using write_out_patches_ok[OF p, of "bs @ tail f" d0] assms(2,5,6) d1 by (auto simp: dest_holds_def)
  obtain d3 where d3: "finish_flush d3 s2 p2 = (d', ps', Ok s' :: ('x, 'e, 'r) output_failure + output_stats)"
    "if patches f = [] then d3 = d2 else dest_position n d2 = (d3, Ok ())"
    using assms(1) t p fl(5) by (auto simp: finish_tail_def Let_def split: prod.splits sum.splits if_splits)
  have "dest_holds d0 fl d3"
  proof (cases "patches f = []")
    case True
    with d1(1) p fl(1) d3(2) show ?thesis by simp
  next
    case False
    with d3(2) dest_position_ok[of n d2 d3] fl(2,3) assms(2) show ?thesis
      by (auto simp: dest_holds_def dest_contains_def fresh_dest_def)
  qed
  with finish_flush_ok[OF d3(1)] fl show ?thesis by auto
qed

text \<open>
  C12: A finished output is what the muxer would have made in memory (output.rs:171-409). However
  the writer answered - short writes, interruptions, seeks - and whichever packets were sent, when
  \<open>finish\<close> succeeds the destination holds, from the place where the output began and leaving
  every byte before it and beyond the end alone, exactly the file that \<open>apply_to\<close> makes
  of the drained stream and the muxer's finish: the tail appended, the patches over it. The
  position is then the end of that file, and its length is the count reported.
\<close>

theorem output_matches_memory:
  assumes "fresh_dest d0" "output_run mx m0 d0 o' sent stream" "output_finish_all mx o' ps = (d, ps', Ok s)"
  shows "\<exists>m ps1 ps2 f fl. mo_mux o' = Some m \<and> pulse_check ps = (ps1, Ok ()) \<and> mx_finish mx m ps1 = (ps2, Ok f)
    \<and> apply_to (\<lambda>_. True) f stream = Some (fl, Ok ()) \<and> dest_holds d0 fl d \<and> os_emitted s = length fl"
  using assms(3)
proof (rule finish_all_ok)
  fix m ps1 ps2 f n
  assume a: "mo_mux o' = Some m" "pulse_check ps = (ps1, Ok ())" "mx_finish mx m ps1 = (ps2, Ok f)"
    "finish_validate f (os_emitted (mo_stats o')) = Ok n"
    "finish_tail f n (mo_dest o') (mo_stats o') ps2 = (d, ps', Ok s)"
  have c: "dest_holds d0 stream (mo_dest o')" "os_emitted (mo_stats o') = length stream"
    using run_carries[OF assms(2,1)] by (auto simp: carries_def)
  have n: "n = length stream + length (tail f)" "n \<le> u64_max" "list_all (patch_fits n) (patches f)"
    using a(4) c(2) by (auto simp: finish_validate_Ok)
  obtain fl where fl: "write_patches (stream @ tail f) (patches f) = Some fl" "dest_holds d0 fl d" "os_emitted s = length fl"
    using finish_tail_ok[OF a(5) assms(1) c n(1,3)] by blast
  have v: "and_then (ok_or OutOfRange (try_into u64_max (length stream))) (finish_validate f) = Ok n"
    using n a(4) c(2) by simp
  have "apply_to (\<lambda>_. True) f stream = Some (fl, Ok ())" unfolding apply_to_def v using fl(1) by simp
  with a fl show ?thesis by blast
qed

text \<open>
  C27: A send that fails says how much reached the destination (output.rs:300-345). Over a truthful
  writer the output then holds the stream so far and a prefix of what the muxer had pending, the
  failure's \<open>emitted\<close> is the length of that, the stage is \<open>Packet\<close>, and the output is dead:
  every later send and the finish are refused with \<open>Finished\<close>, and touch nothing.
\<close>

theorem output_failure_reports:
  assumes "fresh_dest d0" "honest d0" "output_run mx m0 d0 o1 sent stream" "output_send mx p o1 ps = (o2, ps2, Err e)"
    "length stream + length (send_pending mx p o1 ps) \<le> u64_max"
  shows "(\<exists>k \<le> length (send_pending mx p o1 ps).
      dest_holds d0 (stream @ take k (send_pending mx p o1 ps)) (mo_dest o2) \<and> fail_emitted e = length stream + k)
    \<and> fail_stage e = StagePacket \<and> output_is_failed o2
    \<and> (\<forall>q qs. output_send mx q o2 qs = (o2, qs, Err (output_failed (mo_stats o2) StagePacket (OutSession SFinished)))
         \<and> output_finish_all mx o2 qs = (mo_dest o2, qs, Err (output_failed (mo_stats o2) StageFinish (OutSession SFinished))))"
proof -
  have c: "carries d0 stream o1" "mo_mux o1 \<noteq> None" using run_carries[OF assms(3,1)] by auto
  then obtain m where m: "mo_mux o1 = Some m" by blast
  have c1: "carries d0 stream (o1\<lparr>mo_mux := None\<rparr>)" using c(1) by (simp add: carries_def)
  let ?bs = "send_pending mx p o1 ps"
  have "(\<exists>k \<le> length ?bs. dest_holds d0 (stream @ take k ?bs) (mo_dest o2) \<and> os_emitted (mo_stats o2) = length stream + k)
      \<and> (\<exists>x. e = output_failed (mo_stats o2) StagePacket x) \<and> mo_mux o2 = None"
  proof (rule send_cases[OF assms(4) m])
    fix x
    assume "Err e = Err (output_failed (mo_stats o2) StagePacket x)" "o2 = o1\<lparr>mo_mux := None\<rparr>" "?bs = []"
    with c1 show ?thesis by (auto simp: carries_def)
  next
    fix m1 m2 o3 p1 x
    assume a: "?bs = mx_pending mx m1" "drain mx m1 (o1\<lparr>mo_mux := None\<rparr>) p1 = (m2, o3, ps2, Err x)" "o2 = o3"
      "Err e = Err (output_failed (mo_stats o2) StagePacket x)"
    from drain_spec[OF assms(1) c1 a(2)] obtain k where k: "k \<le> length ?bs"
      "dest_holds d0 (stream @ take k ?bs) (mo_dest o2)" "mo_mux o2 = None"
      "counted ?bs k (dst_writer (mo_dest o1)) (length stream) (os_emitted (mo_stats o2)) (Err x)"
      using a(1,3) by auto
    then show ?thesis
      using counted_honest[OF assms(2) _ k(4) assms(5)] c(1) a(4) by (auto simp: carries_def)
  qed simp
  then show ?thesis
    by (auto simp: output_failed_def output_is_failed_def output_send_def output_finish_all_def Let_def)
qed

text \<open>
  A muxer that publishes two bytes, writes one a packet, and finishes with a tail and a patch over its
  first byte; a writer that is short and interrupted, one byte into a file of five.
\<close>

definition sample_muxer :: "(byte list, unit, unit) muxer" where
  "sample_muxer = \<lparr> mx_begin = (\<lambda>m ts h. (m, Ok timing_streaming)),
     mx_begin_exact = (\<lambda>m ts h. ([1, 2], Ok timing_with_patches)),
     mx_write = (\<lambda>m p ps. (m @ [3], ps, Ok ())), mx_pending = (\<lambda>m. m), mx_consume = drop,
     mx_finish = (\<lambda>m ps. (ps, Ok (finish_new [7] [\<lparr> patch_offset = 0, patch_bytes = [9] \<rparr>]))) \<rparr>"

definition sample_dest :: "unit write_answer list \<Rightarrow> unit destination" where
  "sample_dest as = \<lparr> dst_writer = \<lparr> wr_bytes = [100, 101, 102, 103, 104], wr_pos = 1, wr_writes = as, wr_seeks = [],
     wr_flushes = [] \<rparr>, dst_start = Some 1 \<rparr>"

definition sample_track :: track_info where
  "sample_track = track_base 0 KindVideo Av1 millis_base"

definition sample_output :: "unit writer \<Rightarrow> nat \<Rightarrow> (byte list, unit) media_output" where
  "sample_output w n = \<lparr> mo_mux = Some [], mo_dest = \<lparr> dst_writer = w, dst_start = Some 1 \<rparr>, mo_tracks = [sample_track],
     mo_timing = timing_with_patches, mo_exact = True,
     mo_stats = \<lparr> os_emitted = n, os_patches = 0, os_patch_bytes = 0, os_max_pending = 2 \<rparr> \<rparr>"

definition sample_writer :: "byte list \<Rightarrow> nat \<Rightarrow> unit write_answer list \<Rightarrow> unit writer" where
  "sample_writer bs n as = \<lparr> wr_bytes = bs, wr_pos = n, wr_writes = as, wr_seeks = [], wr_flushes = [] \<rparr>"

lemma sample_prepared: "prepare_unpublished sample_muxer True [] (sample_dest as) [sample_track] []
    = ([], Ok ((sample_output (sample_writer [100, 101, 102, 103, 104] 1 as) 0)\<lparr>mo_mux := Some [1, 2],
        mo_stats := \<lparr> os_emitted = 0, os_patches = 0, os_patch_bytes = 0, os_max_pending = 0 \<rparr>\<rparr>))"
  by (simp add: prepare_unpublished_def Let_def stopped_def pulse_check_def sample_muxer_def sample_dest_def
      can_patch_def timing_with_patches_def sample_output_def sample_writer_def)

lemma write_all_run:
  "write_all w [] n [] = (w, n, [], Ok ())"
  "wr_writes w = Takes k # as \<Longrightarrow> 0 < k \<Longrightarrow> k \<le> length bs \<Longrightarrow> n + k \<le> u64_max \<Longrightarrow>
    write_all w bs n [] = write_all (put_bytes (take k bs) (w\<lparr>wr_writes := as\<rparr>)) (drop k bs) (n + k) []"
  "wr_writes w = Interrupts # as \<Longrightarrow> bs \<noteq> [] \<Longrightarrow> write_all w bs n [] = write_all (w\<lparr>wr_writes := as\<rparr>) bs n []"
  "wr_writes w = Breaks e # as \<Longrightarrow> bs \<noteq> [] \<Longrightarrow> write_all w bs n [] = (w\<lparr>wr_writes := as\<rparr>, n, [], Err (OutIo (IoOs e)))"
  "wr_writes w = [] \<Longrightarrow> bs \<noteq> [] \<Longrightarrow> n + length bs \<le> u64_max \<Longrightarrow>
    write_all w bs n [] = (put_bytes bs w, n + length bs, [], Ok ())"
  by (subst write_all.simps, auto simp: stopped_def pulse_check_def writer_write_def Let_def checked_add_def min_absorb1
      write_all.simps[of _ "[]"] put_bytes_def)+

lemmas sample_eval = sample_output_def sample_muxer_def sample_dest_def sample_writer_def sample_track_def track_base_def
  with_payload_def drain_def Let_def dest_write_all_def write_all_run stopped_def pulse_check_def put_bytes_def
  overwrite_def u64_max_def

lemma sample_publish:
  "output_publish sample_muxer ((sample_output (sample_writer [100, 101, 102, 103, 104] 1 (Takes 1 # Interrupts # Takes 1 # as)) 0)
      \<lparr>mo_mux := Some [1, 2], mo_stats := \<lparr> os_emitted = 0, os_patches = 0, os_patch_bytes = 0, os_max_pending = 0 \<rparr>\<rparr>) []
    = Some (sample_output (sample_writer [100, 1, 2, 103, 104] 3 as) 2, [], Ok ())"
  by (simp add: output_publish_def sample_eval)

lemma sample_published: "output_run sample_muxer [] (sample_dest (Takes 1 # Interrupts # Takes 1 # as))
    (sample_output (sample_writer [100, 1, 2, 103, 104] 3 as) 2) [] [1, 2]"
  using published[OF sample_prepared _ sample_publish] by (simp add: sample_muxer_def)

lemma sample_send: "output_send sample_muxer (with_payload (Owned [5])) (sample_output (sample_writer [100, 1, 2, 103, 104] 3 []) 2) []
    = (sample_output (sample_writer [100, 1, 2, 3, 104] 4 []) 3, [], Ok ())"
  "output_send sample_muxer (with_payload (Owned [5])) (sample_output (sample_writer [100, 1, 2, 103, 104] 3 [Breaks ()]) 2) []
    = ((sample_output (sample_writer [100, 1, 2, 103, 104] 3 []) 2)\<lparr>mo_mux := None\<rparr>, [],
       Err \<lparr> fail_stage = StagePacket, fail_emitted = 2, fail_cause = OutIo (IoOs ()) \<rparr>)"
  "send_pending sample_muxer (with_payload (Owned [5])) (sample_output (sample_writer [100, 1, 2, 103, 104] 3 as) 2) [] = [3]"
  by (simp_all add: output_send_def send_pending_def validate_packet_def output_failed_def sample_eval)

lemma sample_finish:
  "output_finish_all sample_muxer (sample_output (sample_writer [100, 1, 2, 3, 104] 4 []) 3) []
    = (\<lparr> dst_writer = sample_writer [100, 9, 2, 3, 7] 5 [], dst_start = Some 1 \<rparr>, [],
       Ok \<lparr> os_emitted = 4, os_patches = 1, os_patch_bytes = 1, os_max_pending = 2 \<rparr>)"
  by (simp add: output_finish_all_def finish_tail_def finish_flush_def writer_flush_def finish_validate_def finish_new_def
      dest_position_def writer_seek_def can_patch_def timing_with_patches_def checked_add_def try_into_def sample_eval)

lemma sample_run: "output_run sample_muxer [] (sample_dest [Takes 1, Interrupts, Takes 1])
    (sample_output (sample_writer [100, 1, 2, 3, 104] 4 []) 3) [with_payload (Owned [5])] [1, 2, 3]"
  using sent[OF sample_published[of "[]"] sample_send(1)] by (simp add: sample_send(3))

lemma sample_fresh_dest: "fresh_dest (sample_dest as)"
  by (simp add: fresh_dest_def in_range_def sample_dest_def)

theorem output_matches_memory_witness:
  "\<exists>f fl. apply_to (\<lambda>_. True) f [1, 2, 3] = Some (fl, Ok ()) \<and> length fl = 4
     \<and> dest_holds (sample_dest [Takes 1, Interrupts, Takes 1]) fl
         \<lparr> dst_writer = sample_writer [100, 9, 2, 3, 7] 5 [], dst_start = Some 1 \<rparr>"
  using output_matches_memory[OF sample_fresh_dest sample_run sample_finish] by fastforce

theorem output_failure_reports_witness:
  "\<exists>k \<le> 1. dest_holds (sample_dest [Takes 1, Interrupts, Takes 1, Breaks ()]) ([1, 2] @ take k [3])
     \<lparr> dst_writer = sample_writer [100, 1, 2, 103, 104] 3 [], dst_start = Some 1 \<rparr>"
proof -
  have "honest (sample_dest [Takes 1, Interrupts, Takes 1, Breaks ()])" by (simp add: honest_def sample_dest_def)
  from output_failure_reports[OF sample_fresh_dest this sample_published sample_send(2), unfolded sample_send(3)]
  have "\<exists>k \<le> length [3 :: byte]. dest_holds (sample_dest [Takes 1, Interrupts, Takes 1, Breaks ()]) ([1, 2] @ take k [3])
      (mo_dest ((sample_output (sample_writer [100, 1, 2, 103, 104] 3 []) 2)\<lparr>mo_mux := None\<rparr>))"
    unfolding u64_max_def by auto
  then show ?thesis by (simp add: sample_output_def)
qed

end
