(* ===== verification/Frames.thy ===== *)
theory Frames
  imports Media_Track
begin

text \<open>
  Decoded frames: \<open>src/src/frame.rs\<close> and \<open>src/src/frame_storage.rs\<close>. A frame is a handle on a picture with
  its interpretation, timing and presentation. \<open>'l\<close> is the plane layout of the zenpixels package and
  \<open>'p\<close> the picture; both are only carried. Handles are values, so sharing is not represented.
\<close>

record crop =
  crop_x :: nat
  crop_y :: nat
  crop_width :: nat
  crop_height :: nat

record frame_geometry =
  geo_width :: nat
  geo_height :: nat
  geo_crop :: crop
  geo_render :: "(nat \<times> nat) option"

definition geometry_full :: "nat \<Rightarrow> nat \<Rightarrow> frame_geometry" where
  "geometry_full w h = \<lparr> geo_width = w, geo_height = h,
     geo_crop = \<lparr> crop_x = 0, crop_y = 0, crop_width = w, crop_height = h \<rparr>, geo_render = None \<rparr>"

record color_claim =
  claim_bitstream :: "cicp option"
  claim_container :: "cicp option"
  claim_resolved :: "cicp option"

definition color_claim_none :: color_claim where
  "color_claim_none = \<lparr> claim_bitstream = None, claim_container = None, claim_resolved = None \<rparr>"

record 'l frame_interpretation =
  fi_geometry :: frame_geometry
  fi_layout :: 'l
  fi_color :: color_claim
  fi_epoch :: nat

definition interpretation_new :: "frame_geometry \<Rightarrow> 'l \<Rightarrow> 'l frame_interpretation" where
  "interpretation_new g l = \<lparr> fi_geometry = g, fi_layout = l, fi_color = color_claim_none, fi_epoch = 0 \<rparr>"

definition interpretation_with_color :: "color_claim \<Rightarrow> 'l frame_interpretation \<Rightarrow> 'l frame_interpretation" where
  "interpretation_with_color c i = i\<lparr>fi_color := c\<rparr>"

definition interpretation_with_epoch :: "nat \<Rightarrow> 'l frame_interpretation \<Rightarrow> 'l frame_interpretation" where
  "interpretation_with_epoch e i = i\<lparr>fi_epoch := e\<rparr>"

record frame_timing =
  ft_pts :: "timestamp option"
  ft_duration :: "nat option"
  ft_ordinal :: "nat option"
  ft_offset :: "nat option"

definition frame_timing_default :: frame_timing where
  "frame_timing_default = \<lparr> ft_pts = None, ft_duration = None, ft_ordinal = None, ft_offset = None \<rparr>"

definition frame_timing_at :: "timestamp \<Rightarrow> frame_timing" where
  "frame_timing_at t = \<lparr> ft_pts = Some t, ft_duration = None, ft_ordinal = None, ft_offset = None \<rparr>"

definition timing_with_duration_ticks :: "nat \<Rightarrow> frame_timing \<Rightarrow> frame_timing" where
  "timing_with_duration_ticks n t = t\<lparr>ft_duration := Some n\<rparr>"

definition timing_with_packet :: "nat option \<Rightarrow> nat option \<Rightarrow> frame_timing \<Rightarrow> frame_timing" where
  "timing_with_packet n off t = t\<lparr>ft_ordinal := n, ft_offset := off\<rparr>"

record presentation =
  keyframe :: bool
  show_existing :: bool

definition presentation_default :: presentation where
  "presentation_default = \<lparr> keyframe = False, show_existing = False \<rparr>"

definition presentation_keyframe :: presentation where
  "presentation_keyframe = \<lparr> keyframe = True, show_existing = False \<rparr>"

definition presentation_show_existing :: presentation where
  "presentation_show_existing = \<lparr> keyframe = False, show_existing = True \<rparr>"

record ('p, 'l) frame =
  fr_picture :: 'p
  fr_interpretation :: "'l frame_interpretation"
  fr_timing :: frame_timing
  fr_presentation :: presentation

definition frame_new :: "'p \<Rightarrow> 'l frame_interpretation \<Rightarrow> frame_timing \<Rightarrow> presentation \<Rightarrow> ('p, 'l) frame" where
  "frame_new p i t s = \<lparr> fr_picture = p, fr_interpretation = i, fr_timing = t, fr_presentation = s \<rparr>"

definition represent :: "frame_timing \<Rightarrow> presentation \<Rightarrow> ('p, 'l) frame \<Rightarrow> ('p, 'l) frame" where
  "represent t s f = \<lparr> fr_picture = fr_picture f, fr_interpretation = fr_interpretation f,
     fr_timing = t, fr_presentation = s \<rparr>"

end
