(* ===== verification/Media_Session.thy ===== *)
theory Media_Session
  imports Media_Track Media_Staging Frames
begin

text \<open>
  Codec sessions: \<open>zencodec-media/src/session.rs\<close>. The traits \<open>VideoDecoder\<close> and \<open>VideoEncoder\<close> are
  records of operations on a state of the codec's own; \<open>'f\<close> is the type of frames. \<open>FusedDecoder\<close> and
  \<open>FusedEncoder\<close> wrap them; the pumps send with back-pressure and drain. A pump that never
  returns is \<open>None\<close>. The locale \<open>session\<close> states the protocol that the module's documentation asks of a codec.
\<close>

subsection \<open>Codecs\<close>

record 'l video_stream_info =
  stream_interpretation :: "'l frame_interpretation"
  reorder_depth :: "nat option"

definition stream_info_new :: "'l frame_interpretation \<Rightarrow> 'l video_stream_info" where
  "stream_info_new i = \<lparr> stream_interpretation = i, reorder_depth = None \<rparr>"

definition with_video :: "video_track_info \<Rightarrow> codec_config \<Rightarrow> codec_config" where
  "with_video v c = c\<lparr>cfg_video := Some v\<rparr>"

definition with_private :: "byte list \<Rightarrow> codec_config \<Rightarrow> codec_config" where
  "with_private bs c = c\<lparr>cfg_private := Some bs\<rparr>"

definition with_epoch :: "nat \<Rightarrow> codec_config \<Rightarrow> codec_config" where
  "with_epoch n c = c\<lparr>cfg_epoch := n\<rparr>"

record ('s, 'f, 'i, 'e, 'r) video_decoder =
  vd_configure :: "'s \<Rightarrow> codec_config \<Rightarrow> 'r pulse \<Rightarrow> 's \<times> 'r pulse \<times> (('e, 'r) session_error + unit)"
  vd_send :: "'s \<Rightarrow> packet \<Rightarrow> 'r pulse \<Rightarrow> 's \<times> packet \<times> 'r pulse \<times> (('e, 'r) session_error + send_status)"
  vd_receive :: "'s \<Rightarrow> 'r pulse \<Rightarrow> 's \<times> 'r pulse \<times> (('e, 'r) session_error + 'f receive)"
  vd_end_input :: "'s \<Rightarrow> 's \<times> (('e, 'r) session_error + unit)"
  vd_reset :: "'s \<Rightarrow> 's \<times> (('e, 'r) session_error + unit)"
  vd_stream_info :: "'s \<Rightarrow> 'i option"

record ('s, 'f, 'i, 'e, 'r) video_encoder =
  ve_send :: "'s \<Rightarrow> 'f \<Rightarrow> 'r pulse \<Rightarrow> 's \<times> 'r pulse \<times> (('e, 'r) session_error + send_status)"
  ve_receive :: "'s \<Rightarrow> 'r pulse \<Rightarrow> 's \<times> 'r pulse \<times> (('e, 'r) session_error + packet receive)"
  ve_end_input :: "'s \<Rightarrow> 's \<times> (('e, 'r) session_error + unit)"
  ve_output_config :: "'s \<Rightarrow> codec_config option"
  ve_output_fidelity :: "'s \<Rightarrow> 'i option"

subsection \<open>Fused sessions\<close>

record 's fused_session =
  fs_inner :: 's
  fs_failed :: bool

definition fused_new :: "'s \<Rightarrow> 's fused_session" where
  "fused_new s = \<lparr> fs_inner = s, fs_failed = False \<rparr>"

definition into_inner :: "'s fused_session \<Rightarrow> 's" where
  "into_inner = fs_inner"

text \<open>
  \<open>guard\<close> around a call that may change what its closure borrows, here \<open>x\<close>: the packet of a send,
  or nothing. The flag is set before the pulse is asked and the call is made.
\<close>

definition fused_guard ::
    "('s \<Rightarrow> 'r pulse \<Rightarrow> 's \<times> 'x \<times> 'r pulse \<times> (('e, 'r) session_error + 'a)) \<Rightarrow> 's fused_session \<Rightarrow> 'x \<Rightarrow> 'r pulse
      \<Rightarrow> 's fused_session \<times> 'x \<times> 'r pulse \<times> (('e, 'r) session_error + 'a)" where
  "fused_guard f d x ps =
     (if fs_failed d then (d, x, ps, Err SFinished)
      else let d = d\<lparr>fs_failed := True\<rparr> in case pulse_check ps of
        (ps, Inl r) \<Rightarrow> (d, x, ps, Err (SCancelled r))
      | (ps, Inr _) \<Rightarrow> (case f (fs_inner d) ps of
          (s, x, ps, r) \<Rightarrow> (\<lparr> fs_inner = s, fs_failed = \<not> is_ok r \<rparr>, x, ps, r)))"

definition fused_call ::
    "('s \<Rightarrow> 'r pulse \<Rightarrow> 's \<times> 'r pulse \<times> (('e, 'r) session_error + 'a)) \<Rightarrow> 's fused_session \<Rightarrow> 'r pulse
      \<Rightarrow> 's fused_session \<times> 'r pulse \<times> (('e, 'r) session_error + 'a)" where
  "fused_call f d ps = (case fused_guard (\<lambda>s ps. case f s ps of (s, ps, r) \<Rightarrow> (s, (), ps, r)) d () ps of
     (d, _, ps, r) \<Rightarrow> (d, ps, r))"

definition fused_end ::
    "('s \<Rightarrow> 's \<times> (('e, 'r) session_error + unit)) \<Rightarrow> 's fused_session
      \<Rightarrow> 's fused_session \<times> (('e, 'r) session_error + unit)" where
  "fused_end f d =
     (if fs_failed d then (d, Err SFinished)
      else case f (fs_inner d) of (s, r) \<Rightarrow> (\<lparr> fs_inner = s, fs_failed = \<not> is_ok r \<rparr>, r))"

definition fused_reset ::
    "('s \<Rightarrow> 's \<times> (('e, 'r) session_error + unit)) \<Rightarrow> 's fused_session
      \<Rightarrow> 's fused_session \<times> (('e, 'r) session_error + unit)" where
  "fused_reset f d = (case f (fs_inner d) of (s, r) \<Rightarrow> (\<lparr> fs_inner = s, fs_failed = \<not> is_ok r \<rparr>, r))"

definition fused_decoder ::
    "('s, 'f, 'i, 'e, 'r) video_decoder \<Rightarrow> ('s fused_session, 'f, 'i, 'e, 'r) video_decoder" where
  "fused_decoder c =
     \<lparr> vd_configure = (\<lambda>d cfg. fused_call (\<lambda>s. vd_configure c s cfg) d),
       vd_send = (\<lambda>d p. fused_guard (\<lambda>s. vd_send c s p) d p),
       vd_receive = fused_call (vd_receive c),
       vd_end_input = fused_end (vd_end_input c),
       vd_reset = fused_reset (vd_reset c),
       vd_stream_info = vd_stream_info c \<circ> fs_inner \<rparr>"

text \<open>The encoder's \<open>end_input\<close> is guarded with a pulse that never stops.\<close>

definition fused_encoder ::
    "('s, 'f, 'i, 'e, 'r) video_encoder \<Rightarrow> ('s fused_session, 'f, 'i, 'e, 'r) video_encoder" where
  "fused_encoder c =
     \<lparr> ve_send = (\<lambda>d f. fused_call (\<lambda>s. ve_send c s f) d),
       ve_receive = fused_call (ve_receive c),
       ve_end_input = (\<lambda>d. case fused_call (\<lambda>s ps. case ve_end_input c s of (s, r) \<Rightarrow> (s, ps, r)) d [] of
         (d, _, r) \<Rightarrow> (d, r)),
       ve_output_config = ve_output_config c \<circ> fs_inner,
       ve_output_fidelity = ve_output_fidelity c \<circ> fs_inner \<rparr>"

text \<open>The type-erasing shims convert the codec's own error and forward everything else.\<close>

definition erase_result :: "('e \<Rightarrow> 'g) \<Rightarrow> ('e, 'r) session_error + 'a \<Rightarrow> ('g, 'r) session_error + 'a" where
  "erase_result er = map_sum (map_codec er) id"

definition decoder_shim ::
    "('e \<Rightarrow> 'g) \<Rightarrow> ('s, 'f, 'i, 'e, 'r) video_decoder \<Rightarrow> ('s, 'f, 'i, 'g, 'r) video_decoder" where
  "decoder_shim er c =
     \<lparr> vd_configure = (\<lambda>s cfg ps. case vd_configure c s cfg ps of (s, ps, r) \<Rightarrow> (s, ps, erase_result er r)),
       vd_send = (\<lambda>s p ps. case vd_send c s p ps of (s, p, ps, r) \<Rightarrow> (s, p, ps, erase_result er r)),
       vd_receive = (\<lambda>s ps. case vd_receive c s ps of (s, ps, r) \<Rightarrow> (s, ps, erase_result er r)),
       vd_end_input = (\<lambda>s. case vd_end_input c s of (s, r) \<Rightarrow> (s, erase_result er r)),
       vd_reset = (\<lambda>s. case vd_reset c s of (s, r) \<Rightarrow> (s, erase_result er r)),
       vd_stream_info = vd_stream_info c \<rparr>"

definition encoder_shim ::
    "('e \<Rightarrow> 'g) \<Rightarrow> ('s, 'f, 'i, 'e, 'r) video_encoder \<Rightarrow> ('s, 'f, 'i, 'g, 'r) video_encoder" where
  "encoder_shim er c =
     \<lparr> ve_send = (\<lambda>s f ps. case ve_send c s f ps of (s, ps, r) \<Rightarrow> (s, ps, erase_result er r)),
       ve_receive = (\<lambda>s ps. case ve_receive c s ps of (s, ps, r) \<Rightarrow> (s, ps, erase_result er r)),
       ve_end_input = (\<lambda>s. case ve_end_input c s of (s, r) \<Rightarrow> (s, erase_result er r)),
       ve_output_config = ve_output_config c,
       ve_output_fidelity = ve_output_fidelity c \<rparr>"

definition erase_video_decoder ::
    "('e \<Rightarrow> 'g) \<Rightarrow> ('s, 'f, 'i, 'e, 'r) video_decoder \<Rightarrow> ('s fused_session, 'f, 'i, 'g, 'r) video_decoder" where
  "erase_video_decoder er c = decoder_shim er (fused_decoder c)"

definition erase_video_encoder ::
    "('e \<Rightarrow> 'g) \<Rightarrow> ('s, 'f, 'i, 'e, 'r) video_encoder \<Rightarrow> ('s fused_session, 'f, 'i, 'g, 'r) video_encoder" where
  "erase_video_encoder er c = encoder_shim er (fused_encoder c)"

subsection \<open>Pumps\<close>

datatype ('u, 'd) pump_error = Upstream 'u | Downstream 'd

type_synonym ('k, 'o, 'y) on_output = "'k \<Rightarrow> 'o \<Rightarrow> 'k \<times> ('y + unit)"

type_synonym ('s, 'i, 'k, 'e, 'r, 'y) pumped =
  "('s \<times> 'i \<times> 'k \<times> 'r pulse \<times> ((('e, 'r) session_error, 'y) pump_error + unit)) option"

text \<open>
  The loops are the same for packets into frames and frames into packets; \<open>sd\<close> and \<open>rcv\<close> are the
  codec's \<open>send\<close>, with the input it borrows, and \<open>receive\<close>.
\<close>

partial_function (option) send_loop ::
    "('s \<Rightarrow> 'i \<Rightarrow> 'r pulse \<Rightarrow> 's \<times> 'i \<times> 'r pulse \<times> (('e, 'r) session_error + send_status))
      \<Rightarrow> ('s \<Rightarrow> 'r pulse \<Rightarrow> 's \<times> 'r pulse \<times> (('e, 'r) session_error + 'o receive))
      \<Rightarrow> ('k, 'o, 'y) on_output \<Rightarrow> 's \<Rightarrow> 'i \<Rightarrow> 'k \<Rightarrow> 'r pulse \<Rightarrow> ('s, 'i, 'k, 'e, 'r, 'y) pumped" where
  "send_loop sd rcv out s i k ps = (case sd s i ps of
     (s, i, ps, Inl e) \<Rightarrow> Some (s, i, k, ps, Err (Upstream e))
   | (s, i, ps, Inr Accepted) \<Rightarrow> Some (s, i, k, ps, Ok ())
   | (s, i, ps, Inr ReceivePending) \<Rightarrow> (case rcv s ps of
       (s, ps, Inl e) \<Rightarrow> Some (s, i, k, ps, Err (Upstream e))
     | (s, ps, Inr (Ready x)) \<Rightarrow> (case out k x of
         (k, Inl y) \<Rightarrow> Some (s, i, k, ps, Err (Downstream y))
       | (k, Inr _) \<Rightarrow> send_loop sd rcv out s i k ps)
     | (s, ps, Inr _) \<Rightarrow> Some (s, i, k, ps, Err (Upstream (SProtocol ReceivePendingWithoutOutput)))))"

type_synonym ('s, 'k, 'e, 'r, 'y) drained =
  "('s \<times> 'k \<times> 'r pulse \<times> ((('e, 'r) session_error, 'y) pump_error + unit)) option"

text \<open>The loop over \<open>receive\<close>, before and after \<open>end_input\<close>.\<close>

partial_function (option) deliver_loop ::
    "bool \<Rightarrow> ('s \<Rightarrow> 'r pulse \<Rightarrow> 's \<times> 'r pulse \<times> (('e, 'r) session_error + 'o receive))
      \<Rightarrow> ('k, 'o, 'y) on_output \<Rightarrow> 's \<Rightarrow> 'k \<Rightarrow> 'r pulse \<Rightarrow> ('s, 'k, 'e, 'r, 'y) drained" where
  "deliver_loop at_end rcv out s k ps = (case rcv s ps of
     (s, ps, Inl e) \<Rightarrow> Some (s, k, ps, Err (Upstream e))
   | (s, ps, Inr (Ready x)) \<Rightarrow> (case out k x of
       (k, Inl y) \<Rightarrow> Some (s, k, ps, Err (Downstream y))
     | (k, Inr _) \<Rightarrow> deliver_loop at_end rcv out s k ps)
   | (s, ps, Inr NeedInput) \<Rightarrow> Some (s, k, ps, if at_end then Err (Upstream (SProtocol NoProgressMade)) else Ok ())
   | (s, ps, Inr EndOfStream) \<Rightarrow>
       Some (s, k, ps, if at_end then Ok () else Err (Upstream (SProtocol EndOfStreamBeforeEndInput))))"

definition send_until_accepted ::
    "('s \<Rightarrow> 'i \<Rightarrow> 'r pulse \<Rightarrow> 's \<times> 'i \<times> 'r pulse \<times> (('e, 'r) session_error + send_status))
      \<Rightarrow> ('s \<Rightarrow> 'r pulse \<Rightarrow> 's \<times> 'r pulse \<times> (('e, 'r) session_error + 'o receive))
      \<Rightarrow> ('k, 'o, 'y) on_output \<Rightarrow> 's \<Rightarrow> 'i \<Rightarrow> 'k \<Rightarrow> 'r pulse \<Rightarrow> ('s, 'i, 'k, 'e, 'r, 'y) pumped" where
  "send_until_accepted sd rcv out s i k ps = (case send_loop sd rcv out s i k ps of
     None \<Rightarrow> None
   | Some (s, i, k, ps, Inl e) \<Rightarrow> Some (s, i, k, ps, Err e)
   | Some (s, i, k, ps, Inr _) \<Rightarrow> map_option (\<lambda>(s, k, ps, r). (s, i, k, ps, r)) (deliver_loop False rcv out s k ps))"

definition send_packet_until_accepted ::
    "('s, 'f, 'i, 'e, 'r) video_decoder \<Rightarrow> ('k, 'f, 'y) on_output \<Rightarrow> 's \<Rightarrow> packet \<Rightarrow> 'k \<Rightarrow> 'r pulse
      \<Rightarrow> ('s, packet, 'k, 'e, 'r, 'y) pumped" where
  "send_packet_until_accepted c = send_until_accepted (vd_send c) (vd_receive c)"

definition send_frame :: "('s, 'f, 'i, 'e, 'r) video_encoder \<Rightarrow> 's \<Rightarrow> 'f \<Rightarrow> 'r pulse
      \<Rightarrow> 's \<times> 'f \<times> 'r pulse \<times> (('e, 'r) session_error + send_status)" where
  "send_frame c s f ps = (case ve_send c s f ps of (s, ps, r) \<Rightarrow> (s, f, ps, r))"

definition send_frame_until_accepted ::
    "('s, 'f, 'i, 'e, 'r) video_encoder \<Rightarrow> ('k, packet, 'y) on_output \<Rightarrow> 's \<Rightarrow> 'f \<Rightarrow> 'k \<Rightarrow> 'r pulse
      \<Rightarrow> ('s, 'f, 'k, 'e, 'r, 'y) pumped" where
  "send_frame_until_accepted c = send_until_accepted (send_frame c) (ve_receive c)"

definition drain_session ::
    "('s \<Rightarrow> 's \<times> (('e, 'r) session_error + unit))
      \<Rightarrow> ('s \<Rightarrow> 'r pulse \<Rightarrow> 's \<times> 'r pulse \<times> (('e, 'r) session_error + 'o receive))
      \<Rightarrow> ('k, 'o, 'y) on_output \<Rightarrow> 's \<Rightarrow> 'k \<Rightarrow> 'r pulse \<Rightarrow> ('s, 'k, 'e, 'r, 'y) drained" where
  "drain_session fin rcv out s k ps = (case fin s of
     (s, Inl e) \<Rightarrow> Some (s, k, ps, Err (Upstream e))
   | (s, Inr _) \<Rightarrow> deliver_loop True rcv out s k ps)"

definition drain_decoder ::
    "('s, 'f, 'i, 'e, 'r) video_decoder \<Rightarrow> ('k, 'f, 'y) on_output \<Rightarrow> 's \<Rightarrow> 'k \<Rightarrow> 'r pulse
      \<Rightarrow> ('s, 'k, 'e, 'r, 'y) drained" where
  "drain_decoder c = drain_session (vd_end_input c) (vd_receive c)"

definition drain_encoder ::
    "('s, 'f, 'i, 'e, 'r) video_encoder \<Rightarrow> ('k, packet, 'y) on_output \<Rightarrow> 's \<Rightarrow> 'k \<Rightarrow> 'r pulse
      \<Rightarrow> ('s, 'k, 'e, 'r, 'y) drained" where
  "drain_encoder c = drain_session (ve_end_input c) (ve_receive c)"

subsection \<open>The protocol\<close>

text \<open>What reaches the sink: the outputs in order, until it fails.\<close>

fun feed :: "('k, 'o, 'y) on_output \<Rightarrow> 'k \<Rightarrow> 'o list \<Rightarrow> 'k \<times> ('y + unit)" where
  "feed out k [] = (k, Ok ())"
| "feed out k (x # xs) = (case out k x of (k, Inl y) \<Rightarrow> (k, Err y) | (k, Inr _) \<Rightarrow> feed out k xs)"

lemma feed_append: "feed out k (xs @ ys) = (case feed out k xs of (k, Inl y) \<Rightarrow> (k, Err y) | (k, Inr _) \<Rightarrow> feed out k ys)"
  by (induction xs arbitrary: k) (auto split: prod.splits sum.splits)

lemma feed_prefix: "feed out k xs = (k', Err y) \<Longrightarrow> feed out k (xs @ ys) = (k', Err y)"
  by (simp add: feed_append)

text \<open>An error reported as the codec's is one that a call of the codec returned.\<close>

definition blamed ::
    "('s \<Rightarrow> 'i \<Rightarrow> 'r pulse \<Rightarrow> 's \<times> 'i \<times> 'r pulse \<times> (('e, 'r) session_error + send_status))
      \<Rightarrow> ('s \<Rightarrow> 'r pulse \<Rightarrow> 's \<times> 'r pulse \<times> (('e, 'r) session_error + 'o receive))
      \<Rightarrow> ('s \<Rightarrow> 's \<times> (('e, 'r) session_error + unit)) \<Rightarrow> ('e, 'r) session_error \<Rightarrow> bool" where
  "blamed sd rcv fin e \<longleftrightarrow> (\<exists>s i ps s' i' ps'. sd s i ps = (s', i', ps', Err e))
     \<or> (\<exists>s ps s' ps'. rcv s ps = (s', ps', Err e)) \<or> (\<exists>s s'. fin s = (s', Err e))"

text \<open>What a pump did with the outputs \<open>xs\<close>: delivered them all, or met the sink's or the codec's own error.\<close>

definition delivered ::
    "('s \<Rightarrow> 'i \<Rightarrow> 'r pulse \<Rightarrow> 's \<times> 'i \<times> 'r pulse \<times> (('e, 'r) session_error + send_status))
      \<Rightarrow> ('s \<Rightarrow> 'r pulse \<Rightarrow> 's \<times> 'r pulse \<times> (('e, 'r) session_error + 'o receive))
      \<Rightarrow> ('s \<Rightarrow> 's \<times> (('e, 'r) session_error + unit))
      \<Rightarrow> ('k, 'o, 'y) on_output \<Rightarrow> 'k \<Rightarrow> 'o list \<Rightarrow> 'k \<Rightarrow> (('e, 'r) session_error, 'y) pump_error + unit \<Rightarrow> bool" where
  "delivered sd rcv fin out k xs k' r \<longleftrightarrow> (case r of
     Inr _ \<Rightarrow> feed out k xs = (k', Ok ())
   | Inl (Downstream y) \<Rightarrow> feed out k xs = (k', Err y)
   | Inl (Upstream e) \<Rightarrow> blamed sd rcv fin e \<and> (\<exists>n. feed out k (take n xs) = (k', Ok ())))"

lemma delivered_Cons:
  "out k x = (k1, Ok ()) \<Longrightarrow> delivered sd rcv fin out k1 xs k' r \<Longrightarrow> delivered sd rcv fin out k (x # xs) k' r"
  by (auto simp: delivered_def split: sum.splits pump_error.splits intro: exI[of _ "Suc _"])

lemma delivered_append:
  assumes "delivered sd rcv fin out k xs k1 (Ok ())" "delivered sd rcv fin out k1 ys k' r"
  shows "delivered sd rcv fin out k (xs @ ys) k' r"
  using assms(1,2)
  by (auto simp: delivered_def feed_append split: sum.splits pump_error.splits intro: exI[of _ "length xs + _"])

text \<open>
  The protocol of a session, on the calls that succeed: \<open>ready\<close> are the outputs it has to give, in
  order, before it wants input (or before the end, once input has ended). Nothing is said of the state
  that a failed call leaves.
\<close>

locale session =
  fixes sd :: "'s \<Rightarrow> 'i \<Rightarrow> 'r pulse \<Rightarrow> 's \<times> 'i \<times> 'r pulse \<times> (('e, 'r) session_error + send_status)"
    and rcv :: "'s \<Rightarrow> 'r pulse \<Rightarrow> 's \<times> 'r pulse \<times> (('e, 'r) session_error + 'o receive)"
    and fin :: "'s \<Rightarrow> 's \<times> (('e, 'r) session_error + unit)"
    and valid :: "'s \<Rightarrow> bool"
    and ready :: "'s \<Rightarrow> 'o list"
    and ended :: "'s \<Rightarrow> bool"
  assumes send_pending: "\<lbrakk>valid s; sd s i ps = (s', i', ps', Ok ReceivePending)\<rbrakk>
      \<Longrightarrow> valid s' \<and> i' = i \<and> ready s \<noteq> [] \<and> ready s' = ready s \<and> ended s' = ended s"
    and send_accepted: "\<lbrakk>valid s; sd s i ps = (s', i', ps', Ok Accepted)\<rbrakk>
      \<Longrightarrow> valid s' \<and> \<not> ended s \<and> \<not> ended s' \<and> (\<exists>new. ready s' = ready s @ new)"
    and receive_ready: "\<lbrakk>valid s; rcv s ps = (s', ps', Ok x); ready s = y # ys\<rbrakk>
      \<Longrightarrow> valid s' \<and> x = Ready y \<and> ready s' = ys \<and> ended s' = ended s"
    and receive_empty: "\<lbrakk>valid s; rcv s ps = (s', ps', Ok x); ready s = []\<rbrakk>
      \<Longrightarrow> valid s' \<and> x = (if ended s then EndOfStream else NeedInput) \<and> ready s' = [] \<and> ended s' = ended s"
    and end_accepted: "\<lbrakk>valid s; fin s = (s', Ok ())\<rbrakk>
      \<Longrightarrow> valid s' \<and> ended s' \<and> (\<exists>new. ready s' = ready s @ new)"
begin

lemma receive_cases:
  assumes "valid s"
  obtains s' ps' e where "rcv s ps = (s', ps', Err e)" "blamed sd rcv fin e"
  | s' ps' y where "rcv s ps = (s', ps', Ok (Ready y))" "valid s'" "ready s = y # ready s'" "ended s' = ended s"
  | s' ps' where "rcv s ps = (s', ps', Ok (if ended s then EndOfStream else NeedInput))" "valid s'" "ready s = []"
      "ready s' = []" "ended s' = ended s"
proof -
  obtain s' ps' x where r: "rcv s ps = (s', ps', x)" by (cases "rcv s ps") auto
  show ?thesis
  proof (cases x)
    case (Inl e)
    with r show ?thesis by (intro that(1)[of s' ps' e]) (auto simp: blamed_def)
  next
    case (Inr z)
    show ?thesis
    proof (cases "ready s")
      case Nil
      with receive_empty[OF assms, of ps s' ps' z] r Inr show ?thesis by (intro that(3)[of s' ps']) auto
    next
      case (Cons y ys)
      with receive_ready[OF assms, of ps s' ps' z y ys] r Inr show ?thesis by (intro that(2)[of s' ps' y]) auto
    qed
  qed
qed

lemma deliver_loop_delivers:
  assumes "valid s"
  shows "\<exists>s' k' ps' r. deliver_loop (ended s) rcv out s k ps = Some (s', k', ps', r) \<and> delivered sd rcv fin out k (ready s) k' r
    \<and> (r = Ok () \<longrightarrow> valid s' \<and> ready s' = [] \<and> ended s' = ended s)"
  using assms
proof (induction "length (ready s)" arbitrary: s k ps)
  case 0
  from 0(2) show ?case
    by (rule receive_cases[of s ps]; subst deliver_loop.simps) (use 0 in \<open>auto simp: delivered_def\<close>)
next
  case (Suc n)
  from Suc(3) show ?case
  proof (rule receive_cases[of s ps])
    fix s' ps' y
    assume r: "rcv s ps = (s', ps', Ok (Ready y))" "valid s'" "ready s = y # ready s'" "ended s' = ended s"
    obtain k1 z where o: "out k y = (k1, z)" by fastforce
    show ?thesis
    proof (cases z)
      case (Inl e)
      then show ?thesis by (subst deliver_loop.simps) (simp add: r o delivered_def)
    next
      case (Inr u)
      moreover have "n = length (ready s')" using Suc(2) r(3) by auto
      ultimately show ?thesis
        using Suc(1)[of s' k1 ps'] r o by (subst deliver_loop.simps) (auto intro: delivered_Cons)
    qed
  qed (use Suc(2) in \<open>auto simp: deliver_loop.simps delivered_def intro: exI[of _ 0]\<close>)
qed

text \<open>Sending with back-pressure: only what was ready is delivered before the input is accepted.\<close>

lemma send_loop_delivers:
  assumes "valid s"
  shows "\<exists>s' i' k' ps' r. send_loop sd rcv out s i k ps = Some (s', i', k', ps', r)
    \<and> (\<exists>n. delivered sd rcv fin out k (take n (ready s)) k' r
         \<and> (r = Ok () \<longrightarrow> valid s' \<and> \<not> ended s \<and> \<not> ended s' \<and> (\<exists>new. ready s' = drop n (ready s) @ new)
              \<and> (\<exists>s0 ps0. valid s0 \<and> sd s0 i ps0 = (s', i', ps', Ok Accepted))))"
  using assms
proof (induction "length (ready s)" arbitrary: s i k ps rule: less_induct)
  case less
  obtain s1 i1 p1 x where x: "sd s i ps = (s1, i1, p1, x)" by (cases "sd s i ps") auto
  show ?case
  proof (cases x)
    case (Inl e)
    then have "blamed sd rcv fin e" using x by (auto simp: blamed_def)
    with x Inl show ?thesis by (auto simp: send_loop.simps delivered_def intro: exI[of _ 0])
  next
    case (Inr st)
    show ?thesis
    proof (cases st)
      case Accepted
      with send_accepted[OF less.prems, of i ps s1 i1 p1] x Inr less.prems show ?thesis
        by (auto simp: send_loop.simps delivered_def intro!: exI[of _ 0])
    next
      case ReceivePending
      with send_pending[OF less.prems, of i ps s1 i1 p1] x Inr
      have s1: "valid s1" "ready s \<noteq> []" "ready s1 = ready s" "ended s1 = ended s" "i1 = i" by auto
      from s1(1) show ?thesis
      proof (rule receive_cases[of s1 p1])
        fix s' ps' y
        assume r: "rcv s1 p1 = (s', ps', Ok (Ready y))" "valid s'" "ready s1 = y # ready s'" "ended s' = ended s1"
        obtain k1 z where o: "out k y = (k1, z)" by fastforce
        show ?thesis
        proof (cases z)
          case (Inl e)
          then show ?thesis
            using x Inr ReceivePending r o s1
            by (auto simp: send_loop.simps[of _ _ _ s] delivered_def intro!: exI[of _ 1])
        next
          case ok: (Inr u)
          have "length (ready s') < length (ready s)" using r(3) s1(3) by simp
          from less.hyps[OF this r(2), of i1 k1 ps'] s1(5) obtain s2 i2 k2 p2 q n where
            "send_loop sd rcv out s' i1 k1 ps' = Some (s2, i2, k2, p2, q)" "delivered sd rcv fin out k1 (take n (ready s')) k2 q"
            "q = Ok () \<longrightarrow> valid s2 \<and> \<not> ended s' \<and> \<not> ended s2 \<and> (\<exists>new. ready s2 = drop n (ready s') @ new)
              \<and> (\<exists>s0 ps0. valid s0 \<and> sd s0 i ps0 = (s2, i2, p2, Ok Accepted))"
            by blast
          then show ?thesis
            using x Inr ReceivePending r o ok s1 delivered_Cons[of out k y k1 sd rcv fin "take n (ready s')" k2 q]
            by (auto simp: send_loop.simps[of _ _ _ s] intro!: exI[of _ "Suc n"])
        qed
      qed (use x Inr ReceivePending s1 in \<open>auto simp: send_loop.simps delivered_def intro: exI[of _ 0]\<close>)
    qed
  qed
qed

lemma send_until_accepted_delivers:
  assumes "valid s"
  shows "\<exists>s' i' k' ps' r os. send_until_accepted sd rcv out s i k ps = Some (s', i', k', ps', r)
    \<and> delivered sd rcv fin out k os k' r
    \<and> (\<exists>n new. os = take n (ready s) \<or> os = ready s @ new)
    \<and> (r = Ok () \<longrightarrow> valid s' \<and> ready s' = [] \<and> \<not> ended s' \<and> (\<exists>new. os = ready s @ new)
         \<and> (\<exists>s0 ps0 s1 ps1 before. valid s0 \<and> sd s0 i ps0 = (s1, i', ps1, Ok Accepted) \<and> os = before @ ready s1))"
proof -
  obtain s1 i1 k1 p1 q n where a: "send_loop sd rcv out s i k ps = Some (s1, i1, k1, p1, q)"
    "delivered sd rcv fin out k (take n (ready s)) k1 q"
    "q = Ok () \<longrightarrow> valid s1 \<and> \<not> ended s \<and> \<not> ended s1 \<and> (\<exists>new. ready s1 = drop n (ready s) @ new)
      \<and> (\<exists>s0 ps0. valid s0 \<and> sd s0 i ps0 = (s1, i1, p1, Ok Accepted))"
    using send_loop_delivers[OF assms, of out i k ps] by blast
  show ?thesis
  proof (cases q)
    case (Inl e)
    with a show ?thesis by (auto simp: send_until_accepted_def)
  next
    case (Inr u)
    with a obtain new where s1: "valid s1" "\<not> ended s1" "ready s1 = drop n (ready s) @ new" by auto
    obtain s' k' ps' r where b: "deliver_loop (ended s1) rcv out s1 k1 p1 = Some (s', k', ps', r)"
      "delivered sd rcv fin out k1 (ready s1) k' r" "r = Ok () \<longrightarrow> valid s' \<and> ready s' = [] \<and> ended s' = ended s1"
      using deliver_loop_delivers[OF s1(1), of out k1 p1] by blast
    have "delivered sd rcv fin out k (take n (ready s) @ ready s1) k' r"
      using delivered_append a(2) b(2) Inr by fastforce
    moreover have "take n (ready s) @ ready s1 = ready s @ new"
      unfolding s1(3) by (metis append.assoc append_take_drop_id)
    ultimately have "delivered sd rcv fin out k (ready s @ new) k' r" by (simp only:)
    moreover have e: "ready s @ new = take n (ready s) @ ready s1"
      unfolding s1(3) by (metis append.assoc append_take_drop_id)
    moreover have "send_until_accepted sd rcv out s i k ps = Some (s', i1, k', ps', r)"
      using a(1) b(1) Inr s1(2) by (simp add: send_until_accepted_def)
    moreover from a(3) Inr obtain s0 ps0 where "valid s0" "sd s0 i ps0 = (s1, i1, p1, Ok Accepted)" by auto
    ultimately show ?thesis using b(3) s1(2) e
      by (intro exI[of _ s'] exI[of _ i1] exI[of _ k'] exI[of _ ps'] exI[of _ r] exI[of _ "ready s @ new"]) blast
  qed
qed

lemma drain_session_delivers:
  assumes "valid s"
  shows "\<exists>s' k' ps' r os. drain_session fin rcv out s k ps = Some (s', k', ps', r) \<and> delivered sd rcv fin out k os k' r
    \<and> (r = Ok () \<longrightarrow> valid s' \<and> ready s' = [] \<and> ended s' \<and> (\<exists>new. os = ready s @ new))"
proof -
  obtain s1 x where x: "fin s = (s1, x)" by fastforce
  show ?thesis
  proof (cases x)
    case (Inl e)
    then have "blamed sd rcv fin e" using x by (auto simp: blamed_def)
    then have "delivered sd rcv fin out k [] k (Err (Upstream e))" by (simp add: delivered_def)
    then show ?thesis using x Inl by (auto simp: drain_session_def)
  next
    case (Inr u)
    then have s1: "valid s1" "ended s1" "\<exists>new. ready s1 = ready s @ new" using end_accepted[OF assms] x by auto
    from deliver_loop_delivers[OF s1(1), of out k ps] obtain s' k' ps' r where
      "deliver_loop True rcv out s1 k ps = Some (s', k', ps', r)" "delivered sd rcv fin out k (ready s1) k' r"
      "r = Ok () \<longrightarrow> valid s' \<and> ready s' = [] \<and> ended s'"
      using s1(2) by auto
    moreover have "drain_session fin rcv out s k ps = deliver_loop True rcv out s1 k ps"
      using x Inr by (simp add: drain_session_def)
    ultimately show ?thesis using s1(3) by metis
  qed
qed

end

text \<open>A session whose state stays usable after every call, failed calls included.\<close>

locale steady_session = session +
  assumes send_keeps: "valid s \<Longrightarrow> valid (fst (sd s i ps))"
    and receive_keeps: "valid s \<Longrightarrow> valid (fst (rcv s ps))"
    and end_keeps: "valid s \<Longrightarrow> valid (fst (fin s))"

subsection \<open>Fusing\<close>

definition error_of :: "'e + 'a \<Rightarrow> 'e option" where
  "error_of r = (case r of Inl e \<Rightarrow> Some e | Inr _ \<Rightarrow> None)"

definition fused_valid :: "('s \<Rightarrow> bool) \<Rightarrow> 's fused_session \<Rightarrow> bool" where
  "fused_valid valid d \<longleftrightarrow> fs_failed d \<or> valid (fs_inner d)"

lemma fused_guard_Ok:
  "fused_guard f d x ps = (d', x', ps', Ok y) \<longleftrightarrow> \<not> fs_failed d \<and> (\<exists>p. pulse_check ps = (p, Ok ())
     \<and> f (fs_inner d) p = (fs_inner d', x', ps', Ok y) \<and> \<not> fs_failed d')"
  by (cases d') (auto simp: fused_guard_def Let_def split: prod.splits sum.splits)

lemma fused_call_guard:
  "fused_call f d ps = (d', ps', r) \<longleftrightarrow> fused_guard (\<lambda>s ps. case f s ps of (s, ps, r) \<Rightarrow> (s, (), ps, r)) d () ps = (d', (), ps', r)"
  by (auto simp: fused_call_def split: prod.splits)

lemma fused_call_Ok:
  "fused_call f d ps = (d', ps', Ok y) \<longleftrightarrow> \<not> fs_failed d \<and> (\<exists>p. pulse_check ps = (p, Ok ())
     \<and> f (fs_inner d) p = (fs_inner d', ps', Ok y) \<and> \<not> fs_failed d')"
proof -
  have u: "(case f s p of (s, ps, r) \<Rightarrow> (s, (), ps, r)) = (s', (), ps', q) \<longleftrightarrow> f s p = (s', ps', q)" for s p s' q
    by (auto split: prod.splits)
  show ?thesis unfolding fused_call_guard fused_guard_Ok u ..
qed

lemma fused_end_Ok:
  "fused_end f d = (d', Ok y) \<longleftrightarrow> \<not> fs_failed d \<and> f (fs_inner d) = (fs_inner d', Ok y) \<and> \<not> fs_failed d'"
  by (cases d') (auto simp: fused_end_def split: prod.splits)

lemma fused_guard_failed: "fused_guard f d x ps = (d', x', ps', r) \<Longrightarrow> fs_failed d' \<longleftrightarrow> (\<exists>e. r = Err e)"
  by (cases r) (auto simp: fused_guard_def Let_def split: prod.splits sum.splits if_splits)

text \<open>Fusing makes any session a steady one: a failed session only ever answers \<open>Finished\<close>.\<close>

context session
begin

lemma send_valid: "valid s \<Longrightarrow> sd s i ps = (s', i', ps', Ok st) \<Longrightarrow> valid s'"
  using send_pending[of s i ps s' i' ps'] send_accepted[of s i ps s' i' ps'] by (cases st) auto

lemma receive_valid: "valid s \<Longrightarrow> rcv s ps = (s', ps', Ok x) \<Longrightarrow> valid s'"
  using receive_ready[of s ps s' ps' x] receive_empty[of s ps s' ps' x] by (cases "ready s") auto

lemma end_valid: "valid s \<Longrightarrow> fin s = (s', Ok u) \<Longrightarrow> valid s'"
  using end_accepted[of s s'] by simp

lemma fused_steady:
  "steady_session (\<lambda>d i. fused_guard (\<lambda>s. sd s i) d i) (fused_call rcv) (fused_end fin) (fused_valid valid)
     (ready \<circ> fs_inner) (ended \<circ> fs_inner)"
proof (unfold_locales, goal_cases)
  case (1 d i ps d' i' ps')
  then obtain p where "valid (fs_inner d)" "sd (fs_inner d) i p = (fs_inner d', i', ps', Ok ReceivePending)"
    by (auto simp: fused_guard_Ok fused_valid_def)
  from send_pending[OF this] show ?case by (simp add: fused_valid_def)
next
  case (2 d i ps d' i' ps')
  then obtain p where "valid (fs_inner d)" "sd (fs_inner d) i p = (fs_inner d', i', ps', Ok Accepted)"
    by (auto simp: fused_guard_Ok fused_valid_def)
  from send_accepted[OF this] show ?case by (simp add: fused_valid_def)
next
  case (3 d ps d' ps' x y ys)
  then obtain p where "valid (fs_inner d)" "rcv (fs_inner d) p = (fs_inner d', ps', Ok x)" "ready (fs_inner d) = y # ys"
    by (auto simp: fused_call_Ok fused_valid_def)
  from receive_ready[OF this] show ?case by (simp add: fused_valid_def)
next
  case (4 d ps d' ps' x)
  then obtain p where "valid (fs_inner d)" "rcv (fs_inner d) p = (fs_inner d', ps', Ok x)" "ready (fs_inner d) = []"
    by (auto simp: fused_call_Ok fused_valid_def)
  from receive_empty[OF this] show ?case by (simp add: fused_valid_def)
next
  case (5 d d')
  then have "valid (fs_inner d)" "fin (fs_inner d) = (fs_inner d', Ok ())"
    by (auto simp: fused_end_Ok fused_valid_def)
  from end_accepted[OF this] show ?case by (simp add: fused_valid_def)
next
  case (6 d i ps)
  show ?case
  proof (cases "fused_guard (\<lambda>s. sd s i) d i ps")
    case (fields d' i' ps' r)
    show ?thesis
    proof (cases r)
      case (Inl e)
      then show ?thesis using fused_guard_failed[OF fields] fields by (simp add: fused_valid_def)
    next
      case (Inr st)
      have "fused_valid valid d'"
        using fields 6 send_valid Inr by (auto simp: fused_guard_Ok fused_valid_def)
      then show ?thesis using fields by simp
    qed
  qed
next
  case (7 d ps)
  show ?case
  proof (cases "fused_call rcv d ps")
    case (fields d' ps' r)
    have "fused_valid valid d'"
      using fields fused_guard_failed[OF iffD1[OF fused_call_guard fields]] 7 receive_valid
      by (cases r) (auto simp: fused_call_Ok fused_valid_def)
    then show ?thesis using fields by simp
  qed
next
  case (8 d)
  show ?case
  proof (cases "fused_end fin d")
    case (Pair d' r)
    then show ?thesis
      using 8 end_valid by (cases r) (auto simp: fused_end_def fused_valid_def split: prod.splits if_splits)
  qed
qed

end

text \<open>The wrappers of the code: a fused codec that keeps the protocol keeps it after failures too.\<close>

lemma fused_decoder_steady:
  assumes "session (vd_send c) (vd_receive c) (vd_end_input c) valid ready ended"
  shows "steady_session (vd_send (fused_decoder c)) (vd_receive (fused_decoder c)) (vd_end_input (fused_decoder c))
    (fused_valid valid) (ready \<circ> fs_inner) (ended \<circ> fs_inner)"
  using session.fused_steady[OF assms] by (simp add: fused_decoder_def)

lemma send_frame_fused: "send_frame (fused_encoder c) d f ps = fused_guard (\<lambda>s. send_frame c s f) d f ps"
  by (auto simp: send_frame_def fused_encoder_def fused_call_def fused_guard_def Let_def split: prod.splits sum.splits)

lemma fused_encoder_end: "ve_end_input (fused_encoder c) = fused_end (ve_end_input c)"
  by (auto simp: fused_encoder_def fused_end_def fused_call_def fused_guard_def Let_def pulse_check_def fun_eq_iff
      split: prod.splits)

lemma fused_encoder_steady:
  assumes "session (send_frame c) (ve_receive c) (ve_end_input c) valid ready ended"
  shows "steady_session (send_frame (fused_encoder c)) (ve_receive (fused_encoder c)) (ve_end_input (fused_encoder c))
    (fused_valid valid) (ready \<circ> fs_inner) (ended \<circ> fs_inner)"
proof -
  have "send_frame (fused_encoder c) = (\<lambda>d f. fused_guard (\<lambda>s. send_frame c s f) d f)"
    by (intro ext) (simp add: send_frame_fused)
  moreover have "ve_receive (fused_encoder c) = fused_call (ve_receive c)" by (simp add: fused_encoder_def)
  ultimately show ?thesis using session.fused_steady[OF assms] by (simp add: fused_encoder_end)
qed

subsection \<open>Properties\<close>

text \<open>
  C14: Back-pressure works (session.rs:651-757). Over any decoder that keeps the session protocol,
  \<open>send_packet_until_accepted\<close> and \<open>drain_decoder\<close> return. On success the sink has received, in
  order, every frame that was ready and every frame that the packet (or the end of input) made
  ready, none is left, and the packet was accepted as it was given; otherwise the sink's own error is reported after the frames before it,
  or the codec's own, and never a violation that the pump made up.
\<close>

theorem pumps_deliver:
  assumes "session (vd_send c) (vd_receive c) (vd_end_input c) valid ready ended" "valid s"
  shows "(\<exists>s' p' k' ps' r os. send_packet_until_accepted c out s p k ps = Some (s', p', k', ps', r)
      \<and> delivered (vd_send c) (vd_receive c) (vd_end_input c) out k os k' r
      \<and> (\<exists>n new. os = take n (ready s) \<or> os = ready s @ new)
      \<and> (r = Ok () \<longrightarrow> valid s' \<and> ready s' = [] \<and> \<not> ended s' \<and> (\<exists>new. os = ready s @ new)
           \<and> (\<exists>s0 ps0 s1 ps1 before. valid s0 \<and> vd_send c s0 p ps0 = (s1, p', ps1, Ok Accepted) \<and> os = before @ ready s1)))
    \<and> (\<exists>s' k' ps' r os. drain_decoder c out s k ps = Some (s', k', ps', r)
      \<and> delivered (vd_send c) (vd_receive c) (vd_end_input c) out k os k' r
      \<and> (r = Ok () \<longrightarrow> valid s' \<and> ready s' = [] \<and> ended s' \<and> (\<exists>new. os = ready s @ new)))"
  unfolding send_packet_until_accepted_def drain_decoder_def
  using session.send_until_accepted_delivers[OF assms, of out p k ps]
    session.drain_session_delivers[OF assms, of out k ps]
  by blast

datatype decoder_call = CallConfigure codec_config | CallSend packet | CallReceive | CallEnd | CallReset

text \<open>One call, and the error it returned.\<close>

fun decoder_do ::
    "('s, 'f, 'i, 'e, 'r) video_decoder \<Rightarrow> decoder_call \<Rightarrow> 's \<Rightarrow> 'r pulse \<Rightarrow> 's \<times> 'r pulse \<times> ('e, 'r) session_error option"
where
  "decoder_do c (CallConfigure cfg) s ps = (case vd_configure c s cfg ps of (s, ps, r) \<Rightarrow> (s, ps, error_of r))"
| "decoder_do c (CallSend p) s ps = (case vd_send c s p ps of (s, _, ps, r) \<Rightarrow> (s, ps, error_of r))"
| "decoder_do c CallReceive s ps = (case vd_receive c s ps of (s, ps, r) \<Rightarrow> (s, ps, error_of r))"
| "decoder_do c CallEnd s ps = (case vd_end_input c s of (s, r) \<Rightarrow> (s, ps, error_of r))"
| "decoder_do c CallReset s ps = (case vd_reset c s of (s, r) \<Rightarrow> (s, ps, error_of r))"

fun decoder_calls ::
    "('s, 'f, 'i, 'e, 'r) video_decoder \<Rightarrow> decoder_call list \<Rightarrow> 's \<Rightarrow> 'r pulse
      \<Rightarrow> 's \<times> 'r pulse \<times> ('e, 'r) session_error option list" where
  "decoder_calls c [] s ps = (s, ps, [])"
| "decoder_calls c (x # xs) s ps = (case decoder_do c x s ps of (s, ps, e) \<Rightarrow>
     (case decoder_calls c xs s ps of (s, ps, es) \<Rightarrow> (s, ps, e # es)))"

lemma fused_do_failed:
  assumes "fs_failed d" "x \<noteq> CallReset"
  shows "decoder_do (fused_decoder c) x d ps = (d, ps, Some SFinished)"
  using assms
  by (cases x) (simp_all add: fused_decoder_def fused_call_def fused_guard_def fused_end_def error_of_def)

lemma fused_call_failed: "fused_call f d ps = (d', ps', r) \<Longrightarrow> fs_failed d' \<longleftrightarrow> (\<exists>e. r = Err e)"
  using fused_guard_failed[OF iffD1[OF fused_call_guard]] by blast

lemma error_of_Some [simp]: "error_of r = Some e \<longleftrightarrow> r = Err e"
  by (cases r) (auto simp: error_of_def)

lemma fused_do_error:
  assumes "decoder_do (fused_decoder c) x d ps = (d', ps', Some e)"
  shows "fs_failed d'"
  using assms
  by (cases x) (auto simp: fused_decoder_def fused_end_def fused_reset_def split: prod.splits if_splits
      dest: fused_call_failed fused_guard_failed)

text \<open>
  C28: In a fused decoder every error is final (session.rs:435-497): whichever call failed, and
  whether the codec failed it or the pulse stopped it, every later call but \<open>reset\<close> answers
  \<open>Finished\<close>, asks no pulse, and leaves the codec's state alone.
\<close>

theorem fused_session_final:
  assumes "decoder_do (fused_decoder c) x d ps = (d', ps', Some e)" "CallReset \<notin> set xs"
  shows "decoder_calls (fused_decoder c) xs d' qs = (d', qs, replicate (length xs) (Some SFinished))"
  using assms(2) fused_do_error[OF assms(1)]
proof (induction xs)
  case (Cons y ys)
  from fused_do_failed[OF Cons.prems(2), of y c] Cons show ?case by auto
qed simp

end
