(* ===== verification/Toy_Codec.thy ===== *)
theory Toy_Codec
  imports Media_Session
begin

text \<open>
  The reference codec of \<open>zencodec-media-testkit/src/toy.rs\<close>: a decoder that holds one packet's frames back
  and an encoder with lookahead. Planes belong to the zenpixels package: making one from samples, mapping
  one to rows, and the two facts about layouts that the codec uses are arguments. Both codecs keep the
  session protocol, whatever those arguments are.
\<close>

datatype toy_error =
    BadMagic | TruncatedStream | BadTimeBase | BadPayload | NoSuchFrame | NoSuchTrack | HeadersFirst | ShapeMismatch
  | WrongTrackCount

record ('p, 'l) planes_api =
  pa_luma :: 'l
  pa_mono :: "'l \<Rightarrow> bool"
  pa_plane :: "byte list \<Rightarrow> nat \<Rightarrow> nat \<Rightarrow> 'p option"
  pa_map :: "'p \<Rightarrow> (nat \<times> nat \<times> byte list list) option"

type_synonym 'r toy_failure = "(toy_error, 'r) session_error"

definition toy_codec_id :: codec_id where
  "toy_codec_id = OtherCodec ''toy''"

text \<open>The bytes of a packet whose payload was made by a constructor, which always reads.\<close>

definition bytes_of :: "packet \<Rightarrow> byte list" where
  "bytes_of p = (case packet_bytes p of None \<Rightarrow> [] | Some bs \<Rightarrow> bs)"

subsection \<open>The decoder\<close>

record ('p, 'l) toy_decoder =
  td_config :: "codec_config option"
  td_interpretation :: "'l frame_interpretation option"
  td_stream :: "'l video_stream_info option"
  td_hold :: "('p, 'l) frame list"
  td_ready :: "('p, 'l) frame list"
  td_last :: "('p, 'l) frame option"
  td_ended :: bool
  td_max_queued :: nat

definition toy_decoder_new :: "nat \<Rightarrow> ('p, 'l) toy_decoder" where
  "toy_decoder_new n = \<lparr> td_config = None, td_interpretation = None, td_stream = None, td_hold = [], td_ready = [],
     td_last = None, td_ended = False, td_max_queued = max n 1 \<rparr>"

definition toy_configure ::
    "('p, 'l) planes_api \<Rightarrow> ('p, 'l) toy_decoder \<Rightarrow> codec_config \<Rightarrow> 'r pulse
      \<Rightarrow> ('p, 'l) toy_decoder \<times> 'r pulse \<times> ('r toy_failure + unit)" where
  "toy_configure px d cfg ps = (case pulse_check ps of
     (ps, Inl r) \<Rightarrow> (d, ps, Err (SCancelled r))
   | (ps, Inr _) \<Rightarrow> (case cfg_video cfg of
       None \<Rightarrow> (d, ps, Err (SUnsupported PixelFormatUnsupported))
     | Some v \<Rightarrow>
         let i = interpretation_with_epoch (cfg_epoch cfg)
               (interpretation_new (geometry_full (coded_width v) (coded_height v)) (pa_luma px))
         in (d\<lparr>td_stream := Some ((stream_info_new i)\<lparr>reorder_depth := Some 1\<rparr>), td_interpretation := Some i,
               td_config := Some cfg\<rparr>, ps, Ok ())))"

fun toy_pictures ::
    "('p, 'l) planes_api \<Rightarrow> 'l frame_interpretation \<Rightarrow> frame_timing \<Rightarrow> bool \<Rightarrow> nat \<Rightarrow> nat \<Rightarrow> byte list \<Rightarrow> nat \<Rightarrow> nat
      \<Rightarrow> ('p, 'l) toy_decoder \<Rightarrow> ('p, 'l) toy_decoder \<times> bool" where
  "toy_pictures px it t key w h b i 0 d = (d, True)"
| "toy_pictures px it t key w h b i (Suc n) d =
     (case pa_plane px (take (w * h) (drop (2 + i * w * h) b)) w h of
        None \<Rightarrow> (d, False)
      | Some pic \<Rightarrow>
          let f = frame_new pic it t \<lparr> keyframe = (i = 0 \<and> key), show_existing = False \<rparr>
          in toy_pictures px it t key w h b (Suc i) n (d\<lparr>td_last := Some f, td_hold := td_hold d @ [f]\<rparr>))"

text \<open>
  The sizes are the \<open>usize\<close> of two \<open>u32\<close> sides and of at most three pictures, multiplied over
  the naturals: a configuration for which \<open>3 * w * h + 2\<close> passes 64 bits, where the products of
  the code would wrap, is outside the model.
\<close>

definition toy_accept ::
    "('p, 'l) planes_api \<Rightarrow> codec_config \<Rightarrow> 'l frame_interpretation \<Rightarrow> ('p, 'l) toy_decoder \<Rightarrow> packet
      \<Rightarrow> ('p, 'l) toy_decoder \<times> packet \<times> ('r toy_failure + send_status)" where
  "toy_accept px cfg it d p = (case cfg_video cfg of
     None \<Rightarrow> (d, p, Err (SCodec BadPayload))
   | Some v \<Rightarrow>
       let w = coded_width v; h = coded_height v; b = bytes_of p in
       if length b < 2 then (d, p, Err (SCodec BadPayload))
       else let pics = unat (b ! 0) in
       if pics > 3 \<or> length b \<noteq> 2 + pics * w * h then (d, p, Err (SCodec BadPayload))
       else let t = (timing_with_packet (ordinal p) (input_offset p) frame_timing_default)
                     \<lparr>ft_pts := pts p, ft_duration := duration_ticks p\<rparr>;
                d = d\<lparr>td_hold := [], td_ready := td_ready d @ td_hold d\<rparr> in
       (case toy_pictures px it t (random_access_of p = Yes) w h b 0 pics d of
          (d, False) \<Rightarrow> (d, p, Err (SCodec ShapeMismatch))
        | (d, True) \<Rightarrow>
            if b ! 1 \<noteq> 0 then (case td_last d of
              None \<Rightarrow> (d, p, Err (SCodec BadPayload))
            | Some f \<Rightarrow> (d\<lparr>td_hold := td_hold d @ [represent t presentation_show_existing f]\<rparr>, fst (packet_take p), Ok Accepted))
            else (d, fst (packet_take p), Ok Accepted)))"

definition toy_send ::
    "('p, 'l) planes_api \<Rightarrow> ('p, 'l) toy_decoder \<Rightarrow> packet \<Rightarrow> 'r pulse
      \<Rightarrow> ('p, 'l) toy_decoder \<times> packet \<times> 'r pulse \<times> ('r toy_failure + send_status)" where
  "toy_send px d p ps = (case pulse_check ps of
     (ps, Inl r) \<Rightarrow> (d, p, ps, Err (SCancelled r))
   | (ps, Inr _) \<Rightarrow>
       if td_ended d then (d, p, ps, Err (SProtocol SendAfterEnd))
       else case (td_config d, td_interpretation d) of
         (Some cfg, Some it) \<Rightarrow>
           if is_taken p then (d, p, ps, Err (SProtocol EmptyPacket))
           else if config_epoch p \<noteq> cfg_epoch cfg then (d, p, ps, Err (SProtocol EpochMismatch))
           else if td_ready d \<noteq> [] \<and> length (td_ready d) + length (td_hold d) \<ge> td_max_queued d
           then (d, p, ps, Ok ReceivePending)
           else (case toy_accept px cfg it d p of (d, p, r) \<Rightarrow> (d, p, ps, r))
       | _ \<Rightarrow> (d, p, ps, Err (SProtocol NotConfigured)))"

definition toy_receive ::
    "('p, 'l) toy_decoder \<Rightarrow> 'r pulse \<Rightarrow> ('p, 'l) toy_decoder \<times> 'r pulse \<times> ('r toy_failure + ('p, 'l) frame receive)" where
  "toy_receive d ps = (case pulse_check ps of
     (ps, Inl r) \<Rightarrow> (d, ps, Err (SCancelled r))
   | (ps, Inr _) \<Rightarrow> (case td_ready d of
       f # fs \<Rightarrow> (d\<lparr>td_ready := fs\<rparr>, ps, Ok (Ready f))
     | [] \<Rightarrow>
         if td_ended d then (case td_hold d of
           f # fs \<Rightarrow> (d\<lparr>td_hold := fs\<rparr>, ps, Ok (Ready f))
         | [] \<Rightarrow> (d, ps, Ok EndOfStream))
         else (d, ps, Ok NeedInput)))"

definition toy_end_input :: "('p, 'l) toy_decoder \<Rightarrow> ('p, 'l) toy_decoder \<times> ('r toy_failure + unit)" where
  "toy_end_input d = (d\<lparr>td_ended := True\<rparr>, Ok ())"

definition toy_reset :: "('p, 'l) toy_decoder \<Rightarrow> ('p, 'l) toy_decoder \<times> ('r toy_failure + unit)" where
  "toy_reset d = (d\<lparr>td_hold := [], td_ready := [], td_last := None, td_ended := False\<rparr>, Ok ())"

definition toy_decoder_api ::
    "('p, 'l) planes_api \<Rightarrow> (('p, 'l) toy_decoder, ('p, 'l) frame, 'l video_stream_info, toy_error, 'r) video_decoder" where
  "toy_decoder_api px = \<lparr> vd_configure = toy_configure px, vd_send = toy_send px, vd_receive = toy_receive,
     vd_end_input = toy_end_input, vd_reset = toy_reset, vd_stream_info = td_stream \<rparr>"

text \<open>The frames a decoder has to give: those ready and, once input has ended, those held back.\<close>

definition td_outputs :: "('p, 'l) toy_decoder \<Rightarrow> ('p, 'l) frame list" where
  "td_outputs d = td_ready d @ (if td_ended d then td_hold d else [])"

lemma toy_pictures_keeps:
  "toy_pictures px it t key w h b i n d = (d', ok) \<Longrightarrow> td_ready d' = td_ready d \<and> td_ended d' = td_ended d"
  by (induction n arbitrary: i d) (auto simp: Let_def split: option.splits)

lemma toy_accept_ok:
  assumes "toy_accept px cfg it d p = (d', p', Ok st)"
  shows "st = Accepted \<and> td_ready d' = td_ready d @ td_hold d \<and> td_ended d' = td_ended d"
  using assms
  by (auto simp: toy_accept_def Let_def split: option.splits if_splits prod.splits bool.splits dest!: toy_pictures_keeps)

interpretation toy_decoding: session "toy_send px" toy_receive toy_end_input "\<lambda>_. True" td_outputs td_ended for px
proof (unfold_locales, goal_cases)
  case (1 s i ps s' i' ps')
  then show ?case
    by (auto simp: toy_send_def td_outputs_def split: prod.splits sum.splits if_splits option.splits dest!: toy_accept_ok)
next
  case (2 s i ps s' i' ps')
  then show ?case
    by (auto simp: toy_send_def td_outputs_def split: prod.splits sum.splits if_splits option.splits dest!: toy_accept_ok)
next
  case (3 s ps s' ps' x y ys)
  then show ?case
    by (auto simp: toy_receive_def td_outputs_def split: prod.splits sum.splits list.splits if_splits)
next
  case (4 s ps s' ps' x)
  then show ?case
    by (auto simp: toy_receive_def td_outputs_def split: prod.splits sum.splits list.splits if_splits)
next
  case (5 s s')
  then show ?case by (auto simp: toy_end_input_def td_outputs_def)
qed

subsection \<open>The encoder\<close>

record ('p, 'l) toy_encoder =
  te_config :: codec_config
  te_lookahead :: nat
  te_keyint :: nat
  te_queue :: "('p, 'l) frame list"
  te_out :: "packet list"
  te_max_out :: nat
  te_ended :: bool
  te_ordinal :: nat

definition toy_encoder_new :: "nat \<Rightarrow> nat \<Rightarrow> time_base \<Rightarrow> nat \<Rightarrow> nat \<Rightarrow> ('p, 'l) toy_encoder" where
  "toy_encoder_new w h t ahead key = \<lparr> te_config = with_video (video_track_new w h) (codec_config_new toy_codec_id t),
     te_lookahead = ahead, te_keyint = max key 1, te_queue = [], te_out = [], te_max_out = 2, te_ended = False,
     te_ordinal = 0 \<rparr>"

definition toy_encode ::
    "('p, 'l) planes_api \<Rightarrow> ('p, 'l) toy_encoder \<Rightarrow> ('p, 'l) frame
      \<Rightarrow> ('p, 'l) toy_encoder \<times> ('r toy_failure + packet)" where
  "toy_encode px e f = (case cfg_video (te_config e) of
     None \<Rightarrow> (e, Err (SCodec ShapeMismatch))
   | Some v \<Rightarrow> (case pa_map px (fr_picture f) of
       None \<Rightarrow> (e, Err (SCodec ShapeMismatch))
     | Some (w, h, rows) \<Rightarrow>
         if w \<noteq> coded_width v \<or> h \<noteq> coded_height v then (e, Err (SCodec ShapeMismatch))
         else case ft_pts (fr_timing f) of
           None \<Rightarrow> (e, Err (SProtocol MissingTimestamp))
         | Some t \<Rightarrow>
             let p = with_random_access (if te_ordinal e mod te_keyint e = 0 then Yes else No)
                       (with_ordinal (te_ordinal e) (with_pts t (with_track 0 (with_payload (Owned ([1, 0] @ concat rows))))));
                 p = (case ft_duration (fr_timing f) of None \<Rightarrow> p | Some n \<Rightarrow> with_duration_ticks n p)
             in (e\<lparr>te_ordinal := te_ordinal e + 1\<rparr>, Ok p)))"

lemma toy_encode_keeps:
  "toy_encode px e f = (e', r) \<Longrightarrow> te_queue e' = te_queue e \<and> te_out e' = te_out e \<and> te_ended e' = te_ended e
     \<and> te_config e' = te_config e \<and> te_lookahead e' = te_lookahead e \<and> te_keyint e' = te_keyint e
     \<and> te_max_out e' = te_max_out e"
  by (auto simp: toy_encode_def Let_def split: option.splits if_splits)

text \<open>Frames beyond the lookahead are encoded as they come.\<close>

function toy_encode_down ::
    "('p, 'l) planes_api \<Rightarrow> ('p, 'l) toy_encoder \<Rightarrow> ('p, 'l) toy_encoder \<times> ('r toy_failure + unit)" where
  "toy_encode_down px e =
     (if length (te_queue e) \<le> te_lookahead e then (e, Ok ())
      else case te_queue e of
        [] \<Rightarrow> (e, Ok ())
      | f # fs \<Rightarrow> (case toy_encode px (e\<lparr>te_queue := fs\<rparr>) f of
          (e, Inl x) \<Rightarrow> (e, Err x)
        | (e, Inr p) \<Rightarrow> toy_encode_down px (e\<lparr>te_out := te_out e @ [p]\<rparr>)))"
  by pat_completeness auto

termination
  by (relation "measure (\<lambda>(px, e). length (te_queue e))") (auto dest!: toy_encode_keeps[OF sym])

declare toy_encode_down.simps [simp del]

definition toy_send_frame ::
    "('p, 'l) planes_api \<Rightarrow> ('p, 'l) toy_encoder \<Rightarrow> ('p, 'l) frame \<Rightarrow> 'r pulse
      \<Rightarrow> ('p, 'l) toy_encoder \<times> 'r pulse \<times> ('r toy_failure + send_status)" where
  "toy_send_frame px e f ps = (case pulse_check ps of
     (ps, Inl r) \<Rightarrow> (e, ps, Err (SCancelled r))
   | (ps, Inr _) \<Rightarrow>
       if te_ended e then (e, ps, Err (SProtocol SendAfterEnd))
       else case cfg_video (te_config e) of
         None \<Rightarrow> (e, ps, Err (SCodec ShapeMismatch))
       | Some v \<Rightarrow>
           let i = fr_interpretation f in
           if geo_width (fi_geometry i) \<noteq> coded_width v \<or> geo_height (fi_geometry i) \<noteq> coded_height v
              \<or> \<not> pa_mono px (fi_layout i)
           then (e, ps, Err (SCodec ShapeMismatch))
           else case ft_pts (fr_timing f) of
             None \<Rightarrow> (e, ps, Err (SProtocol MissingTimestamp))
           | Some t \<Rightarrow>
               if ts_base t \<noteq> cfg_time_base (te_config e) then (e, ps, Err (SProtocol ClockMismatch))
               else if length (te_out e) \<ge> te_max_out e then (e, ps, Ok ReceivePending)
               else (case toy_encode_down px (e\<lparr>te_queue := te_queue e @ [f]\<rparr>) of
                 (e, r) \<Rightarrow> (e, ps, map_sum id (\<lambda>_. Accepted) r)))"

definition toy_receive_packet ::
    "('p, 'l) planes_api \<Rightarrow> ('p, 'l) toy_encoder \<Rightarrow> 'r pulse
      \<Rightarrow> ('p, 'l) toy_encoder \<times> 'r pulse \<times> ('r toy_failure + packet receive)" where
  "toy_receive_packet px e ps = (case pulse_check ps of
     (ps, Inl r) \<Rightarrow> (e, ps, Err (SCancelled r))
   | (ps, Inr _) \<Rightarrow> (case te_out e of
       p # out \<Rightarrow> (e\<lparr>te_out := out\<rparr>, ps, Ok (Ready p))
     | [] \<Rightarrow>
         if te_ended e then (case te_queue e of
           f # fs \<Rightarrow> (case toy_encode px (e\<lparr>te_queue := fs\<rparr>) f of (e, r) \<Rightarrow> (e, ps, map_sum id Ready r))
         | [] \<Rightarrow> (e, ps, Ok EndOfStream))
         else (e, ps, Ok NeedInput)))"

definition toy_end_frames :: "('p, 'l) toy_encoder \<Rightarrow> ('p, 'l) toy_encoder \<times> ('r toy_failure + unit)" where
  "toy_end_frames e = (e\<lparr>te_ended := True\<rparr>, Ok ())"

definition toy_encoder_api ::
    "('p, 'l) planes_api \<Rightarrow> (('p, 'l) toy_encoder, ('p, 'l) frame, 'i, toy_error, 'r) video_encoder" where
  "toy_encoder_api px = \<lparr> ve_send = toy_send_frame px, ve_receive = toy_receive_packet px, ve_end_input = toy_end_frames,
     ve_output_config = Some \<circ> te_config, ve_output_fidelity = (\<lambda>_. None) \<rparr>"

text \<open>The packets that the queued frames will become, up to one that cannot be encoded.\<close>

fun toy_packets :: "('p, 'l) planes_api \<Rightarrow> ('p, 'l) toy_encoder \<Rightarrow> ('p, 'l) frame list \<Rightarrow> packet list" where
  "toy_packets px e [] = []"
| "toy_packets px e (f # fs) = (case (toy_encode px e f :: _ \<times> (unit toy_failure + packet)) of
     (e, Inl _) \<Rightarrow> [] | (e, Inr p) \<Rightarrow> p # toy_packets px e fs)"

definition te_outputs :: "('p, 'l) planes_api \<Rightarrow> ('p, 'l) toy_encoder \<Rightarrow> packet list" where
  "te_outputs px e = te_out e @ (if te_ended e then toy_packets px e (te_queue e) else [])"

text \<open>Encoding depends on the configuration, the key frame interval and the ordinal only.\<close>

definition same_coding :: "('p, 'l) toy_encoder \<Rightarrow> ('p, 'l) toy_encoder \<Rightarrow> bool" where
  "same_coding e e' \<longleftrightarrow> te_config e = te_config e' \<and> te_keyint e = te_keyint e' \<and> te_ordinal e = te_ordinal e'"

lemma toy_encode_same:
  assumes "same_coding e e'"
  shows "(\<exists>p e1 e1'. toy_encode px e f = (e1, Ok p :: 'r toy_failure + packet)
        \<and> toy_encode px e' f = (e1', Ok p :: 's toy_failure + packet) \<and> same_coding e1 e1')
    \<or> (\<exists>x x'. toy_encode px e f = (e, Err x :: 'r toy_failure + packet)
        \<and> toy_encode px e' f = (e', Err x' :: 's toy_failure + packet))"
  using assms by (auto simp: toy_encode_def same_coding_def Let_def split: option.splits)

lemma toy_packets_same: "same_coding e e' \<Longrightarrow> toy_packets px e fs = toy_packets px e' fs"
proof (induction fs arbitrary: e e')
  case (Cons f fs)
  from toy_encode_same[OF Cons.prems, where 'r = unit and 's = unit and px = px and f = f] Cons.IH
  show ?case by fastforce
qed simp

lemma toy_packets_Ok:
  assumes "toy_encode px (e\<lparr>te_queue := q\<rparr>) f = (e', Ok p :: 'r toy_failure + packet)"
  shows "toy_packets px e (f # fs) = p # toy_packets px e' fs"
proof -
  have "same_coding e (e\<lparr>te_queue := q\<rparr>)" by (simp add: same_coding_def)
  from toy_encode_same[OF this, where 'r = unit and 's = 'r and px = px and f = f] assms toy_packets_same
  show ?thesis by fastforce
qed

lemma toy_packets_Err:
  assumes "toy_encode px (e\<lparr>te_queue := q\<rparr>) f = (e', Err x :: 'r toy_failure + packet)"
  shows "toy_packets px e (f # fs) = []"
proof -
  have "same_coding e (e\<lparr>te_queue := q\<rparr>)" by (simp add: same_coding_def)
  from toy_encode_same[OF this, where 'r = unit and 's = 'r and px = px and f = f] assms
  show ?thesis by fastforce
qed

lemma toy_encode_down_ok:
  assumes "toy_encode_down px e = (e', r :: 'r toy_failure + unit)"
  shows "te_ended e' = te_ended e \<and> te_max_out e' = te_max_out e \<and> (\<exists>new. te_out e' = te_out e @ new)"
  using assms
proof (induction "length (te_queue e)" arbitrary: e rule: less_induct)
  case less
  show ?case
  proof (cases "te_queue e")
    case Nil
    with less.prems show ?thesis by (subst (asm) toy_encode_down.simps) auto
  next
    case (Cons f fs)
    obtain e1 x where x: "(toy_encode px (e\<lparr>te_queue := fs\<rparr>) f :: _ \<times> ('r toy_failure + packet)) = (e1, x)" by fastforce
    note k = toy_encode_keeps[OF x]
    show ?thesis
    proof (cases "length (te_queue e) \<le> te_lookahead e \<or> (\<exists>y. x = Err y)")
      case True
      with less.prems Cons x k show ?thesis by (subst (asm) toy_encode_down.simps) (auto split: if_splits)
    next
      case False
      then obtain p where p: "x = Ok p" by (cases x) auto
      then have "toy_encode_down px (e1\<lparr>te_out := te_out e1 @ [p]\<rparr>) = (e', r)"
        using less.prems Cons x False by (subst (asm) toy_encode_down.simps) (auto split: if_splits)
      from less.hyps[OF _ this] k Cons show ?thesis by auto
    qed
  qed
qed

lemma toy_packets_out [simp]:
  "toy_packets px (e\<lparr>te_out := out\<rparr>) fs = toy_packets px e fs"
  "toy_packets px (e\<lparr>te_ended := b\<rparr>) fs = toy_packets px e fs"
  by (rule toy_packets_same, simp add: same_coding_def)+

lemma toy_receive_packet_ok:
  assumes "toy_receive_packet px e ps = (e', ps', Ok x :: 'r toy_failure + packet receive)"
  shows "((\<exists>p. x = Ready p \<and> te_outputs px e = p # te_outputs px e')
      \<or> te_outputs px e = [] \<and> e' = e \<and> x = (if te_ended e then EndOfStream else NeedInput))
    \<and> te_ended e' = te_ended e \<and> te_max_out e' = te_max_out e"
proof (cases "te_out e")
  case Nil
  show ?thesis
  proof (cases "te_ended e \<and> te_queue e \<noteq> []")
    case True
    then obtain f fs where q: "te_queue e = f # fs" by (cases "te_queue e") auto
    obtain p where p: "toy_encode px (e\<lparr>te_queue := fs\<rparr>) f = (e', Ok p :: 'r toy_failure + packet)" "x = Ready p"
      using assms Nil True q by (auto simp: toy_receive_packet_def map_sum_Inr split: prod.splits sum.splits)
    show ?thesis
      using toy_packets_Ok[OF p(1)] toy_encode_keeps[OF p(1)] p(2) Nil True q
      by (simp add: te_outputs_def del: toy_packets.simps)
  next
    case False
    with assms Nil show ?thesis
      by (auto simp: toy_receive_packet_def te_outputs_def split: prod.splits sum.splits if_splits)
  qed
next
  case (Cons p out)
  with assms show ?thesis
    by (auto simp: toy_receive_packet_def te_outputs_def split: prod.splits sum.splits)
qed

interpretation toy_encoding: session "send_frame (toy_encoder_api px)" "toy_receive_packet px" toy_end_frames
    "\<lambda>e. te_max_out e > 0" "te_outputs px" te_ended for px :: "('p, 'l) planes_api"
proof (unfold_locales, goal_cases)
  case (1 e f ps e' f' ps')
  then show ?case
    by (auto simp: send_frame_def toy_encoder_api_def toy_send_frame_def te_outputs_def Let_def map_sum_Inr
        split: prod.splits sum.splits if_splits option.splits)
next
  case (2 e f ps e' f' ps')
  then show ?case
    by (auto simp: send_frame_def toy_encoder_api_def toy_send_frame_def te_outputs_def Let_def map_sum_Inr
        split: prod.splits sum.splits if_splits option.splits dest!: toy_encode_down_ok)
next
  case (3 e ps e' ps' x y ys)
  with toy_receive_packet_ok[of px e ps e' ps' x] show ?case by auto
next
  case (4 e ps e' ps' x)
  with toy_receive_packet_ok[of px e ps e' ps' x] show ?case by auto
next
  case (5 e e')
  then show ?case by (auto simp: toy_end_frames_def te_outputs_def)
qed

subsection \<open>Witnesses\<close>

text \<open>Planes as their samples, in rows; a decoder with two one-pixel frames ready and a third held back.\<close>

definition sample_planes :: "(byte list, unit) planes_api" where
  "sample_planes = \<lparr> pa_luma = (), pa_mono = (\<lambda>_. True), pa_plane = (\<lambda>bs w h. if length bs = w * h then Some bs else None),
     pa_map = (\<lambda>bs. Some (length bs, 1, [bs])) \<rparr>"

definition sample_frame :: "byte \<Rightarrow> (byte list, unit) frame" where
  "sample_frame b = frame_new [b] (interpretation_new (geometry_full 1 1) ()) frame_timing_default presentation_default"

definition sample_toy :: "(byte list, unit) toy_decoder" where
  "sample_toy = (fst (toy_configure sample_planes (toy_decoder_new 2)
       (with_video (video_track_new 1 1) (codec_config_new toy_codec_id millis_base)) ([] :: unit pulse)))
     \<lparr>td_ready := [sample_frame 1, sample_frame 2], td_hold := [sample_frame 3]\<rparr>"

theorem pumps_deliver_witness:
  "\<exists>s k ps r os. drain_decoder (toy_decoder_api sample_planes) (\<lambda>k x. (k @ [x], Ok () :: unit + unit)) sample_toy [] ([] :: unit pulse)
      = Some (s, k, ps, r) \<and> (r = Ok () \<longrightarrow> take 2 os = [sample_frame 1, sample_frame 2] \<and> td_outputs s = [])"
proof -
  have "session (vd_send (toy_decoder_api sample_planes)) (vd_receive (toy_decoder_api sample_planes))
      (vd_end_input (toy_decoder_api sample_planes)) (\<lambda>_. True) td_outputs td_ended"
    using toy_decoding.session_axioms by (simp add: toy_decoder_api_def)
  note d = conjunct2[OF pumps_deliver[OF this, where s = sample_toy and k = "[]" and ps = "[] :: unit pulse"
      and out = "\<lambda>k x. (k @ [x], Ok () :: unit + unit)"]]
  have r: "td_outputs sample_toy = [sample_frame 1, sample_frame 2]"
    by (simp add: td_outputs_def sample_toy_def toy_configure_def pulse_check_def with_video_def codec_config_new_def
        toy_decoder_new_def Let_def)
  from d obtain s k ps r os where
    "drain_decoder (toy_decoder_api sample_planes) (\<lambda>k x. (k @ [x], Ok () :: unit + unit)) sample_toy [] ([] :: unit pulse)
      = Some (s, k, ps, r)" "r = Ok () \<longrightarrow> td_outputs s = [] \<and> (\<exists>new. os = td_outputs sample_toy @ new)"
    by blast
  moreover from this(2) have "r = Ok () \<longrightarrow> take 2 os = [sample_frame 1, sample_frame 2] \<and> td_outputs s = []"
    unfolding r by auto
  ultimately show ?thesis by blast
qed

theorem fused_session_final_witness:
  "decoder_calls (fused_decoder (toy_decoder_api sample_planes)) [CallReceive, CallEnd]
     \<lparr> fs_inner = toy_decoder_new 2, fs_failed = True \<rparr> ([] :: unit pulse)
   = (\<lparr> fs_inner = toy_decoder_new 2, fs_failed = True \<rparr>, [], [Some SFinished, Some SFinished])"
proof -
  have "decoder_do (fused_decoder (toy_decoder_api sample_planes)) (CallSend (with_payload (Owned [1, 0, 5])))
      (fused_new (toy_decoder_new 2)) ([] :: unit pulse)
    = (\<lparr> fs_inner = toy_decoder_new 2, fs_failed = True \<rparr>, [], Some (SProtocol NotConfigured))"
    by (simp add: fused_decoder_def fused_guard_def fused_new_def toy_decoder_api_def toy_send_def toy_decoder_new_def
        pulse_check_def error_of_def)
  from fused_session_final[OF this, of "[CallReceive, CallEnd]"] show ?thesis by (simp add: numeral_2_eq_2)
qed

end
