(* ===== verification/Media_Container.thy ===== *)
theory Media_Container
  imports Media_Output Slice_Driver
begin

text \<open>
  Containers: \<open>zencodec-media/src/container.rs\<close>. A demuxer is a record of operations on a state of its own;
  \<open>demux_stage\<close> makes it a stage of the byte steppers. The muxer's operations are in \<open>Media_Output\<close>.
\<close>

datatype seek_mode = SeekNearest | SeekAtOrBefore | SeekAtOrAfter

datatype seek_scope = ScopeAny | ScopeRandomAccess

record seek_target =
  target_track :: nat
  target_time :: timestamp
  target_mode :: seek_mode
  target_scope :: seek_scope

record seek_result =
  seek_pts :: timestamp
  seek_ordinal :: nat
  seek_access :: random_access
  seek_epoch :: nat

datatype seek_status = Positioned seek_result | ScanningAhead

datatype demux_event =
    DemuxNeed
  | DemuxHeaders
  | DemuxPacket packet
  | DemuxConfigChanged nat nat
  | DemuxSeeked seek_result
  | DemuxDone

record demux_progress =
  demux_consumed :: nat
  demux_event_of :: demux_event

definition demux_need :: "nat \<Rightarrow> demux_progress" where
  "demux_need n = \<lparr> demux_consumed = n, demux_event_of = DemuxNeed \<rparr>"

record ('d, 'e, 'r) demuxer =
  dx_step :: "'d \<Rightarrow> input \<Rightarrow> 'r pulse \<Rightarrow> 'd \<times> 'r pulse \<times> (('e, 'r) session_error + demux_progress)"
  dx_requested :: "'d \<Rightarrow> input_request list"
  dx_tracks :: "'d \<Rightarrow> track_info list"
  dx_seek :: "'d \<Rightarrow> seek_target \<Rightarrow> 'd \<times> (('e, 'r) session_error + seek_status)"

definition dx_seek_default :: "'d \<Rightarrow> seek_target \<Rightarrow> 'd \<times> (('e, 'r) session_error + seek_status)" where
  "dx_seek_default d t = (d, Err (SUnsupported SeekUnsupported))"

definition begin_exact_default ::
    "'m \<Rightarrow> track_info list \<Rightarrow> mux_hint \<Rightarrow> 'm \<times> (('e, 'r) session_error + mux_timing)" where
  "begin_exact_default m ts h = (m, Err (SUnsupported ExactTiming))"

text \<open>The stage of a demuxer: its state and the pulse are the stage's state.\<close>

definition demux_stage :: "('d, 'e, 'r) demuxer \<Rightarrow> ('d \<times> 'r pulse, ('e, 'r) session_error, demux_event) stage" where
  "demux_stage x d i = (case d of (d, ps) \<Rightarrow> (case dx_step x d i ps of
     (d, ps, Inl e) \<Rightarrow> ((d, ps), Err e)
   | (d, ps, Inr p) \<Rightarrow> ((d, ps), Ok \<lparr> st_consumed = demux_consumed p,
       st_kind = (case demux_event_of p of
         DemuxNeed \<Rightarrow> StepNeed
       | DemuxDone \<Rightarrow> StepFinished DemuxDone
       | other \<Rightarrow> StepOutput other) \<rparr>)))"

definition demux_requested :: "('d, 'e, 'r) demuxer \<Rightarrow> 'd \<times> 'r pulse \<Rightarrow> input_request list" where
  "demux_requested x d = dx_requested x (fst d)"

text \<open>The type-erasing shim converts the muxer's own error and forwards everything else.\<close>

definition muxer_shim :: "('e \<Rightarrow> 'g) \<Rightarrow> ('m, 'e, 'r) muxer \<Rightarrow> ('m, 'g, 'r) muxer" where
  "muxer_shim er x =
     \<lparr> mx_begin = (\<lambda>m ts h. case mx_begin x m ts h of (m, r) \<Rightarrow> (m, map_sum (map_codec er) id r)),
       mx_begin_exact = (\<lambda>m ts h. case mx_begin_exact x m ts h of (m, r) \<Rightarrow> (m, map_sum (map_codec er) id r)),
       mx_write = (\<lambda>m p ps. case mx_write x m p ps of (m, ps, r) \<Rightarrow> (m, ps, map_sum (map_codec er) id r)),
       mx_pending = mx_pending x,
       mx_consume = mx_consume x,
       mx_finish = (\<lambda>m ps. case mx_finish x m ps of (ps, r) \<Rightarrow> (ps, map_sum (map_codec er) id r)) \<rparr>"

definition apply_finish :: "(nat \<Rightarrow> bool) \<Rightarrow> byte list \<Rightarrow> output_finish \<Rightarrow> (byte list \<times> (patch_error + unit)) option" where
  "apply_finish alloc fl f = apply_to alloc f fl"

end
