(* ===== verification/Endian.thy ===== *)
theory Endian
  imports Prelude
begin

text \<open>
  Integers as bytes in either order, and the bounds-checked slice of a byte string: the vocabulary the
  formats of the program share (\<open>from_le_bytes\<close>, \<open>to_be_bytes\<close>, \<open>get(a..b)\<close>).
\<close>

fun le_bytes :: "nat \<Rightarrow> nat \<Rightarrow> byte list" where
  "le_bytes 0 n = []"
| "le_bytes (Suc k) n = word_of_nat n # le_bytes k (n div 256)"

fun le_value :: "byte list \<Rightarrow> nat" where
  "le_value [] = 0"
| "le_value (b # bs) = unat b + 256 * le_value bs"

lemma le_bytes_length [simp]: "length (le_bytes k n) = k"
  by (induction k arbitrary: n) auto

lemma le_value_bytes: "le_value (le_bytes k n) = n mod 256 ^ k"
proof (induction k arbitrary: n)
  case (Suc k)
  have "unat (word_of_nat n :: byte) = n mod 256" by (simp add: unat_of_nat)
  then show ?case using mod_mult2_eq[of n 256 "256 ^ k"] by (simp add: Suc.IH mult.commute)
qed simp

lemma le_value_bound: "le_value bs < 256 ^ length bs"
proof (induction bs)
  case (Cons b bs)
  have "unat b < 256" using unsigned_less[of b, where ?'a = nat] by simp
  with Cons show ?case by simp
qed simp

datatype byte_order = LittleEndian | BigEndian

definition uint_of :: "byte_order \<Rightarrow> byte list \<Rightarrow> nat" where
  "uint_of r bs = (case r of LittleEndian \<Rightarrow> le_value bs | BigEndian \<Rightarrow> le_value (rev bs))"

definition uint_bytes :: "byte_order \<Rightarrow> nat \<Rightarrow> nat \<Rightarrow> byte list" where
  "uint_bytes r k n = (case r of LittleEndian \<Rightarrow> le_bytes k n | BigEndian \<Rightarrow> rev (le_bytes k n))"

lemma uint_bytes_length [simp]: "length (uint_bytes r k n) = k"
  by (cases r) (simp_all add: uint_bytes_def)

lemma uint_roundtrip: "uint_of r (uint_bytes r k n) = n mod 256 ^ k"
  by (cases r) (simp_all add: uint_of_def uint_bytes_def le_value_bytes)

lemma uint_roundtrip_id [simp]: "n < 256 ^ k \<Longrightarrow> uint_of r (uint_bytes r k n) = n"
  by (simp add: uint_roundtrip)

lemma uint_bound: "length bs = k \<Longrightarrow> uint_of r bs < 256 ^ k"
  using le_value_bound[of bs] le_value_bound[of "rev bs"] by (cases r) (auto simp: uint_of_def)

text \<open>\<open>d.get(a..b)\<close>.\<close>

definition slice_get :: "byte list \<Rightarrow> nat \<Rightarrow> nat \<Rightarrow> byte list option" where
  "slice_get d a b = (if a \<le> b \<and> b \<le> length d then Some (take (b - a) (drop a d)) else None)"

lemma slice_get_Some: "slice_get d a b = Some x \<longleftrightarrow> a \<le> b \<and> b \<le> length d \<and> x = take (b - a) (drop a d)"
  by (auto simp: slice_get_def)

lemma slice_get_length: "slice_get d a b = Some x \<Longrightarrow> length x = b - a"
  by (auto simp: slice_get_Some)

lemma slice_get_at:
  assumes "drop a d = x @ z" "b = a + length x" "a \<le> length d"
  shows "slice_get d a b = Some x"
proof -
  have "length d - a = length x + length z" using arg_cong[OF assms(1), of length] by simp
  with assms show ?thesis by (auto simp: slice_get_def)
qed

end
