(* ===== verification/Toy_Container.thy ===== *)
theory Toy_Container
  imports Media_Container Toy_Codec Endian
begin

text \<open>
  The reference container of \<open>zencodec-media-testkit/src/toy.rs\<close>: a header of twenty bytes, then one record
  a packet (length, timestamp, a flag, the payload), all little-endian. The muxer writes into an
  \<open>OutputBuffer\<close> and can patch the packet count in at the finish; the demuxer reads in order, or scans
  the record headers to seek. What the muxer, its output driver, the slice cursor and the demuxer do
  together is stated at the end.
\<close>

subsection \<open>Little-endian integers\<close>

definition u16_at :: "byte list \<Rightarrow> nat \<Rightarrow> nat" where
  "u16_at b i = le_value (take 2 (drop i b))"

definition u32_at :: "byte list \<Rightarrow> nat \<Rightarrow> nat" where
  "u32_at b i = le_value (take 4 (drop i b))"

definition i64_at :: "byte list \<Rightarrow> nat \<Rightarrow> int" where
  "i64_at b i = (let n = int (le_value (take 8 (drop i b))) in if n < 2 ^ 63 then n else n - 2 ^ 64)"

definition i64_bytes :: "int \<Rightarrow> byte list" where
  "i64_bytes t = le_bytes 8 (nat (t mod 2 ^ 64))"

lemma i64_roundtrip:
  assumes "- (2 ^ 63) \<le> t" "t < 2 ^ 63"
  shows "i64_at (a @ i64_bytes t @ z) (length a) = t"
proof -
  have "int (nat (t mod 2 ^ 64) mod 256 ^ 8) = t mod 2 ^ 64"
    by (simp add: nat_mod_distrib zmod_int)
  moreover have "t mod 2 ^ 64 = (if t < 0 then t + 2 ^ 64 else t)"
  proof (cases "t < 0")
    case True
    have "(t + 2 ^ 64) mod 2 ^ 64 = t + 2 ^ 64" using assms True by (intro mod_pos_pos_trivial) auto
    with True show ?thesis by simp
  next
    case False
    with assms show ?thesis by (simp add: mod_pos_pos_trivial)
  qed
  ultimately show ?thesis using assms by (auto simp: i64_at_def i64_bytes_def le_value_bytes Let_def)
qed

definition MAGIC :: "byte list" where "MAGIC = [84, 73, 86, 70]"
definition HEADER_LEN :: nat where "HEADER_LEN = 20"
definition PACKET_HEADER_LEN :: nat where "PACKET_HEADER_LEN = 13"
definition COUNT_OFFSET :: nat where "COUNT_OFFSET = 16"

subsection \<open>The muxer\<close>

record toy_muxer =
  tm_out :: output_buffer
  tm_begun :: bool
  tm_write_count :: bool
  tm_base :: "time_base option"
  tm_count :: nat

definition toy_muxer_new :: "bool \<Rightarrow> toy_muxer" where
  "toy_muxer_new wc = \<lparr> tm_out = buffer_new, tm_begun = False, tm_write_count = wc, tm_base = None, tm_count = 0 \<rparr>"

text \<open>The pushes into the output buffer, one after the other.\<close>

definition push_all :: "byte list list \<Rightarrow> output_buffer \<Rightarrow> output_buffer" where
  "push_all xs b = fold push_bytes xs b"

definition toy_begin :: "toy_muxer \<Rightarrow> track_info list \<Rightarrow> mux_hint \<Rightarrow> toy_muxer \<times> ('r toy_failure + mux_timing)" where
  "toy_begin m tracks hint =
     (if tm_begun m then (m, Err (SProtocol BeginTwice))
      else case tracks of
        [t] \<Rightarrow> (case (if track_kind_of t = KindVideo then video_info t else None) of
            None \<Rightarrow> (m, Err (SCodec WrongTrackCount))
          | Some v \<Rightarrow>
              if tm_write_count m \<and> forward_only hint then (m, Err (SUnsupported ForwardOnlyLayout))
              else if coded_width v > 65535 \<or> coded_height v > 65535 then (m, Err (SCodec ShapeMismatch))
              else let tb = track_time_base t;
                       out = push_all [MAGIC, le_bytes 2 (coded_width v), le_bytes 2 (coded_height v),
                               le_bytes 4 (tb_num tb), le_bytes 4 (tb_den tb), le_bytes 4 0] (tm_out m)
                   in (m\<lparr>tm_out := out, tm_base := Some tb, tm_begun := True\<rparr>,
                       Ok (if tm_write_count m then timing_with_patches else timing_streaming)))
      | _ \<Rightarrow> (m, Err (SCodec WrongTrackCount)))"

definition toy_write :: "toy_muxer \<Rightarrow> packet \<Rightarrow> 'r pulse \<Rightarrow> toy_muxer \<times> 'r pulse \<times> ('r toy_failure + unit)" where
  "toy_write m p ps = (case pulse_check ps of
     (ps, Inl r) \<Rightarrow> (m, ps, Err (SCancelled r))
   | (ps, Inr _) \<Rightarrow>
       if \<not> tm_begun m then (m, ps, Err (SProtocol NoBegin))
       else case pts p of
         None \<Rightarrow> (m, ps, Err (SProtocol MissingTimestamp))
       | Some t \<Rightarrow>
           if Some (ts_base t) \<noteq> tm_base m then (m, ps, Err (SProtocol ClockMismatch))
           else if is_taken p then (m, ps, Err (SProtocol EmptyPacket))
           else let bs = bytes_of p;
                    out = push_all [le_bytes 4 (length bs), i64_bytes (ts_ticks t),
                            [if random_access_of p = Yes then 1 else 0], bs] (tm_out m)
                in (m\<lparr>tm_out := out, tm_count := wrap u32_max (tm_count m + 1)\<rparr>, ps, Ok ()))"

definition toy_finish :: "toy_muxer \<Rightarrow> 'r pulse \<Rightarrow> 'r pulse \<times> ('r toy_failure + output_finish)" where
  "toy_finish m ps = (case pulse_check ps of
     (ps, Inl r) \<Rightarrow> (ps, Err (SCancelled r))
   | (ps, Inr _) \<Rightarrow>
       if \<not> tm_begun m then (ps, Err (SProtocol NoBegin))
       else (ps, Ok (finish_new (into_remaining (tm_out m))
         (if tm_write_count m then [\<lparr> patch_offset = COUNT_OFFSET, patch_bytes = le_bytes 4 (tm_count m) \<rparr>] else []))))"

definition toy_mux :: "(toy_muxer, toy_error, 'r) muxer" where
  "toy_mux = \<lparr> mx_begin = toy_begin, mx_begin_exact = begin_exact_default, mx_write = toy_write,
     mx_pending = (\<lambda>m. pending (tm_out m)), mx_consume = (\<lambda>n m. m\<lparr>tm_out := consume n (tm_out m)\<rparr>),
     mx_finish = toy_finish \<rparr>"

subsection \<open>The demuxer\<close>

record index_entry =
  ix_offset :: nat
  ix_pts :: int
  ix_access :: bool
  ix_ordinal :: nat

datatype toy_state = ToyHeader | ToyPackets | ToyScanning | ToyDone

record toy_demuxer =
  dm_limits :: media_limits
  dm_state :: toy_state
  dm_tracks :: "track_info list"
  dm_requests :: "input_request list"
  dm_base :: "time_base option"
  dm_pos :: nat
  dm_ordinal :: nat
  dm_declared :: nat
  dm_emitted :: nat
  dm_index :: "index_entry list"
  dm_complete :: bool
  dm_scan_pos :: nat
  dm_scan_ordinal :: nat
  dm_seek :: "seek_target option"

definition toy_demuxer_new :: "media_limits \<Rightarrow> toy_demuxer" where
  "toy_demuxer_new l = \<lparr> dm_limits = l, dm_state = ToyHeader, dm_tracks = [], dm_requests = [], dm_base = None,
     dm_pos = 0, dm_ordinal = 0, dm_declared = 0, dm_emitted = 0, dm_index = [], dm_complete = False,
     dm_scan_pos = HEADER_LEN, dm_scan_ordinal = 0, dm_seek = None \<rparr>"

type_synonym 'r demuxed = "toy_demuxer \<times> ('r toy_failure + demux_progress)"

definition toy_need :: "input_request \<Rightarrow> toy_demuxer \<Rightarrow> 'r demuxed" where
  "toy_need r d = (d\<lparr>dm_requests := dm_requests d @ [r]\<rparr>, Ok (demux_need 0))"

definition toy_note :: "index_entry \<Rightarrow> toy_demuxer \<Rightarrow> toy_demuxer" where
  "toy_note e d = (if \<not> dm_complete d \<and> length (dm_index d) = ix_ordinal e
     then d\<lparr>dm_index := dm_index d @ [e], dm_scan_pos := ix_offset e, dm_scan_ordinal := ix_ordinal e\<rparr> else d)"

text \<open>\<open>min_by\<close> returns the first least element, \<open>max_by_key\<close> the last greatest.\<close>

fun first_least :: "('a \<Rightarrow> 'a \<Rightarrow> bool) \<Rightarrow> 'a list \<Rightarrow> 'a option" where
  "first_least lt [] = None"
| "first_least lt (x # xs) = (case first_least lt xs of None \<Rightarrow> Some x | Some y \<Rightarrow> Some (if lt y x then y else x))"

fun last_greatest :: "('a \<Rightarrow> 'a \<Rightarrow> bool) \<Rightarrow> 'a list \<Rightarrow> 'a option" where
  "last_greatest lt [] = None"
| "last_greatest lt (x # xs) = (case last_greatest lt xs of None \<Rightarrow> Some x | Some y \<Rightarrow> Some (if lt y x then x else y))"

definition toy_pick :: "toy_demuxer \<Rightarrow> seek_target \<Rightarrow> 'r toy_failure + index_entry" where
  "toy_pick d g = (case dm_base d of
     None \<Rightarrow> Err (SCodec HeadersFirst)
   | Some tb \<Rightarrow>
       let t = target_time g;
           candidates = filter (\<lambda>e. target_scope g = ScopeAny \<or> ix_access e) (dm_index d);
           position = (\<lambda>e. ix_pts e * int (tb_num tb) * int (tb_den (ts_base t)));
           want = ts_ticks t * int (tb_num (ts_base t)) * int (tb_den tb);
           distance = (\<lambda>e. i128_wrap \<bar>i128_wrap (position e - want)\<bar>);
           chosen = (case target_mode g of
               SeekNearest \<Rightarrow> first_least (\<lambda>a b. distance a < distance b
                 \<or> distance a = distance b \<and> ix_pts a < ix_pts b) candidates
             | SeekAtOrBefore \<Rightarrow> last_greatest (\<lambda>a b. ix_pts a < ix_pts b) (filter (\<lambda>e. position e \<le> want) candidates)
             | SeekAtOrAfter \<Rightarrow> first_least (\<lambda>a b. ix_pts a < ix_pts b) (filter (\<lambda>e. position e \<ge> want) candidates))
       in ok_or (SCodec NoSuchFrame) chosen)"

text \<open>
  Where the code has \<open>expect("headers")\<close> and \<open>expect("scanning implies a target")\<close>, the model's
  branch answers \<open>HeadersFirst\<close> in place of the panic. \<open>toy_step_expects\<close> below shows that no
  sequence of calls that succeed leads a step there, and a \<open>Fused\<close> session makes no call after one
  that failed.
\<close>

definition toy_position :: "index_entry \<Rightarrow> toy_demuxer \<Rightarrow> toy_demuxer \<times> ('r toy_failure + seek_result)" where
  "toy_position e d = (case dm_base d of
     None \<Rightarrow> (d, Err (SCodec HeadersFirst))
   | Some tb \<Rightarrow> (d\<lparr>dm_pos := ix_offset e, dm_ordinal := ix_ordinal e, dm_state := ToyPackets\<rparr>,
       Ok \<lparr> seek_pts = \<lparr> ts_ticks = ix_pts e, ts_base = tb \<rparr>, seek_ordinal = ix_ordinal e,
            seek_access = (if ix_access e then Yes else No), seek_epoch = 0 \<rparr>))"

definition toy_header :: "toy_demuxer \<Rightarrow> input \<Rightarrow> 'r demuxed" where
  "toy_header d i =
     (let b = in_bytes i in
      if in_offset i \<noteq> 0 then toy_need (AtLeast 0 HEADER_LEN) d
      else if length b < HEADER_LEN then
        (if reaches_end i then (d, Err (SCodec TruncatedStream)) else toy_need (AtLeast 0 HEADER_LEN) d)
      else if take 4 b \<noteq> MAGIC then (d, Err (SCodec BadMagic))
      else case time_base_new (u32_at b 8) (u32_at b 12) of
        Inl _ \<Rightarrow> (d, Err (SCodec BadTimeBase))
      | Inr tb \<Rightarrow>
          let d = d\<lparr>dm_declared := u32_at b 16\<rparr>;
              t = track_video 0 toy_codec_id tb (video_track_new (u16_at b 4) (u16_at b 6));
              t = (if dm_declared d \<noteq> 0 then with_declared_packets (dm_declared d) t else t)
          in (case track_build t of
            Inl _ \<Rightarrow> (d, Err (SCodec ShapeMismatch))
          | Inr t \<Rightarrow> (d\<lparr>dm_tracks := [t], dm_base := Some tb, dm_state := ToyPackets, dm_pos := HEADER_LEN\<rparr>,
              Ok \<lparr> demux_consumed = HEADER_LEN, demux_event_of = DemuxHeaders \<rparr>)))"

definition toy_emit :: "toy_demuxer \<Rightarrow> byte list \<Rightarrow> nat \<Rightarrow> 'r demuxed" where
  "toy_emit d b n =
     (case (dm_base d, from_vec (drop PACKET_HEADER_LEN (take n b))) of
        (None, _) \<Rightarrow> (d, Err (SCodec HeadersFirst))
      | (Some tb, Inl _) \<Rightarrow> (d, Err (SCodec BadPayload))
      | (Some tb, Inr p) \<Rightarrow>
          let t = i64_at b 4; key = odd (unat (b ! 12));
              p = with_input_offset (dm_pos d) (with_ordinal (dm_ordinal d) (with_track 0
                    (with_random_access (if key then Yes else No) (with_pts \<lparr> ts_ticks = t, ts_base = tb \<rparr> p))));
              d = toy_note \<lparr> ix_offset = dm_pos d, ix_pts = t, ix_access = key, ix_ordinal = dm_ordinal d \<rparr> d;
              d = d\<lparr>dm_pos := dm_pos d + n\<rparr>;
              d = d\<lparr>dm_scan_pos := max (dm_scan_pos d) (dm_pos d),
                    dm_scan_ordinal := max (dm_scan_ordinal d) (dm_ordinal d + 1)\<rparr>
          in (d\<lparr>dm_ordinal := dm_ordinal d + 1, dm_emitted := dm_emitted d + 1\<rparr>,
              Ok \<lparr> demux_consumed = n, demux_event_of = DemuxPacket p \<rparr>))"

definition toy_packet :: "toy_demuxer \<Rightarrow> input \<Rightarrow> 'r demuxed" where
  "toy_packet d i =
     (let b = in_bytes i in
      if in_offset i \<noteq> dm_pos d then toy_need (AtLeast (dm_pos d) PACKET_HEADER_LEN) d
      else if b = [] \<and> reaches_end i then
        (let d = d\<lparr>dm_state := ToyDone, dm_complete := True\<rparr> in
         if dm_declared d \<noteq> 0 \<and> dm_emitted d \<noteq> dm_declared d then (d, Err (SCodec TruncatedStream))
         else (d, Ok \<lparr> demux_consumed = 0, demux_event_of = DemuxDone \<rparr>))
      else if length b < PACKET_HEADER_LEN then
        (if reaches_end i then (d, Err (SCodec TruncatedStream))
         else toy_need (AtLeast (dm_pos d) PACKET_HEADER_LEN) d)
      else case check_packet_bytes (dm_limits d) (u32_at b 0) of
        Inl e \<Rightarrow> (d, Err (SLimit e))
      | Inr _ \<Rightarrow>
          let n = PACKET_HEADER_LEN + u32_at b 0 in
          if length b < n then
            (if reaches_end i then (d, Err (SCodec TruncatedStream)) else toy_need (AtLeast (dm_pos d) n) d)
          else toy_emit d b n)"

definition toy_seeked :: "nat \<Rightarrow> toy_demuxer \<Rightarrow> 'r demuxed" where
  "toy_seeked n d = (case dm_seek d of
     None \<Rightarrow> (d\<lparr>dm_complete := True\<rparr>, Err (SCodec HeadersFirst))
   | Some g \<Rightarrow>
       let d = d\<lparr>dm_complete := True, dm_seek := None\<rparr> in (case toy_pick d g of
         Inl e \<Rightarrow> (d, Err e)
       | Inr e \<Rightarrow> (case toy_position e d of
           (d, Inl x) \<Rightarrow> (d, Err x)
         | (d, Inr r) \<Rightarrow> (d, Ok \<lparr> demux_consumed = n, demux_event_of = DemuxSeeked r \<rparr>))))"

definition toy_scan :: "toy_demuxer \<Rightarrow> input \<Rightarrow> 'r demuxed" where
  "toy_scan d i = (case in_total i of
     None \<Rightarrow> toy_need Len d
   | Some extent \<Rightarrow>
       let b = in_bytes i in
       if dm_scan_pos d \<ge> extent then toy_seeked 0 d
       else if in_offset i \<noteq> dm_scan_pos d \<or> length b < PACKET_HEADER_LEN then
         (if in_offset i = dm_scan_pos d \<and> reaches_end i then (d, Err (SCodec TruncatedStream))
          else toy_need (RangeOf \<lparr> br_offset = dm_scan_pos d, br_length = PACKET_HEADER_LEN \<rparr>) d)
       else
         let e = \<lparr> ix_offset = dm_scan_pos d, ix_pts = i64_at b 4, ix_access = odd (unat (b ! 12)),
                   ix_ordinal = dm_scan_ordinal d \<rparr>;
             d = (if length (dm_index d) = ix_ordinal e then d\<lparr>dm_index := dm_index d @ [e]\<rparr> else d);
             d = d\<lparr>dm_scan_pos := dm_scan_pos d + PACKET_HEADER_LEN + u32_at b 0,
                   dm_scan_ordinal := dm_scan_ordinal d + 1\<rparr>
         in if dm_scan_pos d \<ge> extent then toy_seeked PACKET_HEADER_LEN d
            else (d\<lparr>dm_requests := dm_requests d @ [RangeOf \<lparr> br_offset = dm_scan_pos d, br_length = PACKET_HEADER_LEN \<rparr>]\<rparr>,
                  Ok (demux_need PACKET_HEADER_LEN)))"

definition toy_step :: "toy_demuxer \<Rightarrow> input \<Rightarrow> 'r pulse \<Rightarrow> toy_demuxer \<times> 'r pulse \<times> ('r toy_failure + demux_progress)" where
  "toy_step d i ps = (case pulse_check ps of
     (ps, Inl r) \<Rightarrow> (d, ps, Err (SCancelled r))
   | (ps, Inr _) \<Rightarrow>
       let d = d\<lparr>dm_requests := []\<rparr> in (case (case dm_state d of
           ToyHeader \<Rightarrow> toy_header d i
         | ToyPackets \<Rightarrow> toy_packet d i
         | ToyScanning \<Rightarrow> toy_scan d i
         | ToyDone \<Rightarrow> (d, Ok \<lparr> demux_consumed = 0, demux_event_of = DemuxDone \<rparr>)) of
         (d, r) \<Rightarrow> (d, ps, r)))"

definition toy_seek :: "toy_demuxer \<Rightarrow> seek_target \<Rightarrow> toy_demuxer \<times> ('r toy_failure + seek_status)" where
  "toy_seek d g =
     (if dm_state d = ToyHeader then (d, Err (SCodec HeadersFirst))
      else if target_track g \<noteq> 0 then (d, Err (SCodec NoSuchTrack))
      else if dm_complete d then (case toy_pick d g of
        Inl e \<Rightarrow> (d, Err e)
      | Inr e \<Rightarrow> (case toy_position e d of (d, r) \<Rightarrow> (d, map_sum id Positioned r)))
      else (d\<lparr>dm_seek := Some g, dm_state := ToyScanning\<rparr>, Ok ScanningAhead))"

text \<open>What the two \<open>expect\<close>s rely on, and that steps and seeks keep it until one fails.\<close>

definition toy_ready :: "toy_demuxer \<Rightarrow> bool" where
  "toy_ready d \<longleftrightarrow> (dm_state d \<noteq> ToyHeader \<longrightarrow> dm_base d \<noteq> None) \<and> (dm_state d = ToyScanning \<longrightarrow> dm_seek d \<noteq> None)"

lemma toy_ready_new: "toy_ready (toy_demuxer_new l)"
  by (simp add: toy_ready_def toy_demuxer_new_def)

lemma toy_seek_ready: "toy_ready d \<Longrightarrow> toy_seek d g = (d', r) \<Longrightarrow> toy_ready d'"
  by (auto simp: toy_ready_def toy_seek_def toy_position_def split: if_splits sum.splits option.splits)

lemma toy_seeked_ready:
  assumes "dm_base d \<noteq> None" "dm_seek d \<noteq> None" "toy_seeked n d = (d', r)"
  shows "r \<noteq> Err (SCodec HeadersFirst) \<and> (\<forall>x. r = Ok x \<longrightarrow> toy_ready d')"
  using assms
  by (auto simp: toy_seeked_def toy_pick_def toy_position_def toy_ready_def Let_def ok_or_def
      split: sum.splits option.splits prod.splits)

lemma toy_packet_ready:
  assumes "dm_base d \<noteq> None" "dm_state d = ToyPackets" "toy_packet d i = (d', r)"
  shows "r \<noteq> Err (SCodec HeadersFirst) \<and> toy_ready d'"
  using assms
  by (auto simp: toy_packet_def toy_emit_def toy_need_def toy_note_def toy_ready_def Let_def
      split: if_splits sum.splits option.splits)

lemma toy_step_expects:
  assumes "toy_ready d" "toy_step d i ps = (d', ps', r)"
  shows "r \<noteq> Err (SCodec HeadersFirst) \<and> (\<forall>x. r = Ok x \<longrightarrow> toy_ready d')"
proof -
  obtain ps1 c where check: "pulse_check ps = (ps1, c)" by fastforce
  show ?thesis
  proof (cases c)
    case (Inl x)
    then show ?thesis using assms check by (auto simp: toy_step_def)
  next
    case (Inr u)
    note run = assms(2) [unfolded toy_step_def check Inr, simplified Let_def]
    show ?thesis
    proof (cases "dm_state d")
      case ToyHeader
      then show ?thesis using run
        by (auto simp: toy_header_def toy_need_def toy_ready_def Let_def split: if_splits sum.splits)
    next
      case ToyPackets
      then have "toy_packet (d\<lparr>dm_requests := []\<rparr>) i = (d', r)" using run by (simp split: prod.splits)
      from toy_packet_ready [OF _ _ this] ToyPackets assms(1) have "r \<noteq> Err (SCodec HeadersFirst) \<and> toy_ready d'"
        by (auto simp: toy_ready_def)
      then show ?thesis by blast
    next
      case ToyScanning
      then have ready: "dm_base d \<noteq> None" "dm_seek d \<noteq> None" using assms(1) by (simp_all add: toy_ready_def)
      have "toy_scan (d\<lparr>dm_requests := []\<rparr>) i = (d', r)" using run ToyScanning by (simp split: prod.splits)
      then show ?thesis using ready ToyScanning
        by (auto simp: toy_scan_def toy_need_def toy_ready_def Let_def split: option.splits if_splits
            dest!: toy_seeked_ready [rotated 2])
    next
      case ToyDone
      then show ?thesis using run assms(1) by (auto simp: toy_ready_def)
    qed
  qed
qed

definition toy_demux :: "(toy_demuxer, toy_error, 'r) demuxer" where
  "toy_demux = \<lparr> dx_step = toy_step, dx_requested = dm_requests, dx_tracks = dm_tracks, dx_seek = toy_seek \<rparr>"

subsection \<open>The format\<close>

definition header_bytes :: "nat \<Rightarrow> nat \<Rightarrow> time_base \<Rightarrow> nat \<Rightarrow> byte list" where
  "header_bytes w h tb n = MAGIC @ le_bytes 2 w @ le_bytes 2 h @ le_bytes 4 (tb_num tb) @ le_bytes 4 (tb_den tb) @ le_bytes 4 n"

definition ticks_of :: "packet \<Rightarrow> int" where
  "ticks_of p = (case pts p of None \<Rightarrow> 0 | Some t \<Rightarrow> ts_ticks t)"

definition record_bytes :: "packet \<Rightarrow> byte list" where
  "record_bytes p = le_bytes 4 (length (bytes_of p)) @ i64_bytes (ticks_of p)
     @ [if random_access_of p = Yes then 1 else 0] @ bytes_of p"

text \<open>What the demuxer makes of a packet: the ordinal and the offset are those of the file.\<close>

definition read_back :: "time_base \<Rightarrow> nat \<Rightarrow> nat \<Rightarrow> packet \<Rightarrow> packet" where
  "read_back tb k off p = with_input_offset off (with_ordinal k (with_track 0 (with_random_access
     (if random_access_of p = Yes then Yes else No)
     (with_pts \<lparr> ts_ticks = ticks_of p, ts_base = tb \<rparr> (with_payload (Owned (bytes_of p)))))))"

fun read_all :: "time_base \<Rightarrow> nat \<Rightarrow> nat \<Rightarrow> packet list \<Rightarrow> packet list" where
  "read_all tb k off [] = []"
| "read_all tb k off (p # ps) = read_back tb k off p # read_all tb (Suc k) (off + length (record_bytes p)) ps"

definition fits_record :: "media_limits \<Rightarrow> packet \<Rightarrow> bool" where
  "fits_record l p \<longleftrightarrow> bytes_of p \<noteq> [] \<and> length (bytes_of p) < 2 ^ 32 \<and> - (2 ^ 63) \<le> ticks_of p \<and> ticks_of p < 2 ^ 63
     \<and> check_packet_bytes l (length (bytes_of p)) = Ok ()"

lemma i64_bytes_length [simp]: "length (i64_bytes t) = 8"
  by (simp add: i64_bytes_def)

lemma record_length: "length (record_bytes p) = PACKET_HEADER_LEN + length (bytes_of p)"
  by (simp add: record_bytes_def PACKET_HEADER_LEN_def)

lemma header_length [simp]: "length (header_bytes w h tb n) = HEADER_LEN"
  by (simp add: header_bytes_def MAGIC_def HEADER_LEN_def)

lemma u32_at_start: "n < 2 ^ 32 \<Longrightarrow> length a = i \<Longrightarrow> u32_at (a @ le_bytes 4 n @ z) i = n"
  by (simp add: u32_at_def le_value_bytes)

lemma u16_at_start: "n < 2 ^ 16 \<Longrightarrow> length a = i \<Longrightarrow> u16_at (a @ le_bytes 2 n @ z) i = n"
  by (simp add: u16_at_def le_value_bytes)

text \<open>What the demuxer reads off the start of a record, of which at least the header is there.\<close>

lemma record_fields:
  assumes "fits_record l p" "PACKET_HEADER_LEN \<le> length b" "b = take (length b) (record_bytes p @ z)"
  shows "u32_at b 0 = length (bytes_of p)" "i64_at b 4 = ticks_of p"
    "odd (unat (b ! 12)) \<longleftrightarrow> random_access_of p = Yes"
    "PACKET_HEADER_LEN + length (bytes_of p) \<le> length b
      \<Longrightarrow> drop PACKET_HEADER_LEN (take (PACKET_HEADER_LEN + length (bytes_of p)) b) = bytes_of p"
proof -
  let ?n = "length b"
  have n: "13 \<le> ?n" using assms(2) by (simp add: PACKET_HEADER_LEN_def)
  then obtain m where m: "?n = 13 + m" using le_Suc_ex by blast
  define r where "r = take m (bytes_of p @ z)"
  have "b = take (13 + m) (record_bytes p @ z)" using assms(3) m by simp
  then have b: "b = le_bytes 4 (length (bytes_of p)) @ i64_bytes (ticks_of p)
      @ [if random_access_of p = Yes then 1 else 0] @ r"
    by (simp add: record_bytes_def r_def)
  show "u32_at b 0 = length (bytes_of p)"
    using u32_at_start[of "length (bytes_of p)" "[]" 0] assms(1) by (simp add: b fits_record_def)
  show "i64_at b 4 = ticks_of p"
    using i64_roundtrip[of "ticks_of p" "le_bytes 4 (length (bytes_of p))"] assms(1) by (simp add: b fits_record_def)
  show "odd (unat (b ! 12)) \<longleftrightarrow> random_access_of p = Yes"
    by (simp add: b nth_append)
  show "drop PACKET_HEADER_LEN (take (PACKET_HEADER_LEN + length (bytes_of p)) b) = bytes_of p"
    if "PACKET_HEADER_LEN + length (bytes_of p) \<le> length b"
  proof -
    have "length (bytes_of p) \<le> m" using that m by (simp add: PACKET_HEADER_LEN_def)
    then have "take (length (bytes_of p)) r = bytes_of p" by (simp add: r_def min_absorb1)
    then show ?thesis by (simp add: b PACKET_HEADER_LEN_def)
  qed
qed

subsection \<open>Reading a file through the slice cursor\<close>

text \<open>A stage that asks for bytes of the file that it was not offered is served them and asked again.\<close>

lemma slice_next_served:
  assumes "step d (slice_input f s e) = (d', Ok \<lparr> st_consumed = 0, st_kind = StepNeed \<rparr>)" "requested d' = [AtLeast off n]"
    "slice_offer f c = (c1, slice_input f s e)" "s \<le> e" "e \<le> length f" "length f \<le> u64_max" "0 < n" "off + n \<le> length f \<or> off = length f \<and> s \<noteq> off \<and> n \<le> u64_max - off"
    "s = off \<Longrightarrow> e < off + n"
  shows "\<exists>c'. slice_next step requested f c d = slice_next step requested f c' d' \<and> sc_start c' = off
    \<and> sc_end c' = min (off + max n (sc_window c)) (length f) \<and> sc_window c' = sc_window c"
proof -
  have c1: "sc_window c1 = sc_window c" "sc_start c1 \<le> sc_end c1"
    using assms(3) by (auto simp: slice_offer_def Let_def)
  have "\<not> address_overflows (AtLeast off n)" using assms(6,7,8) by (auto simp: address_overflows_def)
  moreover have "\<not> is_satisfied_by (AtLeast off n) (slice_input f s e)"
    using assms(4,5,6,8,9) by (auto simp: input_end_def saturating_add_def)
  ultimately have need: "check_need [AtLeast off n] (slice_input f s e) 0 = Ok ()"
    using assms(5,8) by (auto simp: check_need_Ok)
  have e: "min (saturating_add usize_max off (max n (sc_window c))) (length f) = min (off + max n (sc_window c)) (length f)"
    using assms(6) by (auto simp: saturating_add_def)
  let ?c = "slice_take 0 c1"
  have "slice_serve f [AtLeast off n] ?c
      = Some (?c\<lparr>sc_start := off, sc_end := min (off + max n (sc_window c)) (length f),
          sc_stats := count_read (min (off + max n (sc_window c)) (length f) - off) (sc_stats ?c)\<rparr>)"
    using assms(8) c1(1) e by (auto simp: slice_serve_def slice_span_def slice_take_def)
  then show ?thesis
    using assms(1,2,3) need c1
    by (subst slice_next.simps) (auto simp: slice_take_def)
qed

definition toy_at :: "media_limits \<Rightarrow> time_base \<Rightarrow> nat \<Rightarrow> nat \<Rightarrow> nat \<Rightarrow> toy_demuxer \<Rightarrow> bool" where
  "toy_at l tb n off k d \<longleftrightarrow> dm_limits d = l \<and> dm_state d = ToyPackets \<and> dm_base d = Some tb \<and> dm_pos d = off
     \<and> dm_ordinal d = k \<and> dm_declared d = n \<and> dm_emitted d = k"

abbreviation toy_stage :: "(toy_demuxer \<times> 'r pulse, 'r toy_failure, demux_event) stage" where
  "toy_stage \<equiv> demux_stage toy_demux"

abbreviation toy_next ::
    "byte list \<Rightarrow> slice_cursor \<Rightarrow> toy_demuxer
      \<Rightarrow> (slice_cursor \<times> (toy_demuxer \<times> unit pulse) \<times> ((unit toy_failure, unit) drive_failure + demux_event yield)) ending option"
where
  "toy_next f c d \<equiv> slice_next toy_stage (demux_requested toy_demux) f c (d, [])"

lemma offer_shape:
  "\<exists>c1 s e. slice_offer f c = (c1, slice_input f s e) \<and> s \<le> e \<and> e \<le> length f \<and> sc_start c1 = s \<and> sc_end c1 = e
    \<and> s = min (sc_start c) (min (sc_end c) (length f)) \<and> e = min (sc_end c) (length f) \<and> sc_window c1 = sc_window c"
  by (auto simp: slice_offer_def Let_def)

lemma toy_stage_packets:
  assumes "toy_at l tb n off k d" "toy_packet (d\<lparr>dm_requests := []\<rparr>) i = (d', r)"
  shows "toy_stage (d, []) i = ((d', []), map_sum id (\<lambda>p. \<lparr> st_consumed = demux_consumed p,
    st_kind = (case demux_event_of p of DemuxNeed \<Rightarrow> StepNeed | DemuxDone \<Rightarrow> StepFinished DemuxDone | x \<Rightarrow> StepOutput x) \<rparr>) r)"
  using assms
  by (auto simp: demux_stage_def toy_demux_def toy_step_def pulse_check_def toy_at_def split: sum.splits prod.splits)

text \<open>Where the next record lies, what the demuxer makes of a part of the file.\<close>

lemma toy_packet_waits:
  assumes "toy_at l tb n off k d" "drop off f = record_bytes p @ z" "s \<le> e" "e \<le> length f" "length f \<le> u64_max"
    "s \<noteq> off \<or> e - s < PACKET_HEADER_LEN"
  shows "toy_packet d (slice_input f s e) = toy_need (AtLeast off PACKET_HEADER_LEN) d"
proof -
  have "length f - off = PACKET_HEADER_LEN + length (bytes_of p) + length z"
    using arg_cong[OF assms(2), of length] by (simp add: record_length)
  moreover have "dm_pos d = off" using assms(1) by (simp add: toy_at_def)
  ultimately show ?thesis
    using assms(3-6) unfolding toy_packet_def Let_def
    by (auto simp: reaches_end_def input_end_def saturating_add_def PACKET_HEADER_LEN_def)
qed

lemma toy_packet_bytes:
  assumes "drop off f = record_bytes p @ z" "off \<le> e" "e \<le> length f"
  shows "in_bytes (slice_input f off e) = take (length (in_bytes (slice_input f off e))) (record_bytes p @ z)"
    and "length (in_bytes (slice_input f off e)) = e - off"
  using assms(2,3) by (simp_all add: drop_take assms(1)[symmetric])

lemma toy_packet_wants_body:
  assumes "toy_at l tb n off k d" "fits_record l p" "drop off f = record_bytes p @ z" "off \<le> e" "e \<le> length f"
    "length f \<le> u64_max" "PACKET_HEADER_LEN \<le> e - off" "e - off < length (record_bytes p)"
  shows "toy_packet d (slice_input f off e) = toy_need (AtLeast off (length (record_bytes p))) d"
proof -
  let ?b = "in_bytes (slice_input f off e)"
  note b = toy_packet_bytes[OF assms(3,4,5)]
  have len: "length f - off = length (record_bytes p) + length z"
    using arg_cong[OF assms(3), of length] by simp
  have at: "dm_pos d = off" "dm_limits d = l" using assms(1) by (simp_all add: toy_at_def)
  have f: "u32_at ?b 0 = length (bytes_of p)"
    using record_fields(1)[OF assms(2) _ b(1)] b(2) assms(7) by simp
  have "\<not> reaches_end (slice_input f off e)"
    using assms(4-6,8) len by (auto simp: reaches_end_def input_end_def saturating_add_def)
  moreover have "?b \<noteq> []" using b(2) assms(7) by (auto simp: PACKET_HEADER_LEN_def)
  ultimately show ?thesis
    using assms(2,7,8) b(2) f at unfolding toy_packet_def Let_def
    by (simp add: fits_record_def record_length)
qed

lemma toy_note_keeps [simp]:
  "dm_limits (toy_note e d) = dm_limits d" "dm_state (toy_note e d) = dm_state d" "dm_base (toy_note e d) = dm_base d"
  "dm_pos (toy_note e d) = dm_pos d" "dm_ordinal (toy_note e d) = dm_ordinal d"
  "dm_declared (toy_note e d) = dm_declared d" "dm_emitted (toy_note e d) = dm_emitted d"
  by (simp_all add: toy_note_def)

lemma toy_emit_record:
  assumes "toy_at l tb n off k d" "bytes_of p \<noteq> []" "i64_at b 4 = ticks_of p" "odd (unat (b ! 12)) \<longleftrightarrow> random_access_of p = Yes"
    "drop PACKET_HEADER_LEN (take m b) = bytes_of p"
  shows "\<exists>d'. toy_emit d b m = (d', Ok \<lparr> demux_consumed = m, demux_event_of = DemuxPacket (read_back tb k off p) \<rparr>)
    \<and> toy_at l tb n (off + m) (Suc k) d'"
  using assms unfolding toy_emit_def
  by (simp add: from_vec_def read_back_def toy_at_def Let_def)

lemma toy_packet_emits:
  assumes "toy_at l tb n off k d" "fits_record l p" "drop off f = record_bytes p @ z" "off \<le> e" "e \<le> length f"
    "length (record_bytes p) \<le> e - off"
  shows "\<exists>d'. toy_packet d (slice_input f off e)
      = (d', Ok \<lparr> demux_consumed = length (record_bytes p), demux_event_of = DemuxPacket (read_back tb k off p) \<rparr>)
    \<and> toy_at l tb n (off + length (record_bytes p)) (Suc k) d'" (is "\<exists>d'. ?packet = _ \<and> _")
proof -
  let ?b = "in_bytes (slice_input f off e)"
  note b = toy_packet_bytes[OF assms(3,4,5)]
  have at: "dm_pos d = off" "dm_limits d = l" using assms(1) by (simp_all add: toy_at_def)
  have h: "PACKET_HEADER_LEN \<le> length ?b" "PACKET_HEADER_LEN + length (bytes_of p) \<le> length ?b" "?b \<noteq> []"
    using b(2) assms(6) by (auto simp: record_length PACKET_HEADER_LEN_def)
  note f = record_fields[OF assms(2) h(1) b(1)]
  have "?packet = toy_emit d ?b (length (record_bytes p))"
    using assms(2) h f(1) at unfolding toy_packet_def Let_def by (simp add: fits_record_def record_length)
  moreover have "bytes_of p \<noteq> []" using assms(2) by (simp add: fits_record_def)
  ultimately show ?thesis
    using toy_emit_record[OF assms(1) _ f(2,3) f(4)[OF h(2)]] by (simp add: record_length)
qed

text \<open>One call of the cursor: at most two waits, then the packet, whatever the cursor had offered before.\<close>

lemma toy_at_requests [simp]: "toy_at l tb n off k (d\<lparr>dm_requests := r\<rparr>) = toy_at l tb n off k d"
  by (simp add: toy_at_def)

lemma toy_next_emits:
  assumes "toy_at l tb n off k d" "fits_record l p" "drop off f = record_bytes p @ z"
    "slice_offer f c = (c1, slice_input f off e)" "off \<le> e" "e \<le> length f" "length (record_bytes p) \<le> e - off"
  shows "\<exists>c' d'. toy_next f c d = Some (Returns (c', (d', []), Ok (YieldOutput (DemuxPacket (read_back tb k off p)))))
    \<and> toy_at l tb n (off + length (record_bytes p)) (Suc k) d'"
proof -
  have "toy_at l tb n off k (d\<lparr>dm_requests := []\<rparr>)" using assms(1) by simp
  from toy_packet_emits[OF this assms(2,3,5,6,7), where ?'a = unit]
  obtain d' where d': "toy_packet (d\<lparr>dm_requests := []\<rparr>) (slice_input f off e)
      = (d', Ok \<lparr> demux_consumed = length (record_bytes p), demux_event_of = DemuxPacket (read_back tb k off p) \<rparr>
          :: unit toy_failure + demux_progress)"
    "toy_at l tb n (off + length (record_bytes p)) (Suc k) d'" by blast
  show ?thesis
    using assms(4) toy_stage_packets[OF assms(1) d'(1)] d'(2) by (subst slice_next.simps) simp
qed

lemma toy_next_waits:
  assumes "toy_at l tb n off k d" "toy_packet (d\<lparr>dm_requests := []\<rparr>) (slice_input f s e)
      = (toy_need (AtLeast off m) (d\<lparr>dm_requests := []\<rparr>) :: unit demuxed)"
    "slice_offer f c = (c1, slice_input f s e)" "s \<le> e" "e \<le> length f" "length f \<le> u64_max" "0 < m"
    "off + m \<le> length f \<or> off = length f \<and> s \<noteq> off \<and> m \<le> u64_max - off" "s = off \<Longrightarrow> e < off + m"
  shows "\<exists>c' d'. toy_next f c d = toy_next f c' d' \<and> toy_at l tb n off k d' \<and> sc_start c' = off
    \<and> sc_end c' = min (off + max m (sc_window c)) (length f) \<and> sc_window c' = sc_window c"
proof -
  let ?d = "d\<lparr>dm_requests := [AtLeast off m]\<rparr>"
  have "toy_stage (d, [] :: unit pulse) (slice_input f s e) = ((?d, []), Ok \<lparr> st_consumed = 0, st_kind = StepNeed \<rparr>)"
    using toy_stage_packets[OF assms(1) assms(2)[unfolded toy_need_def]] by (simp add: demux_need_def)
  moreover have "demux_requested toy_demux (?d, [] :: unit pulse) = [AtLeast off m]"
    by (simp add: demux_requested_def toy_demux_def)
  ultimately have "\<exists>c'. toy_next f c d = toy_next f c' ?d \<and> sc_start c' = off
      \<and> sc_end c' = min (off + max m (sc_window c)) (length f) \<and> sc_window c' = sc_window c"
    by (rule slice_next_served[OF _ _ assms(3-9)])
  moreover have "toy_at l tb n off k ?d" using assms(1) by simp
  ultimately show ?thesis by blast
qed

lemma toy_next_body:
  assumes "toy_at l tb n off k d" "fits_record l p" "drop off f = record_bytes p @ z" "length f \<le> u64_max"
    "slice_offer f c = (c1, slice_input f off e)" "off \<le> e" "e \<le> length f" "PACKET_HEADER_LEN \<le> e - off"
  shows "\<exists>c' d'. toy_next f c d = Some (Returns (c', (d', []), Ok (YieldOutput (DemuxPacket (read_back tb k off p)))))
    \<and> toy_at l tb n (off + length (record_bytes p)) (Suc k) d'"
proof (cases "length (record_bytes p) \<le> e - off")
  case True
  then show ?thesis using toy_next_emits[OF assms(1-3,5-7)] by simp
next
  case False
  have len: "off + length (record_bytes p) \<le> length f"
    using arg_cong[OF assms(3), of length] assms(6,7) by simp
  have "toy_at l tb n off k (d\<lparr>dm_requests := []\<rparr>)" using assms(1) by simp
  note w = toy_packet_wants_body[OF this assms(2,3,6,7,4,8), where ?'a = unit]
  obtain c' d' where c: "toy_next f c d = toy_next f c' d'" "toy_at l tb n off k d'" "sc_start c' = off"
    "sc_end c' = min (off + max (length (record_bytes p)) (sc_window c)) (length f)"
    using toy_next_waits[OF assms(1) w assms(5-7,4) _ disjI1] False len assms(6)
    by (fastforce simp: record_length PACKET_HEADER_LEN_def)
  obtain c2 where "slice_offer f c' = (c2, slice_input f off (sc_end c'))"
    using c(3,4) len by (simp add: slice_offer_def Let_def min_absorb1)
  from toy_next_emits[OF c(2) assms(2,3) this] show ?thesis using c(1,4) len by simp
qed

lemma toy_next_packet:
  assumes "toy_at l tb n off k d" "fits_record l p" "drop off f = record_bytes p @ z" "length f \<le> u64_max"
  shows "\<exists>c' d'. toy_next f c d = Some (Returns (c', (d', []), Ok (YieldOutput (DemuxPacket (read_back tb k off p)))))
    \<and> toy_at l tb n (off + length (record_bytes p)) (Suc k) d'"
proof -
  obtain c1 s e where o: "slice_offer f c = (c1, slice_input f s e)" "s \<le> e" "e \<le> length f"
    using offer_shape by blast
  have len: "off + length (record_bytes p) \<le> length f" "PACKET_HEADER_LEN \<le> length (record_bytes p)"
    using arg_cong[OF assms(3), of length] by (auto simp: record_length PACKET_HEADER_LEN_def)
  show ?thesis
  proof (cases "s \<noteq> off \<or> e - s < PACKET_HEADER_LEN")
    case True
    have "toy_at l tb n off k (d\<lparr>dm_requests := []\<rparr>)" using assms(1) by simp
    note w = toy_packet_waits[OF this assms(3) o(2,3) assms(4) True, where ?'a = unit]
    obtain c' d' where c: "toy_next f c d = toy_next f c' d'" "toy_at l tb n off k d'" "sc_start c' = off"
      "sc_end c' = min (off + max PACKET_HEADER_LEN (sc_window c)) (length f)"
      using toy_next_waits[OF assms(1) w o assms(4) _ disjI1] True o(2) len by (fastforce simp: PACKET_HEADER_LEN_def)
    obtain c2 where "slice_offer f c' = (c2, slice_input f off (sc_end c'))"
      using c(3,4) len by (simp add: slice_offer_def Let_def min_absorb1)
    from toy_next_body[OF c(2) assms(2-4) this] show ?thesis using c(1,4) len by simp
  next
    case False
    then show ?thesis using toy_next_body[OF assms] o by simp
  qed
qed

text \<open>The end of the file, and the header.\<close>

lemma toy_next_end:
  assumes "toy_at l tb n (length f) k d" "n = 0 \<or> n = k" "length f + PACKET_HEADER_LEN \<le> u64_max"
  shows "\<exists>c' d'. toy_next f c d = Some (Returns (c', (d', []), Ok (YieldFinished DemuxDone)))"
proof -
  have ended: "\<exists>c' d'. toy_next f c d = Some (Returns (c', (d', []), Ok (YieldFinished DemuxDone)))"
    if "toy_at l tb n (length f) k d" "slice_offer f c = (c1, slice_input f (length f) (length f))" for c c1 d
  proof -
    let ?d = "d\<lparr>dm_requests := [], dm_state := ToyDone, dm_complete := True\<rparr>"
    have "toy_packet (d\<lparr>dm_requests := []\<rparr>) (slice_input f (length f) (length f))
        = (?d, Ok \<lparr> demux_consumed = 0, demux_event_of = DemuxDone \<rparr> :: unit toy_failure + demux_progress)"
      using that(1) assms(2,3)
      by (auto simp: toy_packet_def toy_at_def Let_def reaches_end_def input_end_def saturating_add_def)
    from toy_stage_packets[OF that(1) this] that(2) show ?thesis by (subst slice_next.simps) simp
  qed
  obtain c1 s e where o: "slice_offer f c = (c1, slice_input f s e)" "s \<le> e" "e \<le> length f"
    using offer_shape by blast
  show ?thesis
  proof (cases "s = length f")
    case True
    then show ?thesis using ended[OF assms(1)] o by simp
  next
    case False
    have "toy_packet (d\<lparr>dm_requests := []\<rparr>) (slice_input f s e)
        = (toy_need (AtLeast (length f) PACKET_HEADER_LEN) (d\<lparr>dm_requests := []\<rparr>) :: unit demuxed)"
      using assms(1) False by (simp add: toy_packet_def toy_at_def Let_def)
    from toy_next_waits[OF assms(1) this o, OF _ _ disjI2] False assms(3)
    obtain c' d' where c: "toy_next f c d = toy_next f c' d'" "toy_at l tb n (length f) k d'" "sc_start c' = length f"
      "sc_end c' = length f" by (fastforce simp: PACKET_HEADER_LEN_def)
    obtain c2 where "slice_offer f c' = (c2, slice_input f (length f) (length f))"
      using c(3,4) by (simp add: slice_offer_def Let_def)
    from ended[OF c(2) this] show ?thesis using c(1) by simp
  qed
qed

definition header_fits :: "nat \<Rightarrow> nat \<Rightarrow> time_base \<Rightarrow> nat \<Rightarrow> bool" where
  "header_fits w h tb n \<longleftrightarrow> 0 < w \<and> w < 2 ^ 16 \<and> 0 < h \<and> h < 2 ^ 16 \<and> wf_base tb \<and> n < 2 ^ 32"

lemma time_base_new_again: "wf_base tb \<Longrightarrow> time_base_new (tb_num tb) (tb_den tb) = Ok tb"
  by (cases tb) (auto simp: time_base_new_def wf_base_def Let_def)

lemma header_fields:
  assumes "header_fits w h tb n" "HEADER_LEN \<le> length b" "b = take (length b) (header_bytes w h tb n @ z)"
  shows "take 4 b = MAGIC" "u16_at b 4 = w" "u16_at b 6 = h" "u32_at b 8 = tb_num tb" "u32_at b 12 = tb_den tb"
    "u32_at b 16 = n"
proof -
  obtain m where m: "length b = 20 + m" using assms(2) le_Suc_ex unfolding HEADER_LEN_def by blast
  have "b = take (20 + m) (header_bytes w h tb n @ z)" using assms(3) m by simp
  then have "b = header_bytes w h tb n @ take m z" by (simp add: HEADER_LEN_def)
  then have b: "b = MAGIC @ le_bytes 2 w @ le_bytes 2 h @ le_bytes 4 (tb_num tb) @ le_bytes 4 (tb_den tb)
      @ le_bytes 4 n @ take m z"
    by (simp add: header_bytes_def)
  show "take 4 b = MAGIC" by (simp add: b MAGIC_def)
  show "u16_at b 4 = w" using u16_at_start[of w MAGIC 4] assms(1) by (simp add: b header_fits_def MAGIC_def)
  show "u16_at b 6 = h"
    using u16_at_start[of h "MAGIC @ le_bytes 2 w" 6] assms(1) by (simp add: b header_fits_def MAGIC_def)
  show "u32_at b 8 = tb_num tb"
    using u32_at_start[of "tb_num tb" "MAGIC @ le_bytes 2 w @ le_bytes 2 h" 8] assms(1)
    by (simp add: b header_fits_def MAGIC_def wf_base_def u32_max_def)
  show "u32_at b 12 = tb_den tb"
    using u32_at_start[of "tb_den tb" "MAGIC @ le_bytes 2 w @ le_bytes 2 h @ le_bytes 4 (tb_num tb)" 12] assms(1)
    by (simp add: b header_fits_def MAGIC_def wf_base_def u32_max_def)
  show "u32_at b 16 = n"
    using u32_at_start[of n "MAGIC @ le_bytes 2 w @ le_bytes 2 h @ le_bytes 4 (tb_num tb) @ le_bytes 4 (tb_den tb)" 16]
      assms(1)
    by (simp add: b header_fits_def MAGIC_def)
qed

lemma toy_header_reads:
  assumes "header_fits w h tb n" "HEADER_LEN \<le> length (in_bytes i)" "in_offset i = 0"
    "in_bytes i = take (length (in_bytes i)) (header_bytes w h tb n @ z)"
  shows "\<exists>d'. toy_header (toy_demuxer_new l\<lparr>dm_requests := []\<rparr>) i
      = (d', Ok \<lparr> demux_consumed = HEADER_LEN, demux_event_of = DemuxHeaders \<rparr>) \<and> toy_at l tb n HEADER_LEN 0 d'"
  using header_fields[OF assms(1,2,4)] assms(1-3) time_base_new_again[of tb]
  by (auto simp: toy_header_def Let_def header_fits_def toy_demuxer_new_def toy_at_def track_build_def
    track_video_def track_base_def video_track_new_def with_declared_packets_def)

lemma toy_stage_header:
  assumes "dm_state d = ToyHeader" "toy_header (d\<lparr>dm_requests := []\<rparr>) i = (d', r)"
  shows "toy_stage (d, []) i = ((d', []), map_sum id (\<lambda>p. \<lparr> st_consumed = demux_consumed p,
    st_kind = (case demux_event_of p of DemuxNeed \<Rightarrow> StepNeed | DemuxDone \<Rightarrow> StepFinished DemuxDone | x \<Rightarrow> StepOutput x) \<rparr>) r)"
  using assms
  by (auto simp: demux_stage_def toy_demux_def toy_step_def pulse_check_def split: sum.splits prod.splits)

lemma toy_next_header:
  assumes "header_fits w h tb n" "f = header_bytes w h tb n @ z" "length f \<le> u64_max"
  shows "\<exists>c d. toy_next f (slice_new window) (toy_demuxer_new l)
      = Some (Returns (c, (d, []), Ok (YieldOutput DemuxHeaders))) \<and> toy_at l tb n HEADER_LEN 0 d"
proof -
  let ?d = "toy_demuxer_new l\<lparr>dm_requests := [AtLeast 0 HEADER_LEN]\<rparr>"
  have f: "HEADER_LEN \<le> length f" "0 < HEADER_LEN" by (simp_all add: assms(2) HEADER_LEN_def)
  have st: "dm_state (toy_demuxer_new l) = ToyHeader" "dm_state ?d = ToyHeader" by (simp_all add: toy_demuxer_new_def)
  have o: "\<exists>c1. slice_offer f (slice_new window) = (c1, slice_input f 0 0)"
    by (simp add: slice_offer_def slice_new_def Let_def)
  have "toy_header (toy_demuxer_new l\<lparr>dm_requests := []\<rparr>) (slice_input f 0 0)
      = (toy_need (AtLeast 0 HEADER_LEN) (toy_demuxer_new l\<lparr>dm_requests := []\<rparr>) :: unit demuxed)"
    using f assms(3) by (auto simp: toy_header_def Let_def reaches_end_def input_end_def saturating_add_def)
  from toy_stage_header[OF st(1) this[unfolded toy_need_def]]
  have "toy_stage (toy_demuxer_new l, [] :: unit pulse) (slice_input f 0 0)
      = ((?d, []), Ok \<lparr> st_consumed = 0, st_kind = StepNeed \<rparr>)" by (simp add: demux_need_def)
  moreover have "demux_requested toy_demux (?d, [] :: unit pulse) = [AtLeast 0 HEADER_LEN]"
    by (simp add: demux_requested_def toy_demux_def)
  ultimately obtain c where c: "toy_next f (slice_new window) (toy_demuxer_new l) = toy_next f c ?d" "sc_start c = 0"
    "sc_end c = min (0 + max HEADER_LEN (sc_window (slice_new window))) (length f)"
    using slice_next_served[where step = toy_stage and requested = "demux_requested toy_demux", OF _ _ _ _ _ assms(3)] o f
    by (metis (no_types, lifting) add_0 le_refl less_eq_nat.simps(1))
  let ?i = "slice_input f 0 (sc_end c)"
  have "HEADER_LEN \<le> length (in_bytes ?i)" "in_bytes ?i = take (length (in_bytes ?i)) (header_bytes w h tb n @ z)"
    using f c(3) assms(2) by (simp_all add: min_def)
  from toy_header_reads[OF assms(1) this(1) _ this(2), where ?'a = unit and l = l]
  obtain d' where d': "toy_header (toy_demuxer_new l\<lparr>dm_requests := []\<rparr>) ?i
      = (d', Ok \<lparr> demux_consumed = HEADER_LEN, demux_event_of = DemuxHeaders \<rparr> :: unit toy_failure + demux_progress)"
    "toy_at l tb n HEADER_LEN 0 d'" by auto
  have "toy_header (?d\<lparr>dm_requests := []\<rparr>) ?i
      = (d', Ok \<lparr> demux_consumed = HEADER_LEN, demux_event_of = DemuxHeaders \<rparr> :: unit toy_failure + demux_progress)"
    using d'(1) by simp
  from toy_stage_header[OF st(2) this]
  have "\<exists>c'. toy_next f c ?d = Some (Returns (c', (d', []), Ok (YieldOutput DemuxHeaders)))"
    using c(2,3) by (subst slice_next.simps) (simp add: slice_offer_def Let_def)
  then show ?thesis using c(1) d'(2) by auto
qed

text \<open>A caller that pulls events until the last one, or until \<open>fuel\<close> calls have been made.\<close>

fun pull_events :: "nat \<Rightarrow> byte list \<Rightarrow> slice_cursor \<Rightarrow> toy_demuxer \<Rightarrow> demux_event list option" where
  "pull_events 0 f c d = None"
| "pull_events (Suc fuel) f c d = (case toy_next f c d of
     Some (Returns (c, (d, _), Ok (YieldOutput x))) \<Rightarrow> map_option ((#) x) (pull_events fuel f c d)
   | Some (Returns (c, (d, _), Ok (YieldFinished x))) \<Rightarrow> Some [x]
   | _ \<Rightarrow> None)"

definition file_bytes :: "nat \<Rightarrow> nat \<Rightarrow> time_base \<Rightarrow> nat \<Rightarrow> packet list \<Rightarrow> byte list" where
  "file_bytes w h tb n ps = header_bytes w h tb n @ concat (map record_bytes ps)"

lemma pull_records:
  assumes "toy_at l tb n off k d" "off \<le> length f" "drop off f = concat (map record_bytes ps)" "\<forall>p\<in>set ps. fits_record l p"
    "n = 0 \<or> n = k + length ps" "length f + PACKET_HEADER_LEN \<le> u64_max"
  shows "pull_events (length ps + 1) f c d = Some (map DemuxPacket (read_all tb k off ps) @ [DemuxDone])"
  using assms(1-5)
proof (induction ps arbitrary: c d off k)
  case Nil
  then have "toy_at l tb n (length f) k d" "n = 0 \<or> n = k" by auto
  then obtain c' d' where "toy_next f c d = Some (Returns (c', (d', []), Ok (YieldFinished DemuxDone)))"
    using toy_next_end[OF _ _ assms(6)] by blast
  then show ?case by simp
next
  case (Cons p ps)
  have f: "drop off f = record_bytes p @ concat (map record_bytes ps)" "length f \<le> u64_max"
    using Cons.prems(3) assms(6) by simp_all
  obtain c' d' where d': "toy_next f c d = Some (Returns (c', (d', []), Ok (YieldOutput (DemuxPacket (read_back tb k off p)))))"
    "toy_at l tb n (off + length (record_bytes p)) (Suc k) d'"
    using toy_next_packet[OF Cons.prems(1) _ f] Cons.prems(4) by fastforce
  have "length f - off = length (record_bytes p) + length (concat (map record_bytes ps))"
    using arg_cong[OF f(1), of length] by simp
  then have "off + length (record_bytes p) \<le> length f" using Cons.prems(2) by simp
  moreover have "drop (off + length (record_bytes p)) f = concat (map record_bytes ps)"
    using arg_cong[OF f(1), of "drop (length (record_bytes p))"] by (simp add: add.commute)
  ultimately show ?case using d'(1) Cons.IH[OF d'(2)] Cons.prems(4,5) by simp
qed

lemma file_read_back:
  assumes "header_fits w h tb n" "\<forall>p\<in>set ps. fits_record l p" "n = 0 \<or> n = length ps"
    "length (file_bytes w h tb n ps) + PACKET_HEADER_LEN \<le> u64_max"
  shows "pull_events (length ps + 2) (file_bytes w h tb n ps) (slice_new window) (toy_demuxer_new l)
    = Some (DemuxHeaders # map DemuxPacket (read_all tb 0 HEADER_LEN ps) @ [DemuxDone])"
proof -
  let ?f = "file_bytes w h tb n ps"
  obtain c d where d: "toy_next ?f (slice_new window) (toy_demuxer_new l)
      = Some (Returns (c, (d, []), Ok (YieldOutput DemuxHeaders)))" "toy_at l tb n HEADER_LEN 0 d"
    using toy_next_header[OF assms(1) file_bytes_def, of ps] assms(4) by fastforce
  have "pull_events (length ps + 1) ?f c d = Some (map DemuxPacket (read_all tb 0 HEADER_LEN ps) @ [DemuxDone])"
    by (rule pull_records[OF d(2)]) (use assms in \<open>auto simp: file_bytes_def\<close>)
  then show ?thesis using d(1) by simp
qed

end
