(* ===== verification/Toy_File.thy ===== *)
theory Toy_File
  imports Toy_Container
begin

text \<open>
  The reference container end to end: what the muxer of \<open>zencodec-media-testkit/src/toy.rs\<close> writes through
  the container output (\<open>Media_Output\<close>) is, once finished, a file that its demuxer reads back through a
  slice cursor, packet for packet.
\<close>

subsection \<open>The muxer behind the output\<close>

lemma send_muxer:
  assumes "output_send mx p o1 ps = (o2, ps2, Ok () :: ('x, 'e, 'r) output_failure + unit)" "mo_mux o1 = Some m"
  shows "\<exists>m1 p1 p2. mx_write mx m p p1 = (m1, p2, Ok ()) \<and> send_pending mx p o1 ps = mx_pending mx m1
    \<and> mo_mux o2 = Some (mx_consume mx (length (mx_pending mx m1)) m1) \<and> mo_tracks o2 = mo_tracks o1"
  using assms
proof -
  have same: "validate_packet (o1\<lparr>mo_mux := None\<rparr>) p = validate_packet o1 p" by (simp add: validate_packet_def)
  obtain p1 m1 p2 where w: "pulse_check ps = (p1, Ok ())" "mx_write mx m p p1 = (m1, p2, Ok ())"
    "(validate_packet o1 p :: ('x, 'e, 'r) output_cause + unit) = Ok ()"
    using assms
    by (auto simp: output_send_def stopped_Ok Let_def same split: prod.splits sum.splits)
  then have "send_pending mx p o1 ps = mx_pending mx m1" using assms(2) by (simp add: send_pending_def)
  moreover have "mo_mux o2 = Some (mx_consume mx (length (mx_pending mx m1)) m1) \<and> mo_tracks o2 = mo_tracks o1"
    using assms w by (auto simp: output_send_def stopped_Ok Let_def same drain_def split: prod.splits sum.splits)
  ultimately show ?thesis using w(2) by blast
qed

lemma publish_muxer:
  assumes "output_publish mx o1 ps = Some (o2, ps2, Ok () :: ('x, 'e, 'r) output_failure + unit)" "mo_mux o1 = Some m"
  shows "mo_mux o2 = Some (mx_consume mx (length (mx_pending mx m)) m) \<and> mo_tracks o2 = mo_tracks o1"
  using assms by (auto simp: output_publish_def drain_def Let_def split: prod.splits sum.splits)

lemma prepare_muxer:
  assumes "prepare_unpublished mx exact m0 d0 tracks ps = (ps1, Ok o1 :: ('x, 'e, 'r) output_failure + ('m, 'x) media_output)"
    "mo_mux o1 = Some m"
  shows "\<exists>hint timing. (if exact then mx_begin_exact mx else mx_begin mx) m0 tracks hint = (m, Ok timing)
    \<and> mo_tracks o1 = tracks"
  using assms
  by (cases exact) (fastforce simp: prepare_unpublished_def Let_def split: prod.splits sum.splits if_splits)+

subsection \<open>The output buffer, drained after each packet\<close>

definition sound :: "output_buffer \<Rightarrow> bool" where
  "sound b \<longleftrightarrow> start b \<le> length (buf b)"

lemma push_all_pending: "sound b \<Longrightarrow> sound (push_all xs b) \<and> pending (push_all xs b) = pending b @ concat xs"
proof (induction xs arbitrary: b)
  case (Cons x xs)
  have "sound (push_bytes x b)" "pending (push_bytes x b) = pending b @ x"
    using Cons.prems by (simp_all add: sound_def push_bytes_def pending_def)
  with Cons.IH show ?case by (simp add: push_all_def)
qed (simp add: push_all_def)

lemma consume_all_pending:
  "sound b \<Longrightarrow> sound (consume (length (pending b)) b) \<and> pending (consume (length (pending b)) b) = []"
  by (auto simp: sound_def consume_def pending_len_def pending_def Let_def)

definition toy_ready :: "bool \<Rightarrow> time_base \<Rightarrow> nat \<Rightarrow> toy_muxer \<Rightarrow> bool" where
  "toy_ready wc tb k m \<longleftrightarrow> tm_begun m \<and> tm_write_count m = wc \<and> tm_base m = Some tb \<and> tm_count m = wrap u32_max k
     \<and> sound (tm_out m) \<and> pending (tm_out m) = []"

lemma toy_begin_header:
  assumes "toy_begin (toy_muxer_new wc) tracks hint = (m, Ok timing)" "m' = m\<lparr>tm_out := consume (length (pending (tm_out m))) (tm_out m)\<rparr>"
  shows "\<exists>t v. tracks = [t] \<and> video_info t = Some v \<and> coded_width v < 2 ^ 16 \<and> coded_height v < 2 ^ 16
    \<and> pending (tm_out m) = header_bytes (coded_width v) (coded_height v) (track_time_base t) 0
    \<and> toy_ready wc (track_time_base t) 0 m'"
proof -
  have new: "sound buffer_new" "pending buffer_new = []" by (simp_all add: sound_def buffer_new_def pending_def)
  obtain t v where t: "tracks = [t]" "video_info t = Some v" "coded_width v \<le> 65535" "coded_height v \<le> 65535"
    "m = (toy_muxer_new wc)\<lparr>tm_out := push_all [MAGIC, le_bytes 2 (coded_width v), le_bytes 2 (coded_height v),
        le_bytes 4 (tb_num (track_time_base t)), le_bytes 4 (tb_den (track_time_base t)), le_bytes 4 0] buffer_new,
      tm_base := Some (track_time_base t), tm_begun := True\<rparr>"
    using assms(1) by (auto simp: toy_begin_def toy_muxer_new_def Let_def split: list.splits option.splits if_splits)
  then have out: "sound (tm_out m)" "pending (tm_out m) = header_bytes (coded_width v) (coded_height v) (track_time_base t) 0"
    using push_all_pending[OF new(1)] new(2) by (simp_all add: header_bytes_def)
  have "toy_ready wc (track_time_base t) 0 m'"
    using consume_all_pending[OF out(1)] assms(2) t(5) by (simp add: toy_ready_def toy_muxer_new_def wrap_def)
  then show ?thesis using t out(2) by auto
qed

lemma toy_write_record:
  assumes "toy_ready wc tb k m" "toy_write m p ps = (m1, ps', Ok ())"
  shows "pending (tm_out m1) = record_bytes p \<and> pts p = Some \<lparr> ts_ticks = ticks_of p, ts_base = tb \<rparr>
    \<and> toy_ready wc tb (Suc k) (m1\<lparr>tm_out := consume (length (pending (tm_out m1))) (tm_out m1)\<rparr>)"
proof -
  have r: "sound (tm_out m)" "pending (tm_out m) = []" using assms(1) by (simp_all add: toy_ready_def)
  have t: "pts p = Some \<lparr> ts_ticks = ticks_of p, ts_base = tb \<rparr>"
    "m1 = m\<lparr>tm_out := push_all [le_bytes 4 (length (bytes_of p)), i64_bytes (ticks_of p),
        [if random_access_of p = Yes then 1 else 0], bytes_of p] (tm_out m), tm_count := wrap u32_max (tm_count m + 1)\<rparr>"
    using assms by (auto simp: toy_write_def Let_def toy_ready_def ticks_of_def
        split: prod.splits sum.splits option.splits if_splits)
  then have out: "sound (tm_out m1)" "pending (tm_out m1) = record_bytes p"
    using push_all_pending[OF r(1)] r(2) by (simp_all add: record_bytes_def)
  have "toy_ready wc tb (Suc k) (m1\<lparr>tm_out := consume (length (pending (tm_out m1))) (tm_out m1)\<rparr>)"
    using consume_all_pending[OF out(1)] assms(1) t(2) by (simp add: toy_ready_def wrap_def mod_simps)
  then show ?thesis using t(1) out(2) by simp
qed

text \<open>Along a run the stream is the header, with a count of zero, and the records of the packets sent.\<close>

lemma toy_run:
  assumes "output_run (toy_mux :: (toy_muxer, toy_error, 'r) muxer) (toy_muxer_new wc) d0 o' sent stream"
  shows "\<exists>t v m. mo_tracks o' = [t] \<and> video_info t = Some v \<and> coded_width v < 2 ^ 16 \<and> coded_height v < 2 ^ 16
    \<and> mo_mux o' = Some m \<and> toy_ready wc (track_time_base t) (length sent) m
    \<and> stream = file_bytes (coded_width v) (coded_height v) (track_time_base t) 0 sent
    \<and> (\<forall>p\<in>set sent. pts p = Some \<lparr> ts_ticks = ticks_of p, ts_base = track_time_base t \<rparr>)"
  using assms
proof induction
  case (published exact tracks ps ps1 o1 m1 o2 ps2)
  then obtain hint timing where
    b: "toy_begin (toy_muxer_new wc) tracks hint = (m1, Ok timing :: 'r toy_failure + mux_timing)"
    and tr: "mo_tracks o1 = tracks"
    by (auto simp: toy_mux_def begin_exact_default_def split: if_splits dest: prepare_muxer)
  show ?case
    using toy_begin_header[OF b refl] publish_muxer[OF published(3,2)] tr
    by (auto simp: toy_mux_def file_bytes_def)
next
  case (sent o1 sent stream p ps o2 ps2)
  then obtain t v m where t: "mo_tracks o1 = [t]" "video_info t = Some v" "coded_width v < 2 ^ 16" "coded_height v < 2 ^ 16"
    "mo_mux o1 = Some m" "toy_ready wc (track_time_base t) (length sent) m"
    "stream = file_bytes (coded_width v) (coded_height v) (track_time_base t) 0 sent"
    "\<forall>p\<in>set sent. pts p = Some \<lparr> ts_ticks = ticks_of p, ts_base = track_time_base t \<rparr>" by blast
  from send_muxer[OF sent(2) t(5)] obtain m1 p1 p2 where m1: "toy_write m p p1 = (m1, p2, Ok () :: 'r toy_failure + unit)"
    "send_pending toy_mux p o1 ps = pending (tm_out m1)" "mo_tracks o2 = mo_tracks o1"
    "mo_mux o2 = Some (m1\<lparr>tm_out := consume (length (pending (tm_out m1))) (tm_out m1)\<rparr>)"
    by (auto simp: toy_mux_def)
  show ?case using toy_write_record[OF t(6) m1(1)] t m1(2-4) by (auto simp: file_bytes_def)
qed

subsection \<open>The finished file\<close>

text \<open>The count of the header is the only field the finish patches.\<close>

lemma count_patched:
  "write_at (file_bytes w h tb 0 ps) COUNT_OFFSET (le_bytes 4 n) = Some (file_bytes w h tb n ps)"
  by (simp add: write_at_def file_bytes_def header_bytes_def MAGIC_def COUNT_OFFSET_def)

definition final_count :: "bool \<Rightarrow> nat \<Rightarrow> nat" where
  "final_count wc k = (if wc then wrap u32_max k else 0)"

lemma toy_finish_file:
  assumes "toy_ready wc tb k m" "toy_finish m ps = (ps', Ok f)" "stream = file_bytes w h tb 0 sent"
  shows "tail f = [] \<and> write_patches (stream @ tail f) (patches f) = Some (file_bytes w h tb (final_count wc k) sent)"
proof -
  have "into_remaining (tm_out m) = []"
    using assms(1) by (auto simp: toy_ready_def sound_def into_remaining_def pending_def min_def split: if_splits)
  then have "tail f = []" "patches f = (if wc then [\<lparr> patch_offset = COUNT_OFFSET, patch_bytes = le_bytes 4 (wrap u32_max k) \<rparr>] else [])"
    using assms(1,2) by (auto simp: toy_finish_def finish_new_def toy_ready_def split: prod.splits sum.splits if_splits)
  then show ?thesis using assms(3) count_patched by (simp add: final_count_def)
qed

lemma read_all_keeps:
  "map bytes_of (read_all tb k off ps) = map bytes_of ps"
  "\<forall>p\<in>set ps. pts p = Some \<lparr> ts_ticks = ticks_of p, ts_base = tb \<rparr> \<Longrightarrow> map pts (read_all tb k off ps) = map pts ps"
  by (induction ps arbitrary: k off) (auto simp: read_back_def with_input_offset_def with_ordinal_def
    with_track_def with_random_access_def with_pts_def with_payload_def bytes_of_def packet_bytes_def)

text \<open>
  C13: The reference container (toy.rs) round-trips through the container output (output.rs). Over any
  sequence of accepted packets, any writer that takes short writes or is interrupted, and with or
  without the packet count patched into the header, the bytes that a successful finish leaves from the
  destination's origin on are a file that the demuxer, pulled through a slice cursor of any window,
  reads back as the header event, one packet event per packet sent, in order, with its payload and
  timestamp, and the end.
\<close>

theorem container_roundtrip:
  assumes "fresh_dest d0" "output_run toy_mux (toy_muxer_new wc) d0 o' sent stream"
    "output_finish_all toy_mux o' ps = (d, ps', Ok s)" "mo_tracks o' = [t]" "track_build t = Ok t" "wf_base (track_time_base t)"
    "\<forall>p\<in>set sent. fits_record l p" "length sent \<le> u32_max" "os_emitted s + PACKET_HEADER_LEN \<le> u64_max"
  shows "\<exists>f ps. dest_holds d0 f d \<and> os_emitted s = length f
    \<and> pull_events (length sent + 2) f (slice_new window) (toy_demuxer_new l) = Some (DemuxHeaders # map DemuxPacket ps @ [DemuxDone])
    \<and> map bytes_of ps = map bytes_of sent \<and> map pts ps = map pts sent"
  using assms(3)
proof (rule finish_all_ok)
  fix m p1 p2 f n
  assume a: "mo_mux o' = Some m" "pulse_check ps = (p1, Ok ())" "mx_finish toy_mux m p1 = (p2, Ok f)"
    "finish_validate f (os_emitted (mo_stats o')) = Ok n" "finish_tail f n (mo_dest o') (mo_stats o') p2 = (d, ps', Ok s)"
  let ?tb = "track_time_base t" and ?n = "final_count wc (length sent)"
  obtain v where t: "video_info t = Some v" "coded_width v < 2 ^ 16" "coded_height v < 2 ^ 16"
    "toy_ready wc ?tb (length sent) m" "stream = file_bytes (coded_width v) (coded_height v) ?tb 0 sent"
    "\<forall>p\<in>set sent. pts p = Some \<lparr> ts_ticks = ticks_of p, ts_base = ?tb \<rparr>"
    using toy_run[OF assms(2)] assms(4) a(1) by auto
  let ?f = "file_bytes (coded_width v) (coded_height v) ?tb ?n sent"
  have c: "dest_holds d0 stream (mo_dest o')" "os_emitted (mo_stats o') = length stream"
    using run_carries[OF assms(2,1)] by (auto simp: carries_def)
  have f: "tail f = []" "write_patches (stream @ tail f) (patches f) = Some ?f"
    using toy_finish_file[OF t(4) _ t(5)] a(3) by (auto simp: toy_mux_def)
  have n: "n = length stream + length (tail f)" "list_all (patch_fits n) (patches f)"
    using a(4) c(2) by (auto simp: finish_validate_Ok)
  have d: "dest_holds d0 ?f d" "os_emitted s = length ?f"
    using finish_tail_ok[OF a(5) assms(1) c n] f(2) by auto
  have "?n = 0 \<or> ?n = length sent" "?n < 2 ^ 32"
    using assms(8) by (auto simp: final_count_def wrap_def u32_max_def)
  moreover have "0 < coded_width v" "0 < coded_height v" using assms(5) t(1) by (auto simp: track_build_def split: if_splits)
  ultimately have "pull_events (length sent + 2) ?f (slice_new window) (toy_demuxer_new l)
      = Some (DemuxHeaders # map DemuxPacket (read_all ?tb 0 HEADER_LEN sent) @ [DemuxDone])"
    using file_read_back[OF _ assms(7)] assms(6,9) t(2,3) d(2) by (auto simp: header_fits_def)
  with d read_all_keeps(1) read_all_keeps(2)[OF t(6)] show ?thesis by blast
qed

text \<open>One packet into an empty file, the count patched in.\<close>

definition demo_track :: track_info where
  "demo_track = track_video 0 toy_codec_id millis_base (video_track_new 2 1)"

definition demo_packet :: packet where
  "demo_packet = with_random_access Yes (with_pts \<lparr> ts_ticks = 5, ts_base = millis_base \<rparr> (with_payload (Owned [7, 8])))"

definition demo_writer :: "byte list \<Rightarrow> unit writer" where
  "demo_writer bs = \<lparr> wr_bytes = bs, wr_pos = length bs, wr_writes = [], wr_seeks = [], wr_flushes = [] \<rparr>"

definition demo_muxer :: "nat \<Rightarrow> nat \<Rightarrow> toy_muxer" where
  "demo_muxer k n = \<lparr> tm_out = \<lparr> buf = [], start = 0, dropped = n \<rparr>, tm_begun = True, tm_write_count = True,
     tm_base = Some millis_base, tm_count = k \<rparr>"

definition demo_output :: "byte list \<Rightarrow> toy_muxer \<Rightarrow> nat \<Rightarrow> nat \<Rightarrow> (toy_muxer, unit) media_output" where
  "demo_output bs m n mp = \<lparr> mo_mux = Some m, mo_dest = \<lparr> dst_writer = demo_writer bs, dst_start = Some 0 \<rparr>,
     mo_tracks = [demo_track], mo_timing = timing_with_patches, mo_exact = False,
     mo_stats = \<lparr> os_emitted = n, os_patches = 0, os_patch_bytes = 0, os_max_pending = mp \<rparr> \<rparr>"

definition demo_header :: "byte list" where
  "demo_header = header_bytes 2 1 millis_base 0"

definition demo_record :: "byte list" where
  "demo_record = record_bytes demo_packet"

definition demo_filled :: "nat \<Rightarrow> nat \<Rightarrow> byte list \<Rightarrow> toy_muxer" where
  "demo_filled k n bs = (demo_muxer k n)\<lparr>tm_out := \<lparr> buf = bs, start = 0, dropped = n \<rparr>\<rparr>"

lemma demo_lengths [simp]: "demo_header \<noteq> []" "length demo_header = 20" "length demo_record = 15" "demo_record \<noteq> []" "pts demo_packet = Some \<lparr> ts_ticks = 5, ts_base = millis_base \<rparr>"
  "is_taken demo_packet = False" "bytes_of demo_packet = [7, 8]" "track demo_packet = 0" "config_epoch demo_packet = 0"
  "dts demo_packet = None" "random_access_of demo_packet = Yes"
  by (simp_all add: header_bytes_def MAGIC_def record_bytes_def demo_header_def demo_record_def demo_packet_def bytes_of_def packet_bytes_def is_taken_def
      with_random_access_def with_pts_def with_payload_def)

lemma demo_begin: "toy_begin (toy_muxer_new True) [demo_track] hint_default = (demo_filled 0 0 demo_header, Ok timing_with_patches)"
  by (simp add: toy_begin_def toy_muxer_new_def demo_track_def track_video_def track_base_def video_track_new_def Let_def
      hint_default_def demo_filled_def demo_muxer_def push_all_def push_bytes_def buffer_new_def header_bytes_def demo_header_def)

lemma demo_prepared: "prepare_unpublished toy_mux False (toy_muxer_new True) (mo_dest (demo_output [] m n k)) [demo_track] []
    = ([], Ok (demo_output [] (demo_filled 0 0 demo_header) 0 0))"
  by (simp add: prepare_unpublished_def Let_def stopped_def pulse_check_def toy_mux_def demo_output_def can_patch_def
      demo_begin)

lemma demo_drain:
  assumes "bs \<noteq> []" "length old + length bs \<le> u64_max"
  shows "drain toy_mux (demo_filled k n bs) ((demo_output old m (length old) mp)\<lparr>mo_mux := None\<rparr>) []
    = (demo_muxer k (wrap u64_max (n + length bs)),
       (demo_output (old @ bs) m (length old + length bs) (max mp (length bs)))\<lparr>mo_mux := None\<rparr>, [], Ok ())"
  using assms
  by (simp add: demo_output_def drain_def Let_def dest_write_all_def write_all_run demo_writer_def
      toy_mux_def demo_filled_def demo_muxer_def pending_def consume_def pending_len_def put_bytes_def overwrite_def)

lemma demo_output_fields [simp]:
  "mo_mux (demo_output bs m n mp) = Some m" "mo_tracks (demo_output bs m n mp) = [demo_track]"
  "(demo_output bs m n mp)\<lparr>mo_mux := None\<rparr>\<lparr>mo_mux := Some m'\<rparr> = demo_output bs m' n mp"
  "mx_write toy_mux = toy_write" "mx_pending toy_mux m = pending (tm_out m)" "pending (tm_out (demo_filled k n bs)) = bs"
  "pending (tm_out (demo_muxer k n)) = []"
  by (simp_all add: demo_output_def toy_mux_def demo_filled_def demo_muxer_def pending_def)

lemma demo_publish:
  "output_publish toy_mux (demo_output [] (demo_filled 0 0 demo_header) 0 0) []
    = Some (demo_output demo_header (demo_muxer 0 20) 20 20, [], Ok ())"
  by (simp add: output_publish_def demo_drain[where old = "[]", simplified] u64_max_def wrap_def)

lemma demo_write: "toy_write (demo_muxer 0 20) demo_packet [] = (demo_filled 1 20 demo_record, [], Ok ())"
  by (simp add: toy_write_def pulse_check_def demo_muxer_def demo_filled_def push_all_def push_bytes_def Let_def
      record_bytes_def demo_record_def ticks_of_def wrap_def u32_max_def)

lemma demo_valid: "validate_packet ((demo_output bs m n mp)\<lparr>mo_mux := x\<rparr>) demo_packet = Ok ()"
  "validate_packet (demo_output bs m n mp) demo_packet = Ok ()"
  by (simp_all add: validate_packet_def demo_output_def demo_track_def track_video_def track_base_def)

lemma demo_send:
  "output_send toy_mux demo_packet (demo_output demo_header (demo_muxer 0 20) 20 20) []
    = (demo_output (demo_header @ demo_record) (demo_muxer 1 35) 35 20, [], Ok ())"
  "send_pending toy_mux demo_packet (demo_output demo_header (demo_muxer 0 20) 20 20) [] = demo_record"
  by (simp_all add: output_send_def send_pending_def stopped_def pulse_check_def demo_valid demo_write Let_def
      demo_drain[where old = demo_header, simplified] u64_max_def wrap_def)

lemma demo_run: "output_run toy_mux (toy_muxer_new True) (mo_dest (demo_output [] m n k))
    (demo_output (demo_header @ demo_record) (demo_muxer 1 35) 35 20) [demo_packet] (demo_header @ demo_record)"
  using sent[OF published[OF demo_prepared _ demo_publish, of "demo_filled 0 0 demo_header"] demo_send(1)]
  by (simp add: demo_send(2))

definition demo_patched :: "byte list" where
  "demo_patched = file_bytes 2 1 millis_base 1 [demo_packet]"

definition demo_count :: "byte list" where
  "demo_count = le_bytes 4 1"

lemma demo_finish_bytes [simp]:
  "overwrite 16 demo_count (demo_header @ demo_record) = demo_patched" "length demo_count = 4" "demo_count \<noteq> []"
  "length demo_patched = 35"
proof -
  show len: "length demo_count = 4" by (simp add: demo_count_def)
  then show "demo_count \<noteq> []" by auto
  show "overwrite 16 demo_count (demo_header @ demo_record) = demo_patched"
    by (simp add: overwrite_def demo_header_def header_bytes_def file_bytes_def demo_record_def MAGIC_def demo_patched_def demo_count_def)
  show "length demo_patched = 35"
    using demo_lengths(3) by (simp add: demo_patched_def file_bytes_def HEADER_LEN_def demo_record_def)
qed

lemma demo_finished:
  "toy_finish (demo_muxer (Suc 0) 35) [] = ([], Ok \<lparr> tail = [], patches = [\<lparr> patch_offset = 16, patch_bytes = demo_count \<rparr>] \<rparr>)"
  by (simp add: toy_finish_def pulse_check_def COUNT_OFFSET_def demo_muxer_def into_remaining_def finish_new_def demo_count_def)

lemma demo_finish:
  "output_finish_all toy_mux (demo_output (demo_header @ demo_record) (demo_muxer 1 35) 35 20) []
    = (\<lparr> dst_writer = (demo_writer demo_patched)\<lparr>wr_pos := 35\<rparr>, dst_start = Some 0 \<rparr>, [],
       Ok \<lparr> os_emitted = 35, os_patches = 1, os_patch_bytes = 4, os_max_pending = 20 \<rparr>)"
  by (simp add: output_finish_all_def Let_def stopped_def pulse_check_def demo_finished toy_mux_def finish_validate_def
      checked_add_def try_into_def u64_max_def finish_tail_def dest_write_all_def write_all_run
      dest_position_def writer_seek_def finish_flush_def writer_flush_def demo_output_def demo_writer_def put_bytes_def
      can_patch_def timing_with_patches_def)

theorem container_roundtrip_witness:
  "\<exists>f p. dest_holds \<lparr> dst_writer = demo_writer [], dst_start = Some 0 \<rparr> f
        \<lparr> dst_writer = (demo_writer demo_patched)\<lparr>wr_pos := 35\<rparr>, dst_start = Some 0 \<rparr>
     \<and> length f = 35 \<and> bytes_of p = [7, 8]
     \<and> pull_events 3 f (slice_new 4) (toy_demuxer_new media_limits_default) = Some [DemuxHeaders, DemuxPacket p, DemuxDone]"
proof -
  let ?d = "mo_dest (demo_output [] (demo_muxer 0 0) 0 0)"
  have "fresh_dest ?d" "?d = \<lparr> dst_writer = demo_writer [], dst_start = Some 0 \<rparr>"
    by (simp_all add: fresh_dest_def in_range_def demo_output_def demo_writer_def)
  moreover have "wf_base (track_time_base demo_track)" "track_build demo_track = Ok demo_track"
    by (simp_all add: demo_track_def track_video_def track_base_def video_track_new_def track_build_def wf_base_def
        millis_base_def u32_max_def)
  moreover have "fits_record media_limits_default demo_packet"
    by (simp add: fits_record_def ticks_of_def check_packet_bytes_def media_check_def media_limits_default_def)
  ultimately show ?thesis
    using container_roundtrip[OF _ demo_run[of "demo_muxer 0 0" 0 0] demo_finish, of demo_track media_limits_default 4]
    by (auto simp: u32_max_def u64_max_def PACKET_HEADER_LEN_def numeral_3_eq_3 map_eq_Cons_conv simp del: pull_events.simps)
qed

end
