(* ===== verification/Exif.thy ===== *)
theory Exif
  imports Endian "HOL-Library.Monad_Syntax"
begin

text \<open>
  EXIF metadata: \<open>src/src/exif.rs\<close>, the parser. A blob is a TIFF header, with or without the \<open>Exif\<close>
  prefix, and a tree of directories (IFDs) whose entries hold their value in place or point to it.
  Nothing in the blob is trusted. The retention policies and the writer are in \<open>Exif_Write\<close>.
\<close>

subsection \<open>Tags\<close>

abbreviation (input) TAG_MAKE :: nat where "TAG_MAKE \<equiv> 0x010F"
abbreviation (input) TAG_MODEL :: nat where "TAG_MODEL \<equiv> 0x0110"
abbreviation (input) TAG_ORIENTATION :: nat where "TAG_ORIENTATION \<equiv> 0x0112"
abbreviation (input) TAG_SOFTWARE :: nat where "TAG_SOFTWARE \<equiv> 0x0131"
abbreviation (input) TAG_DATETIME :: nat where "TAG_DATETIME \<equiv> 0x0132"
abbreviation (input) TAG_ARTIST :: nat where "TAG_ARTIST \<equiv> 0x013B"
abbreviation (input) TAG_HOST_COMPUTER :: nat where "TAG_HOST_COMPUTER \<equiv> 0x013C"
abbreviation (input) TAG_COPYRIGHT :: nat where "TAG_COPYRIGHT \<equiv> 0x8298"
abbreviation (input) TAG_EXIF_IFD :: nat where "TAG_EXIF_IFD \<equiv> 0x8769"
abbreviation (input) TAG_GPS_IFD :: nat where "TAG_GPS_IFD \<equiv> 0x8825"
abbreviation (input) TAG_INTEROP_IFD :: nat where "TAG_INTEROP_IFD \<equiv> 0xA005"
abbreviation (input) TAG_COLOR_SPACE :: nat where "TAG_COLOR_SPACE \<equiv> 0xA001"
abbreviation (input) TAG_GAMMA :: nat where "TAG_GAMMA \<equiv> 0xA500"
abbreviation (input) TAG_INTEROP_INDEX :: nat where "TAG_INTEROP_INDEX \<equiv> 0x0001"
abbreviation (input) TAG_INTEROP_VERSION :: nat where "TAG_INTEROP_VERSION \<equiv> 0x0002"
abbreviation (input) TAG_THUMB_OFFSET :: nat where "TAG_THUMB_OFFSET \<equiv> 0x0201"
abbreviation (input) TAG_THUMB_LENGTH :: nat where "TAG_THUMB_LENGTH \<equiv> 0x0202"
abbreviation (input) TAG_SUBIFDS :: nat where "TAG_SUBIFDS \<equiv> 0x014A"
abbreviation (input) TAG_STRIP_OFFSETS :: nat where "TAG_STRIP_OFFSETS \<equiv> 0x0111"
abbreviation (input) TAG_STRIP_BYTE_COUNTS :: nat where "TAG_STRIP_BYTE_COUNTS \<equiv> 0x0117"
abbreviation (input) TAG_TILE_OFFSETS :: nat where "TAG_TILE_OFFSETS \<equiv> 0x0144"
abbreviation (input) TAG_TILE_BYTE_COUNTS :: nat where "TAG_TILE_BYTE_COUNTS \<equiv> 0x0145"
abbreviation (input) TAG_DATETIME_ORIGINAL :: nat where "TAG_DATETIME_ORIGINAL \<equiv> 0x9003"
abbreviation (input) TAG_DATETIME_DIGITIZED :: nat where "TAG_DATETIME_DIGITIZED \<equiv> 0x9004"
abbreviation (input) TAG_OFFSET_TIME :: nat where "TAG_OFFSET_TIME \<equiv> 0x9010"
abbreviation (input) TAG_OFFSET_TIME_ORIGINAL :: nat where "TAG_OFFSET_TIME_ORIGINAL \<equiv> 0x9011"
abbreviation (input) TAG_OFFSET_TIME_DIGITIZED :: nat where "TAG_OFFSET_TIME_DIGITIZED \<equiv> 0x9012"
abbreviation (input) TAG_SUBSEC_TIME :: nat where "TAG_SUBSEC_TIME \<equiv> 0x9290"
abbreviation (input) TAG_SUBSEC_TIME_ORIGINAL :: nat where "TAG_SUBSEC_TIME_ORIGINAL \<equiv> 0x9291"
abbreviation (input) TAG_SUBSEC_TIME_DIGITIZED :: nat where "TAG_SUBSEC_TIME_DIGITIZED \<equiv> 0x9292"
abbreviation (input) TAG_MAKER_NOTE :: nat where "TAG_MAKER_NOTE \<equiv> 0x927C"
abbreviation (input) TAG_IMAGE_UNIQUE_ID :: nat where "TAG_IMAGE_UNIQUE_ID \<equiv> 0xA420"
abbreviation (input) TAG_BODY_SERIAL_NUMBER :: nat where "TAG_BODY_SERIAL_NUMBER \<equiv> 0xA431"
abbreviation (input) TAG_DNG_CAMERA_SERIAL :: nat where "TAG_DNG_CAMERA_SERIAL \<equiv> 0xC62F"
abbreviation (input) TAG_CAMERA_LABEL :: nat where "TAG_CAMERA_LABEL \<equiv> 0xC7A1"
abbreviation (input) TAG_PSRAW_OWNER :: nat where "TAG_PSRAW_OWNER \<equiv> 0xFDE8"
abbreviation (input) TAG_PSRAW_SERIAL :: nat where "TAG_PSRAW_SERIAL \<equiv> 0xFDE9"
abbreviation (input) TAG_LENS_SPECIFICATION :: nat where "TAG_LENS_SPECIFICATION \<equiv> 0xA432"
abbreviation (input) TAG_LENS_MAKE :: nat where "TAG_LENS_MAKE \<equiv> 0xA433"
abbreviation (input) TAG_LENS_MODEL :: nat where "TAG_LENS_MODEL \<equiv> 0xA434"
abbreviation (input) TAG_LENS_SERIAL_NUMBER :: nat where "TAG_LENS_SERIAL_NUMBER \<equiv> 0xA435"
abbreviation (input) TAG_CAMERA_OWNER_NAME :: nat where "TAG_CAMERA_OWNER_NAME \<equiv> 0xA430"
abbreviation (input) TAG_PHOTOGRAPHER :: nat where "TAG_PHOTOGRAPHER \<equiv> 0xA437"
abbreviation (input) TAG_IMAGE_EDITOR :: nat where "TAG_IMAGE_EDITOR \<equiv> 0xA438"
abbreviation (input) TAG_CAMERA_FIRMWARE :: nat where "TAG_CAMERA_FIRMWARE \<equiv> 0xA439"
abbreviation (input) TAG_RAW_DEVELOPING_SOFTWARE :: nat where "TAG_RAW_DEVELOPING_SOFTWARE \<equiv> 0xA43A"
abbreviation (input) TAG_IMAGE_EDITING_SOFTWARE :: nat where "TAG_IMAGE_EDITING_SOFTWARE \<equiv> 0xA43B"
abbreviation (input) TAG_METADATA_EDITING_SOFTWARE :: nat where "TAG_METADATA_EDITING_SOFTWARE \<equiv> 0xA43C"
abbreviation (input) TIFF_BYTE :: nat where "TIFF_BYTE \<equiv> 1"
abbreviation (input) TIFF_ASCII :: nat where "TIFF_ASCII \<equiv> 2"
abbreviation (input) TIFF_SHORT :: nat where "TIFF_SHORT \<equiv> 3"
abbreviation (input) TIFF_LONG :: nat where "TIFF_LONG \<equiv> 4"
abbreviation (input) TIFF_RATIONAL :: nat where "TIFF_RATIONAL \<equiv> 5"
abbreviation (input) TIFF_SBYTE :: nat where "TIFF_SBYTE \<equiv> 6"
abbreviation (input) TIFF_UNDEFINED :: nat where "TIFF_UNDEFINED \<equiv> 7"
abbreviation (input) TIFF_SSHORT :: nat where "TIFF_SSHORT \<equiv> 8"
abbreviation (input) TIFF_SLONG :: nat where "TIFF_SLONG \<equiv> 9"
abbreviation (input) TIFF_SRATIONAL :: nat where "TIFF_SRATIONAL \<equiv> 10"
abbreviation (input) TIFF_FLOAT :: nat where "TIFF_FLOAT \<equiv> 11"
abbreviation (input) TIFF_DOUBLE :: nat where "TIFF_DOUBLE \<equiv> 12"
abbreviation (input) TIFF_IFD :: nat where "TIFF_IFD \<equiv> 13"
abbreviation (input) TIFF_UTF8 :: nat where "TIFF_UTF8 \<equiv> 129"
abbreviation (input) TIFF_HEADER_SIZE :: nat where "TIFF_HEADER_SIZE \<equiv> 8"
abbreviation (input) MAX_IFD_ENTRIES :: nat where "MAX_IFD_ENTRIES \<equiv> 1000"

definition EXIF_PREFIX :: "byte list" where "EXIF_PREFIX = [0x45, 0x78, 0x69, 0x66, 0, 0]"

datatype category =
    COrientation | CRights | CDatetimes | CTimeOffsets | CCamera | CDeviceIds | CCameraOwner | CImageUniqueId
  | CColor | COther

definition classify :: "nat \<Rightarrow> category" where
  "classify tag =
     (if tag = TAG_ORIENTATION then COrientation
      else if tag \<in> {TAG_COPYRIGHT, TAG_ARTIST, TAG_PHOTOGRAPHER, TAG_IMAGE_EDITOR} then CRights
      else if tag \<in> {TAG_CAMERA_OWNER_NAME, TAG_PSRAW_OWNER} then CCameraOwner
      else if tag = TAG_IMAGE_UNIQUE_ID then CImageUniqueId
      else if tag \<in> {TAG_DATETIME, TAG_DATETIME_ORIGINAL, TAG_DATETIME_DIGITIZED, TAG_SUBSEC_TIME,
        TAG_SUBSEC_TIME_ORIGINAL, TAG_SUBSEC_TIME_DIGITIZED} then CDatetimes
      else if tag \<in> {TAG_OFFSET_TIME, TAG_OFFSET_TIME_ORIGINAL, TAG_OFFSET_TIME_DIGITIZED} then CTimeOffsets
      else if tag \<in> {TAG_MAKE, TAG_MODEL, TAG_SOFTWARE, TAG_MAKER_NOTE, TAG_LENS_SPECIFICATION, TAG_LENS_MAKE,
        TAG_LENS_MODEL, TAG_CAMERA_FIRMWARE, TAG_RAW_DEVELOPING_SOFTWARE, TAG_IMAGE_EDITING_SOFTWARE,
        TAG_METADATA_EDITING_SOFTWARE} then CCamera
      else if tag \<in> {TAG_HOST_COMPUTER, TAG_BODY_SERIAL_NUMBER, TAG_LENS_SERIAL_NUMBER, TAG_DNG_CAMERA_SERIAL,
        TAG_CAMERA_LABEL, TAG_PSRAW_SERIAL} then CDeviceIds
      else if tag \<in> {TAG_COLOR_SPACE, TAG_GAMMA} then CColor
      else COther)"

subsection \<open>The tree\<close>

datatype text_encoding = TextAscii | TextUtf8

datatype ifd = Ifd0 | IfdExif | IfdGps | IfdInterop | Ifd1

text \<open>
  \<open>Cow<[u8]>\<close>: a value borrowed from the blob keeps the place it lies at, which is its address when the
  writer compares addresses; an owned value has an allocation of its own.
\<close>

datatype cow = Borrowed nat "byte list" | Owned "byte list"

fun cow_bytes :: "cow \<Rightarrow> byte list" where
  "cow_bytes (Borrowed p bs) = bs"
| "cow_bytes (Owned bs) = bs"

record exif_entry =
  en_tag :: nat
  en_kind :: nat
  en_count :: nat
  en_value :: cow
  en_offset :: nat

abbreviation en_bytes :: "exif_entry \<Rightarrow> byte list" where
  "en_bytes e \<equiv> cow_bytes (en_value e)"

record exif =
  ex_order :: byte_order
  ex_prefix :: bool
  ex_ifd0 :: "exif_entry list"
  ex_exif :: "exif_entry list option"
  ex_gps :: "exif_entry list option"
  ex_interop :: "exif_entry list option"
  ex_ifd1 :: "exif_entry list option"
  ex_thumb :: "byte list option"
  ex_text :: text_encoding

definition exif_new :: "text_encoding \<Rightarrow> exif" where
  "exif_new t = \<lparr> ex_order = LittleEndian, ex_prefix = False, ex_ifd0 = [], ex_exif = None, ex_gps = None,
     ex_interop = None, ex_ifd1 = None, ex_thumb = None, ex_text = t \<rparr>"

definition exif_default :: exif where
  "exif_default = exif_new TextAscii"

subsection \<open>Parsing\<close>

definition type_size :: "nat \<Rightarrow> nat option" where
  "type_size kind =
     (if kind \<in> {TIFF_BYTE, TIFF_ASCII, TIFF_SBYTE, TIFF_UNDEFINED, TIFF_UTF8} then Some 1
      else if kind \<in> {TIFF_SHORT, TIFF_SSHORT} then Some 2
      else if kind \<in> {TIFF_LONG, TIFF_SLONG, TIFF_FLOAT, TIFF_IFD} then Some 4
      else if kind \<in> {TIFF_RATIONAL, TIFF_SRATIONAL, TIFF_DOUBLE} then Some 8
      else None)"

definition rd16 :: "byte list \<Rightarrow> nat \<Rightarrow> byte_order \<Rightarrow> nat option" where
  "rd16 d off r = do { fin \<leftarrow> checked_add usize_max off 2; b \<leftarrow> slice_get d off fin; Some (uint_of r b) }"

definition rd32 :: "byte list \<Rightarrow> nat \<Rightarrow> byte_order \<Rightarrow> nat option" where
  "rd32 d off r = do { fin \<leftarrow> checked_add usize_max off 4; b \<leftarrow> slice_get d off fin; Some (uint_of r b) }"

text \<open>The entry at \<open>e\<close>, whose twelve bytes lie inside the blob.\<close>

definition resolve_entry :: "byte list \<Rightarrow> nat \<Rightarrow> byte_order \<Rightarrow> exif_entry option" where
  "resolve_entry tiff e r = do {
     tag \<leftarrow> rd16 tiff e r;
     kind \<leftarrow> rd16 tiff (e + 2) r;
     cnt \<leftarrow> rd32 tiff (e + 4) r;
     tsize \<leftarrow> type_size kind;
     byte_len \<leftarrow> checked_mul usize_max cnt tsize;
     (value, value_offset) \<leftarrow>
       (if byte_len \<le> 4 then do { v \<leftarrow> slice_get tiff (e + 8) (e + 8 + byte_len); Some (v, e + 8) }
        else do {
          voff \<leftarrow> rd32 tiff (e + 8) r;
          fin \<leftarrow> checked_add usize_max voff byte_len;
          v \<leftarrow> slice_get tiff voff fin;
          Some (v, voff) });
     Some \<lparr> en_tag = tag, en_kind = kind, en_count = cnt, en_value = Borrowed value_offset value,
            en_offset = value_offset \<rparr> }"

text \<open>The loop over the table from its entry \<open>i\<close> on, \<open>k\<close> entries to go; a table cut short ends it.\<close>

fun parse_entries :: "byte list \<Rightarrow> nat \<Rightarrow> byte_order \<Rightarrow> nat \<Rightarrow> nat \<Rightarrow> exif_entry list" where
  "parse_entries tiff entries_start r i 0 = []"
| "parse_entries tiff entries_start r i (Suc k) =
     (case Option.bind (checked_mul usize_max i 12) (checked_add usize_max entries_start) of
        None \<Rightarrow> []
      | Some e \<Rightarrow> (case checked_add usize_max e 12 of
          None \<Rightarrow> []
        | Some fin \<Rightarrow>
            if fin > length tiff then []
            else (case resolve_entry tiff e r of
                None \<Rightarrow> parse_entries tiff entries_start r (Suc i) k
              | Some x \<Rightarrow> x # parse_entries tiff entries_start r (Suc i) k)))"

definition parse_ifd :: "byte list \<Rightarrow> nat \<Rightarrow> byte_order \<Rightarrow> (exif_entry list \<times> nat) option" where
  "parse_ifd tiff off r = do {
     count \<leftarrow> rd16 tiff off r;
     if count > MAX_IFD_ENTRIES then None
     else do {
       entries_start \<leftarrow> checked_add usize_max off 2;
       table_end \<leftarrow> checked_add usize_max entries_start (count * 12);
       Some (parse_entries tiff entries_start r 0 count,
             (case rd32 tiff table_end r of None \<Rightarrow> 0 | Some n \<Rightarrow> n)) } }"

definition with_tag :: "nat \<Rightarrow> exif_entry list \<Rightarrow> exif_entry option" where
  "with_tag tag es = find (\<lambda>e. en_tag e = tag) es"

definition retain_not :: "nat set \<Rightarrow> exif_entry list \<Rightarrow> exif_entry list" where
  "retain_not tags es = filter (\<lambda>e. en_tag e \<notin> tags) es"

definition take_pointer :: "exif_entry list \<Rightarrow> nat \<Rightarrow> byte_order \<Rightarrow> nat option \<times> exif_entry list" where
  "take_pointer es tag r =
     (case dropWhile (\<lambda>e. en_tag e \<noteq> tag) es of
        [] \<Rightarrow> (None, es)
      | e # rest \<Rightarrow> (case slice_get (en_bytes e) 0 4 of
          None \<Rightarrow> (None, es)
        | Some b \<Rightarrow> (Some (uint_of r b), takeWhile (\<lambda>e. en_tag e \<noteq> tag) es @ rest)))"

definition read_uint :: "exif_entry \<Rightarrow> byte_order \<Rightarrow> nat option" where
  "read_uint e r =
     (if en_kind e = TIFF_SHORT then rd16 (en_bytes e) 0 r
      else if en_kind e = TIFF_LONG then rd32 (en_bytes e) 0 r
      else None)"

definition had_prefix :: "byte list \<Rightarrow> bool" where
  "had_prefix bs \<longleftrightarrow> length bs \<ge> length EXIF_PREFIX \<and> take (length EXIF_PREFIX) bs = EXIF_PREFIX"

definition tiff_of :: "byte list \<Rightarrow> byte list" where
  "tiff_of bs = (if had_prefix bs then drop (length EXIF_PREFIX) bs else bs)"

definition order_of :: "byte list \<Rightarrow> byte_order option" where
  "order_of tiff =
     (if take 2 tiff = [0x4D, 0x4D] then Some BigEndian
      else if take 2 tiff = [0x49, 0x49] then Some LittleEndian
      else None)"

text \<open>The Exif directory and the interoperability directory it points to.\<close>

definition parse_exif_ifd :: "byte list \<Rightarrow> byte_order \<Rightarrow> nat \<Rightarrow> (exif_entry list \<times> exif_entry list option) option" where
  "parse_exif_ifd tiff r off = do {
     (es, _) \<leftarrow> parse_ifd tiff off r;
     let (taken, es) = take_pointer es TAG_INTEROP_IFD r;
         interop = do { off \<leftarrow> taken; (es, _) \<leftarrow> parse_ifd tiff off r; Some es };
         es = (if taken \<noteq> None then retain_not {TAG_INTEROP_IFD} es else es)
     in Some (es, interop) }"

text \<open>The thumbnail directory: the two pointers are dropped, whether or not they resolve.\<close>

definition parse_ifd1 :: "byte list \<Rightarrow> byte_order \<Rightarrow> nat \<Rightarrow> (exif_entry list \<times> byte list option) option" where
  "parse_ifd1 tiff r off =
     (if off = 0 then None
      else do {
        (es, _) \<leftarrow> parse_ifd tiff off r;
        let toff = do { e \<leftarrow> with_tag TAG_THUMB_OFFSET es; read_uint e r };
            tlen = do { e \<leftarrow> with_tag TAG_THUMB_LENGTH es; read_uint e r };
            thumb = do { a \<leftarrow> toff; n \<leftarrow> tlen; fin \<leftarrow> checked_add usize_max a n; slice_get tiff a fin }
        in Some (retain_not {TAG_THUMB_OFFSET, TAG_THUMB_LENGTH} es, thumb) })"

definition parse :: "byte list \<Rightarrow> exif option" where
  "parse bs =
     (let tiff = tiff_of bs in
      if length tiff < TIFF_HEADER_SIZE then None
      else do {
        r \<leftarrow> order_of tiff;
        magic \<leftarrow> rd16 tiff 2 r;
        if magic \<noteq> 42 then None
        else do {
          ifd0_off \<leftarrow> rd32 tiff 4 r;
          (ifd0, nxt) \<leftarrow> parse_ifd tiff ifd0_off r;
          let (exif_taken, ifd0) = take_pointer ifd0 TAG_EXIF_IFD r;
              exif_dir = Option.bind exif_taken (parse_exif_ifd tiff r);
              (gps_taken, ifd0) = take_pointer ifd0 TAG_GPS_IFD r;
              gps_dir = do { off \<leftarrow> gps_taken; (es, _) \<leftarrow> parse_ifd tiff off r; Some es };
              thumb_dir = parse_ifd1 tiff r nxt;
              ifd0 = (if exif_taken \<noteq> None then retain_not {TAG_EXIF_IFD} ifd0 else ifd0);
              ifd0 = (if gps_taken \<noteq> None then retain_not {TAG_GPS_IFD} ifd0 else ifd0)
          in Some \<lparr> ex_order = r, ex_prefix = had_prefix bs, ex_ifd0 = ifd0, ex_exif = map_option fst exif_dir,
                    ex_gps = gps_dir, ex_interop = Option.bind exif_dir snd, ex_ifd1 = map_option fst thumb_dir,
                    ex_thumb = Option.bind thumb_dir snd, ex_text = TextAscii \<rparr> } })"

subsection \<open>Reading the tree\<close>

record entry_ref =
  rf_ifd :: ifd
  rf_tag :: nat
  rf_kind :: nat
  rf_count :: nat
  rf_value :: "byte list"

definition entry_view :: "ifd \<Rightarrow> exif_entry \<Rightarrow> entry_ref" where
  "entry_view d e = \<lparr> rf_ifd = d, rf_tag = en_tag e, rf_kind = en_kind e, rf_count = en_count e, rf_value = en_bytes e \<rparr>"

fun views :: "ifd \<Rightarrow> exif_entry list option \<Rightarrow> entry_ref list" where
  "views d None = []"
| "views d (Some es) = map (entry_view d) es"

definition entries :: "exif \<Rightarrow> entry_ref list" where
  "entries x = views Ifd0 (Some (ex_ifd0 x)) @ views IfdExif (ex_exif x) @ views IfdInterop (ex_interop x)
     @ views IfdGps (ex_gps x) @ views Ifd1 (ex_ifd1 x)"

text \<open>
  \<open>Orientation\<close> is a type of the zenpixels package; \<open>from_exif\<close> is its conversion from the number of
  the tag.
\<close>

definition exif_orientation :: "(nat \<Rightarrow> 'o option) \<Rightarrow> exif \<Rightarrow> 'o option" where
  "exif_orientation from_exif x = do {
     e \<leftarrow> with_tag TAG_ORIENTATION (ex_ifd0 x);
     raw \<leftarrow> read_uint e (ex_order x);
     raw \<leftarrow> try_into 255 raw;
     from_exif raw }"

definition ascii_bytes :: "exif_entry list \<Rightarrow> nat \<Rightarrow> byte list option" where
  "ascii_bytes es tag = do {
     e \<leftarrow> with_tag tag es;
     if en_kind e \<noteq> TIFF_ASCII \<and> en_kind e \<noteq> TIFF_UTF8 then None
     else let bs = takeWhile (\<lambda>b. b \<noteq> 0) (en_bytes e) in if bs = [] then None else Some bs }"

definition copyright_bytes :: "exif \<Rightarrow> byte list option" where
  "copyright_bytes x = ascii_bytes (ex_ifd0 x) TAG_COPYRIGHT"

definition artist_bytes :: "exif \<Rightarrow> byte list option" where
  "artist_bytes x = ascii_bytes (ex_ifd0 x) TAG_ARTIST"

definition has_thumbnail :: "exif \<Rightarrow> bool" where "has_thumbnail x \<longleftrightarrow> ex_thumb x \<noteq> None"
definition has_gps :: "exif \<Rightarrow> bool" where "has_gps x \<longleftrightarrow> ex_gps x \<noteq> None"

definition has_category :: "exif \<Rightarrow> category \<Rightarrow> bool" where
  "has_category x c \<longleftrightarrow> list_ex (\<lambda>e. classify (en_tag e) = c) (ex_ifd0 x)
     \<or> (case ex_exif x of None \<Rightarrow> False | Some es \<Rightarrow> list_ex (\<lambda>e. classify (en_tag e) = c) es)"

definition has_device_ids :: "exif \<Rightarrow> bool" where "has_device_ids x \<longleftrightarrow> has_category x CDeviceIds"
definition has_camera_owner :: "exif \<Rightarrow> bool" where "has_camera_owner x \<longleftrightarrow> has_category x CCameraOwner"
definition has_image_unique_id :: "exif \<Rightarrow> bool" where "has_image_unique_id x \<longleftrightarrow> has_category x CImageUniqueId"
definition has_time_offsets :: "exif \<Rightarrow> bool" where "has_time_offsets x \<longleftrightarrow> has_category x CTimeOffsets"

definition has_camera :: "exif \<Rightarrow> bool" where
  "has_camera x \<longleftrightarrow> has_category x CCamera \<or> has_device_ids x \<or> has_camera_owner x \<or> has_image_unique_id x"

definition has_color :: "exif \<Rightarrow> bool" where
  "has_color x \<longleftrightarrow> ex_interop x \<noteq> None \<or> has_category x CColor"

definition has_datetimes :: "exif \<Rightarrow> bool" where
  "has_datetimes x \<longleftrightarrow> has_category x CDatetimes \<or> has_time_offsets x"

end
