(* ===== verification/Exif_Write.thy ===== *)
theory Exif_Write
  imports Exif
begin

text \<open>
  EXIF metadata: \<open>src/src/exif.rs\<close>, the edits, the retention policies, the writer and the in-place
  patches. What the writer makes of a tree is read back by the parser: \<open>Exif_Roundtrip\<close>.
\<close>

subsection \<open>Retention policies\<close>

datatype retention = Keep | Discard

definition keeps :: "retention \<Rightarrow> bool" where "keeps r \<longleftrightarrow> r = Keep"
definition discards :: "retention \<Rightarrow> bool" where "discards r \<longleftrightarrow> r = Discard"

record exif_policy =
  po_orientation :: retention
  po_rights :: retention
  po_thumbnail :: retention
  po_gps :: retention
  po_datetimes :: retention
  po_time_offsets :: retention
  po_camera :: retention
  po_device_ids :: retention
  po_camera_owner :: retention
  po_image_unique_id :: retention
  po_color :: retention
  po_other :: retention

definition KEEP_ALL :: exif_policy where
  "KEEP_ALL = \<lparr> po_orientation = Keep, po_rights = Keep, po_thumbnail = Keep, po_gps = Keep, po_datetimes = Keep,
     po_time_offsets = Keep, po_camera = Keep, po_device_ids = Keep, po_camera_owner = Keep,
     po_image_unique_id = Keep, po_color = Keep, po_other = Keep \<rparr>"

definition DISCARD_ALL :: exif_policy where
  "DISCARD_ALL = \<lparr> po_orientation = Discard, po_rights = Discard, po_thumbnail = Discard, po_gps = Discard,
     po_datetimes = Discard, po_time_offsets = Discard, po_camera = Discard, po_device_ids = Discard,
     po_camera_owner = Discard, po_image_unique_id = Discard, po_color = Discard, po_other = Discard \<rparr>"

definition ATTRIBUTED_ORIENTATION :: exif_policy where
  "ATTRIBUTED_ORIENTATION = DISCARD_ALL\<lparr>po_orientation := Keep, po_rights := Keep, po_color := Keep\<rparr>"

definition ORIENTATION_ONLY :: exif_policy where
  "ORIENTATION_ONLY = DISCARD_ALL\<lparr>po_orientation := Keep, po_color := Keep\<rparr>"

definition policy_with_orientation :: "retention \<Rightarrow> exif_policy \<Rightarrow> exif_policy" where
  "policy_with_orientation r p = p\<lparr>po_orientation := r\<rparr>"

definition policy_with_rights :: "retention \<Rightarrow> exif_policy \<Rightarrow> exif_policy" where
  "policy_with_rights r p = p\<lparr>po_rights := r\<rparr>"

definition policy_with_thumbnail :: "retention \<Rightarrow> exif_policy \<Rightarrow> exif_policy" where
  "policy_with_thumbnail r p = p\<lparr>po_thumbnail := r\<rparr>"

definition policy_with_gps :: "retention \<Rightarrow> exif_policy \<Rightarrow> exif_policy" where
  "policy_with_gps r p = p\<lparr>po_gps := r\<rparr>"

definition policy_with_datetimes :: "retention \<Rightarrow> exif_policy \<Rightarrow> exif_policy" where
  "policy_with_datetimes r p =
     (let p = p\<lparr>po_datetimes := r\<rparr> in if discards r then p\<lparr>po_time_offsets := Discard\<rparr> else p)"

definition policy_with_time_offsets :: "retention \<Rightarrow> exif_policy \<Rightarrow> exif_policy" where
  "policy_with_time_offsets r p = p\<lparr>po_time_offsets := r\<rparr>"

definition policy_with_camera :: "retention \<Rightarrow> exif_policy \<Rightarrow> exif_policy" where
  "policy_with_camera r p =
     (let p = p\<lparr>po_camera := r\<rparr> in
      if discards r then p\<lparr>po_device_ids := Discard, po_camera_owner := Discard, po_image_unique_id := Discard\<rparr> else p)"

definition policy_with_device_ids :: "retention \<Rightarrow> exif_policy \<Rightarrow> exif_policy" where
  "policy_with_device_ids r p = p\<lparr>po_device_ids := r\<rparr>"

definition policy_with_camera_owner :: "retention \<Rightarrow> exif_policy \<Rightarrow> exif_policy" where
  "policy_with_camera_owner r p = p\<lparr>po_camera_owner := r\<rparr>"

definition policy_with_image_unique_id :: "retention \<Rightarrow> exif_policy \<Rightarrow> exif_policy" where
  "policy_with_image_unique_id r p = p\<lparr>po_image_unique_id := r\<rparr>"

definition policy_with_color :: "retention \<Rightarrow> exif_policy \<Rightarrow> exif_policy" where
  "policy_with_color r p = p\<lparr>po_color := r\<rparr>"

definition policy_with_other :: "retention \<Rightarrow> exif_policy \<Rightarrow> exif_policy" where
  "policy_with_other r p = p\<lparr>po_other := r\<rparr>"

fun policy_keeps :: "exif_policy \<Rightarrow> category \<Rightarrow> bool" where
  "policy_keeps p COrientation = keeps (po_orientation p)"
| "policy_keeps p CRights = keeps (po_rights p)"
| "policy_keeps p CDatetimes = keeps (po_datetimes p)"
| "policy_keeps p CTimeOffsets = keeps (po_time_offsets p)"
| "policy_keeps p CCamera = keeps (po_camera p)"
| "policy_keeps p CDeviceIds = keeps (po_device_ids p)"
| "policy_keeps p CCameraOwner = keeps (po_camera_owner p)"
| "policy_keeps p CImageUniqueId = keeps (po_image_unique_id p)"
| "policy_keeps p CColor = keeps (po_color p)"
| "policy_keeps p COther = keeps (po_other p)"

definition keeps_everything :: "exif_policy \<Rightarrow> bool" where
  "keeps_everything p \<longleftrightarrow> keeps (po_orientation p) \<and> keeps (po_rights p) \<and> keeps (po_thumbnail p) \<and> keeps (po_gps p)
     \<and> keeps (po_datetimes p) \<and> keeps (po_time_offsets p) \<and> keeps (po_camera p) \<and> keeps (po_device_ids p)
     \<and> keeps (po_camera_owner p) \<and> keeps (po_image_unique_id p) \<and> keeps (po_color p) \<and> keeps (po_other p)"

definition discards_everything :: "exif_policy \<Rightarrow> bool" where
  "discards_everything p \<longleftrightarrow> p = DISCARD_ALL"

subsection \<open>Edits\<close>

definition int_bytes :: "nat \<Rightarrow> nat \<Rightarrow> byte_order \<Rightarrow> cow option" where
  "int_bytes kind v r =
     (if kind = TIFF_SHORT then Some (Owned (uint_bytes r 2 v))
      else if kind = TIFF_LONG then Some (Owned (uint_bytes r 4 v))
      else None)"

text \<open>The number of the orientation, \<open>to_exif()\<close>, stands for the orientation.\<close>

definition orientation_entry :: "nat \<Rightarrow> byte_order \<Rightarrow> exif_entry" where
  "orientation_entry v r = \<lparr> en_tag = TAG_ORIENTATION, en_kind = TIFF_SHORT, en_count = 1,
     en_value = Owned (uint_bytes r 2 v), en_offset = 0 \<rparr>"

text \<open>\<open>iter_mut().find(..)\<close>: the first entry with the tag is replaced; \<open>None\<close> when there is none.\<close>

fun update_tag :: "nat \<Rightarrow> (exif_entry \<Rightarrow> exif_entry) \<Rightarrow> exif_entry list \<Rightarrow> exif_entry list option" where
  "update_tag tag f [] = None"
| "update_tag tag f (e # es) =
     (if en_tag e = tag then Some (f e # es) else map_option ((#) e) (update_tag tag f es))"

definition set_ifd0_string :: "nat \<Rightarrow> byte list \<Rightarrow> text_encoding \<Rightarrow> exif_entry list \<Rightarrow> exif_entry list" where
  "set_ifd0_string tag text enc es =
     (let bs = text @ [0];
          entry = \<lparr> en_tag = tag, en_kind = (case enc of TextAscii \<Rightarrow> TIFF_ASCII | TextUtf8 \<Rightarrow> TIFF_UTF8),
                    en_count = wrap u32_max (length bs), en_value = Owned bs, en_offset = 0 \<rparr>
      in case update_tag tag (\<lambda>_. entry) es of Some es \<Rightarrow> es | None \<Rightarrow> es @ [entry])"

definition set_copyright :: "byte list \<Rightarrow> exif \<Rightarrow> exif" where
  "set_copyright text x = x\<lparr>ex_ifd0 := set_ifd0_string TAG_COPYRIGHT text (ex_text x) (ex_ifd0 x)\<rparr>"

definition set_artist :: "byte list \<Rightarrow> exif \<Rightarrow> exif" where
  "set_artist text x = x\<lparr>ex_ifd0 := set_ifd0_string TAG_ARTIST text (ex_text x) (ex_ifd0 x)\<rparr>"

definition set_orientation :: "nat \<Rightarrow> exif \<Rightarrow> exif" where
  "set_orientation v x =
     (let r = ex_order x;
          set_value = (\<lambda>e. case int_bytes (en_kind e) v r of
            Some value \<Rightarrow> e\<lparr>en_count := 1, en_value := value\<rparr>
          | None \<Rightarrow> orientation_entry v r)
      in x\<lparr>ex_ifd0 := (case update_tag TAG_ORIENTATION set_value (ex_ifd0 x) of
            Some es \<Rightarrow> es | None \<Rightarrow> ex_ifd0 x @ [orientation_entry v r])\<rparr>)"

definition set_orientation_tag :: "nat \<Rightarrow> exif \<Rightarrow> exif" where
  "set_orientation_tag v x =
     (let r = ex_order x;
          set_value = (\<lambda>e. case int_bytes (en_kind e) v r of
            Some value \<Rightarrow> e\<lparr>en_value := value, en_count := 1\<rparr>
          | None \<Rightarrow> e)
      in x\<lparr>ex_ifd0 := (case update_tag TAG_ORIENTATION set_value (ex_ifd0 x) of
            Some es \<Rightarrow> es | None \<Rightarrow> ex_ifd0 x)\<rparr>)"

subsection \<open>The filter\<close>

abbreviation structural_tags :: "nat set" where
  "structural_tags \<equiv> {TAG_SUBIFDS, TAG_EXIF_IFD, TAG_GPS_IFD, TAG_INTEROP_IFD, TAG_THUMB_OFFSET, TAG_THUMB_LENGTH,
     TAG_STRIP_OFFSETS, TAG_STRIP_BYTE_COUNTS, TAG_TILE_OFFSETS, TAG_TILE_BYTE_COUNTS}"

definition keep_entry :: "exif_policy \<Rightarrow> byte_order \<Rightarrow> bool \<Rightarrow> exif_entry \<Rightarrow> bool" where
  "keep_entry p r exif_directory e =
     (let tag = en_tag e in
      if tag \<in> structural_tags then False
      else if tag = TAG_MAKER_NOTE then False
      else if tag = TAG_ORIENTATION then
        \<not> exif_directory \<and> keeps (po_orientation p) \<and> en_count e = 1 \<and> en_kind e \<in> {TIFF_SHORT, TIFF_LONG}
        \<and> (case read_uint e r of None \<Rightarrow> False | Some v \<Rightarrow> 1 \<le> v \<and> v \<le> 8)
      else if tag = TAG_COLOR_SPACE then
        exif_directory \<and> keeps (po_color p) \<and> en_kind e = TIFF_SHORT \<and> en_count e = 1
      else if tag = TAG_GAMMA then
        exif_directory \<and> keeps (po_color p) \<and> en_kind e = TIFF_RATIONAL \<and> en_count e = 1
        \<and> (case rd32 (en_bytes e) 0 r of None \<Rightarrow> False | Some v \<Rightarrow> v \<noteq> 0)
        \<and> (case rd32 (en_bytes e) 4 r of None \<Rightarrow> False | Some v \<Rightarrow> v \<noteq> 0)
      else if tag \<in> {TAG_COPYRIGHT, TAG_ARTIST, TAG_PHOTOGRAPHER, TAG_IMAGE_EDITOR} then
        exif_directory = (tag \<in> {TAG_PHOTOGRAPHER, TAG_IMAGE_EDITOR}) \<and> keeps (po_rights p)
        \<and> en_kind e \<in> {TIFF_ASCII, TIFF_UTF8}
      else policy_keeps p (classify tag))"

definition keep_interop :: "exif_entry \<Rightarrow> bool" where
  "keep_interop e =
     (if en_tag e = TAG_INTEROP_INDEX then
        en_kind e = TIFF_ASCII \<and> en_count e = 4
        \<and> en_bytes e \<in> {[0x52, 0x39, 0x38, 0], [0x52, 0x30, 0x33, 0], [0x54, 0x48, 0x4D, 0]}
      else if en_tag e = TAG_INTEROP_VERSION then
        en_kind e = TIFF_UNDEFINED \<and> en_count e = 4 \<and> list_all (\<lambda>b. 0x30 \<le> b \<and> b \<le> 0x39) (en_bytes e)
      else False)"

text \<open>\<open>Option::filter\<close>.\<close>

definition option_filter :: "('a \<Rightarrow> bool) \<Rightarrow> 'a option \<Rightarrow> 'a option" where
  "option_filter f x = (case x of None \<Rightarrow> None | Some y \<Rightarrow> if f y then Some y else None)"

definition filtered :: "exif_policy \<Rightarrow> exif \<Rightarrow> exif" where
  "filtered p x =
     (let r = ex_order x;
          interop = option_filter (\<lambda>d. d \<noteq> [])
            (map_option (filter keep_interop)
              (option_filter (\<lambda>_. keeps (po_color p) \<and> ex_exif x \<noteq> None) (ex_interop x)));
          exif_dir = option_filter (\<lambda>d. d \<noteq> [] \<or> interop \<noteq> None)
            (map_option (filter (keep_entry p r True)) (ex_exif x));
          gps = (case po_gps p of Keep \<Rightarrow> ex_gps x | Discard \<Rightarrow> None);
          (ifd1, thumb) = (case po_thumbnail p of
              Keep \<Rightarrow> (map_option (filter (keep_entry p r False)) (ex_ifd1 x), ex_thumb x)
            | Discard \<Rightarrow> (None, None))
      in \<lparr> ex_order = r, ex_prefix = ex_prefix x, ex_ifd0 = filter (keep_entry p r False) (ex_ifd0 x),
           ex_exif = exif_dir, ex_gps = gps, ex_interop = interop, ex_ifd1 = ifd1, ex_thumb = thumb,
           ex_text = ex_text x \<rparr>)"

subsection \<open>The writer\<close>

definition align2 :: "nat \<Rightarrow> nat" where
  "align2 n = n + n mod 2"

text \<open>
  The address and the length of a value; an owned value's allocation is no other value's, so the
  writer never finds it placed already.
\<close>

fun value_key :: "cow \<Rightarrow> (nat \<times> nat) option" where
  "value_key (Borrowed p bs) = Some (p, length bs)"
| "value_key (Owned bs) = None"

fun ext_size_from :: "(nat \<times> nat) option list \<Rightarrow> exif_entry list \<Rightarrow> nat" where
  "ext_size_from placed [] = 0"
| "ext_size_from placed (e # es) =
     (if length (en_bytes e) \<le> 4 then ext_size_from placed es
      else let key = value_key (en_value e) in
        if key \<noteq> None \<and> key \<in> set placed then ext_size_from placed es
        else align2 (length (en_bytes e)) + ext_size_from (placed @ [key]) es)"

definition ext_size :: "exif_entry list \<Rightarrow> nat" where
  "ext_size es = ext_size_from [] es"

definition block_size :: "exif_entry list \<Rightarrow> nat \<Rightarrow> nat" where
  "block_size es nptr = 2 + 12 * (length es + nptr) + 4 + ext_size es"

text \<open>The interoperability directory is written only under an Exif directory (\<open>Option::and\<close>).\<close>

definition written_interop :: "exif \<Rightarrow> exif_entry list option" where
  "written_interop x = (if ex_exif x \<noteq> None then ex_interop x else None)"

definition serialized_len :: "exif \<Rightarrow> nat" where
  "serialized_len x =
     (let ifd0_nptr = of_bool (ex_exif x \<noteq> None) + of_bool (ex_gps x \<noteq> None);
          interop = written_interop x;
          ifd1_nptr = (if ex_thumb x \<noteq> None then 2 else 0)
      in (if ex_prefix x then length EXIF_PREFIX else 0)
         + (TIFF_HEADER_SIZE + block_size (ex_ifd0 x) ifd0_nptr)
         + (case ex_exif x of None \<Rightarrow> 0 | Some d \<Rightarrow> block_size d (of_bool (interop \<noteq> None)))
         + (case interop of None \<Rightarrow> 0 | Some d \<Rightarrow> block_size d 0)
         + (case ex_gps x of None \<Rightarrow> 0 | Some d \<Rightarrow> block_size d 0)
         + (case ex_ifd1 x of None \<Rightarrow> 0 | Some d \<Rightarrow> block_size d ifd1_nptr)
         + (case ex_thumb x of None \<Rightarrow> 0 | Some t \<Rightarrow> length t))"

datatype item = Real exif_entry | Ptr nat nat

fun item_tag :: "item \<Rightarrow> nat" where
  "item_tag (Real e) = en_tag e"
| "item_tag (Ptr t v) = t"

fun find_placed :: "(nat \<times> nat) option \<Rightarrow> ((nat \<times> nat) option \<times> nat) list \<Rightarrow> nat option" where
  "find_placed key [] = None"
| "find_placed key ((k, off) # ps) = (if k \<noteq> None \<and> k = key then Some off else find_placed key ps)"

text \<open>The entries of a table, with the area behind it: both grow as the items are written.\<close>

fun write_items ::
    "byte_order \<Rightarrow> nat \<Rightarrow> item list \<Rightarrow> byte list \<Rightarrow> ((nat \<times> nat) option \<times> nat) list \<Rightarrow> byte list \<times> byte list"
where
  "write_items r ext_base [] ext placed = ([], ext)"
| "write_items r ext_base (Ptr tag val # its) ext placed =
     (case write_items r ext_base its ext placed of (table, ext) \<Rightarrow>
       (uint_bytes r 2 tag @ uint_bytes r 2 TIFF_LONG @ uint_bytes r 4 1 @ uint_bytes r 4 val @ table, ext))"
| "write_items r ext_base (Real e # its) ext placed =
     (let bs = en_bytes e; head = uint_bytes r 2 (en_tag e) @ uint_bytes r 2 (en_kind e) @ uint_bytes r 4 (en_count e) in
      if length bs \<le> 4 then
        (case write_items r ext_base its ext placed of (table, ext) \<Rightarrow>
          (head @ (bs @ replicate (4 - length bs) 0) @ table, ext))
      else
        (case (case find_placed (value_key (en_value e)) placed of
            Some off \<Rightarrow> (off, ext, placed)
          | None \<Rightarrow>
              (length ext, (let x = ext @ bs in if length x mod 2 = 1 then x @ [0] else x),
               placed @ [(value_key (en_value e), length ext)])) of (off, ext, placed) \<Rightarrow>
          (case write_items r ext_base its ext placed of (table, ext) \<Rightarrow>
            (head @ uint_bytes r 4 (ext_base + off) @ table, ext))))"

definition table_items :: "exif_entry list \<Rightarrow> (nat \<times> nat) list \<Rightarrow> item list" where
  "table_items es ptrs = sort_key item_tag (map Real es @ map (\<lambda>(t, v). Ptr t v) ptrs)"

definition write_ifd :: "byte_order \<Rightarrow> exif_entry list \<Rightarrow> (nat \<times> nat) list \<Rightarrow> nat \<Rightarrow> nat \<Rightarrow> byte list" where
  "write_ifd r es ptrs ext_base nxt =
     (let items = table_items es ptrs in
      case write_items r ext_base items [] [] of (table, ext) \<Rightarrow>
        uint_bytes r 2 (length items) @ table @ uint_bytes r 4 nxt @ ext)"

text \<open>Where the blocks lie: each begins where the one before it ends.\<close>

record layout =
  lo_exif :: nat
  lo_interop :: nat
  lo_gps :: nat
  lo_ifd1 :: nat
  lo_thumb :: nat

definition block_of :: "exif_entry list option \<Rightarrow> nat \<Rightarrow> nat" where
  "block_of d nptr = (case d of None \<Rightarrow> 0 | Some es \<Rightarrow> block_size es nptr)"

definition layout_of :: "exif \<Rightarrow> layout" where
  "layout_of x =
     (let interop = written_interop x;
          exif_off = TIFF_HEADER_SIZE + block_size (ex_ifd0 x) (of_bool (ex_exif x \<noteq> None) + of_bool (ex_gps x \<noteq> None));
          interop_off = exif_off + block_of (ex_exif x) (of_bool (interop \<noteq> None));
          gps_off = interop_off + block_of interop 0;
          ifd1_off = gps_off + block_of (ex_gps x) 0
      in \<lparr> lo_exif = exif_off, lo_interop = interop_off, lo_gps = gps_off, lo_ifd1 = ifd1_off,
           lo_thumb = ifd1_off + block_of (ex_ifd1 x) (if ex_thumb x \<noteq> None then 2 else 0) \<rparr>)"

definition table_end :: "nat \<Rightarrow> nat \<Rightarrow> nat" where
  "table_end off n = off + 2 + 12 * n + 4"

definition to_bytes :: "exif \<Rightarrow> byte list" where
  "to_bytes x =
     (let r = ex_order x; lo = layout_of x; interop = written_interop x;
          ptr = (\<lambda>d tag off. if d \<noteq> None then [(tag, off)] else []);
          ptrs0 = ptr (ex_exif x) TAG_EXIF_IFD (lo_exif lo) @ ptr (ex_gps x) TAG_GPS_IFD (lo_gps lo);
          ptrs_exif = ptr interop TAG_INTEROP_IFD (lo_interop lo);
          ptrs1 = (case ex_thumb x of None \<Rightarrow> []
            | Some t \<Rightarrow> [(TAG_THUMB_OFFSET, lo_thumb lo), (TAG_THUMB_LENGTH, length t)]);
          dir = (\<lambda>d ptrs off. case d of None \<Rightarrow> []
            | Some es \<Rightarrow> write_ifd r es ptrs (table_end off (length es + length ptrs)) 0)
      in (if ex_prefix x then EXIF_PREFIX else [])
         @ (case r of LittleEndian \<Rightarrow> [0x49, 0x49] | BigEndian \<Rightarrow> [0x4D, 0x4D])
         @ uint_bytes r 2 42 @ uint_bytes r 4 TIFF_HEADER_SIZE
         @ write_ifd r (ex_ifd0 x) ptrs0 (table_end TIFF_HEADER_SIZE (length (ex_ifd0 x) + length ptrs0))
             (if ex_ifd1 x \<noteq> None then lo_ifd1 lo else 0)
         @ dir (ex_exif x) ptrs_exif (lo_exif lo)
         @ dir interop [] (lo_interop lo)
         @ dir (ex_gps x) [] (lo_gps lo)
         @ dir (ex_ifd1 x) ptrs1 (lo_ifd1 lo)
         @ (case ex_thumb x of None \<Rightarrow> [] | Some t \<Rightarrow> t))"

subsection \<open>Patching in place\<close>

text \<open>\<open>out.get_mut(a..b)\<close> filled from a slice of that length.\<close>

definition patch_at :: "byte list \<Rightarrow> nat \<Rightarrow> byte list \<Rightarrow> byte list" where
  "patch_at d a bs = take a d @ bs @ drop (a + length bs) d"

definition patch_inline_int :: "byte list \<Rightarrow> exif \<Rightarrow> exif_entry \<Rightarrow> nat \<Rightarrow> byte list option" where
  "patch_inline_int bs x e v = do {
     size \<leftarrow> (if en_kind e = TIFF_SHORT then Some 2 else if en_kind e = TIFF_LONG then Some 4 else None);
     if saturating_mul usize_max (en_count e) size > 4 then None
     else do {
       off \<leftarrow> checked_add usize_max (if ex_prefix x then length EXIF_PREFIX else 0) (en_offset e);
       fin \<leftarrow> checked_add usize_max off size;
       _ \<leftarrow> slice_get bs off fin;
       Some (patch_at bs off (uint_bytes (ex_order x) size v)) } }"

definition set_orientation_with :: "byte list \<Rightarrow> exif \<Rightarrow> nat \<Rightarrow> byte list option" where
  "set_orientation_with bs x v = do { e \<leftarrow> with_tag TAG_ORIENTATION (ex_ifd0 x); patch_inline_int bs x e v }"

definition patch_orientation :: "byte list \<Rightarrow> nat \<Rightarrow> byte list option" where
  "patch_orientation bs v = do { x \<leftarrow> parse bs; set_orientation_with bs x v }"

definition set_color_space :: "byte list \<Rightarrow> nat \<Rightarrow> byte list option" where
  "set_color_space bs v = do {
     x \<leftarrow> parse bs;
     e \<leftarrow> with_tag TAG_COLOR_SPACE ((case ex_exif x of None \<Rightarrow> [] | Some es \<Rightarrow> es) @ ex_ifd0 x);
     patch_inline_int bs x e v }"

subsection \<open>Retention\<close>

text \<open>The blob unchanged, or a new one.\<close>

datatype retained = Same | Rewritten "byte list"

definition tree_is_empty :: "exif \<Rightarrow> bool" where
  "tree_is_empty x \<longleftrightarrow> ex_ifd0 x = [] \<and> ex_exif x = None \<and> ex_gps x = None \<and> ex_ifd1 x = None"

text \<open>
  \<open>want\<close> is the number of the orientation to write, and \<open>from_exif\<close> the conversion of the zenpixels
  package from the number of the tag to an orientation; \<open>same o v\<close> says that \<open>o\<close> is the orientation
  with number \<open>v\<close>.
\<close>

definition retain_reconciled ::
    "(nat \<Rightarrow> 'o option) \<Rightarrow> ('o \<Rightarrow> nat) \<Rightarrow> byte list \<Rightarrow> exif_policy \<Rightarrow> 'o option \<Rightarrow> retained option" where
  "retain_reconciled from_exif to_exif src p want =
     (if discards_everything p then None
      else let keeps_all = keeps_everything p in
      if keeps_all \<and> want = None then Some Same
      else if length src > u32_max then (if keeps_all then Some Same else None)
      else case parse src of
        None \<Rightarrow> if keeps_all then Some Same else None
      | Some x \<Rightarrow>
          if keeps_all then
            (case want of
               Some v \<Rightarrow>
                 if exif_orientation from_exif x \<noteq> Some v then
                   (case set_orientation_with src x (to_exif v) of Some bs \<Rightarrow> Some (Rewritten bs) | None \<Rightarrow> Some Same)
                 else Some Same
             | None \<Rightarrow> Some Same)
          else
            let pruned = filtered p x;
                pruned = (case want of Some v \<Rightarrow> set_orientation_tag (to_exif v) pruned | None \<Rightarrow> pruned) in
            if tree_is_empty pruned then None
            else
              let cap = min (saturating_add usize_max (saturating_mul usize_max (length src) 2) 1024) u32_max in
              if serialized_len pruned > cap then None
              else Some (Rewritten (to_bytes pruned)))"

definition retain :: "(nat \<Rightarrow> 'o option) \<Rightarrow> ('o \<Rightarrow> nat) \<Rightarrow> byte list \<Rightarrow> exif_policy \<Rightarrow> retained option" where
  "retain from_exif to_exif src p = retain_reconciled from_exif to_exif src p None"

end
