(* ===== verification/Exif_Sound.thy ===== *)
theory Exif_Sound
  imports Exif
begin

text \<open>
  What the EXIF parser vouches for: every value it hands out is a slice of the blob of exactly
  the length its type and count say, no directory has more than a thousand entries, and a
  directory that was reached by a pointer no longer holds the pointer.
\<close>

text \<open>An entry of a tree: a known type, a value of its size, and the slice of \<open>src\<close> it borrows.\<close>

definition entry_ok :: "byte list \<Rightarrow> exif_entry \<Rightarrow> bool" where
  "entry_ok src e \<longleftrightarrow> en_tag e < 2 ^ 16 \<and> en_kind e < 2 ^ 16 \<and> en_count e < 2 ^ 32
     \<and> (case type_size (en_kind e) of None \<Rightarrow> False | Some n \<Rightarrow> length (en_bytes e) = en_count e * n)
     \<and> (case en_value e of Owned _ \<Rightarrow> True
        | Borrowed p bs \<Rightarrow> p + length bs \<le> length src \<and> take (length bs) (drop p src) = bs)"

abbreviation dir_ok :: "byte list \<Rightarrow> exif_entry list \<Rightarrow> bool" where
  "dir_ok src es \<equiv> \<forall>e\<in>set es. entry_ok src e"

abbreviation size_of :: "'a option \<Rightarrow> nat" where
  "size_of d \<equiv> of_bool (d \<noteq> None)"

text \<open>What the writer needs of a tree, apart from its size and the tags of pointers.\<close>

definition tree_ok :: "byte list \<Rightarrow> exif \<Rightarrow> bool" where
  "tree_ok src x \<longleftrightarrow> dir_ok src (ex_ifd0 x) \<and> length (ex_ifd0 x) + size_of (ex_exif x) + size_of (ex_gps x) \<le> MAX_IFD_ENTRIES
     \<and> (\<forall>es. ex_exif x = Some es \<longrightarrow> dir_ok src es \<and> length es + size_of (ex_interop x) \<le> MAX_IFD_ENTRIES)
     \<and> (\<forall>es. ex_interop x = Some es \<longrightarrow> dir_ok src es \<and> length es \<le> MAX_IFD_ENTRIES \<and> ex_exif x \<noteq> None)
     \<and> (\<forall>es. ex_gps x = Some es \<longrightarrow> dir_ok src es \<and> length es \<le> MAX_IFD_ENTRIES)
     \<and> (\<forall>es. ex_ifd1 x = Some es \<longrightarrow> dir_ok src es \<and> length es + 2 * size_of (ex_thumb x) \<le> MAX_IFD_ENTRIES)
     \<and> (ex_thumb x \<noteq> None \<longrightarrow> ex_ifd1 x \<noteq> None)"

lemma bind_Some: "Option.bind x f = Some y \<longleftrightarrow> (\<exists>z. x = Some z \<and> f z = Some y)"
  by (cases x) simp_all

lemma rd16_Some: "rd16 d off r = Some n \<longleftrightarrow> off + 2 \<le> u64_max \<and> off + 2 \<le> length d \<and> n = uint_of r (take 2 (drop off d))"
  by (auto simp: rd16_def bind_Some slice_get_Some)

lemma rd32_Some: "rd32 d off r = Some n \<longleftrightarrow> off + 4 \<le> u64_max \<and> off + 4 \<le> length d \<and> n = uint_of r (take 4 (drop off d))"
  by (auto simp: rd32_def bind_Some slice_get_Some)

lemma rd16_bound: "rd16 d off r = Some n \<Longrightarrow> n < 2 ^ 16"
  using uint_bound[of "take 2 (drop off d)" 2 r] by (auto simp: rd16_Some)

lemma rd32_bound: "rd32 d off r = Some n \<Longrightarrow> n < 2 ^ 32"
  using uint_bound[of "take 4 (drop off d)" 4 r] by (auto simp: rd32_Some)

lemma resolve_ok:
  assumes "resolve_entry tiff e r = Some x"
  shows "entry_ok tiff x"
  using assms
  by (auto simp: resolve_entry_def bind_Some entry_ok_def slice_get_Some split: if_splits
      dest!: rd16_bound rd32_bound)

lemma parse_entries_step:
  "parse_entries tiff s r i (Suc k) =
     (if s + 12 * i + 12 \<le> u64_max \<and> s + 12 * i + 12 \<le> length tiff then
        (case resolve_entry tiff (s + 12 * i) r of None \<Rightarrow> [] | Some x \<Rightarrow> [x]) @ parse_entries tiff s r (Suc i) k
      else [])"
  by (auto simp: bind_Some mult.commute split: option.split bind_split)

declare parse_entries.simps(2) [simp del]

lemma parse_entries_ok: "dir_ok tiff (parse_entries tiff s r i k) \<and> length (parse_entries tiff s r i k) \<le> k"
proof (induction k arbitrary: i)
  case (Suc k)
  then show ?case
    using Suc.IH[of "Suc i"] resolve_ok by (fastforce simp: parse_entries_step split: option.splits)
qed simp

lemma parse_ifd_ok:
  assumes "parse_ifd tiff off r = Some (es, n)"
  shows "dir_ok tiff es \<and> length es \<le> MAX_IFD_ENTRIES \<and> n < 2 ^ 32"
proof -
  obtain c s where es: "es = parse_entries tiff s r 0 c" "c \<le> MAX_IFD_ENTRIES"
    using assms by (auto simp: parse_ifd_def bind_Some split: if_splits)
  have "n < 2 ^ 32" using assms by (auto simp: parse_ifd_def bind_Some split: if_splits option.splits dest!: rd32_bound)
  then show ?thesis using parse_entries_ok[of tiff s r 0 c] es by auto
qed

lemma retain_not_set: "set (retain_not T es) \<subseteq> set es" "length (retain_not T es) \<le> length es"
  by (auto simp: retain_not_def)

text \<open>Taking a pointer removes one entry with its tag; then no other is left.\<close>

lemma take_pointer_split:
  assumes "take_pointer es tag r = (Some off, es')"
  shows "\<exists>a e b. es = a @ e # b \<and> es' = a @ b \<and> en_tag e = tag"
proof -
  obtain e b where d: "dropWhile (\<lambda>e. en_tag e \<noteq> tag) es = e # b" "es' = takeWhile (\<lambda>e. en_tag e \<noteq> tag) es @ b"
    using assms by (auto simp: take_pointer_def split: list.splits option.splits)
  have "es = takeWhile (\<lambda>e. en_tag e \<noteq> tag) es @ e # b" using takeWhile_dropWhile_id[of "\<lambda>e. en_tag e \<noteq> tag" es] d(1) by simp
  moreover have "en_tag e = tag" using d(1) by (simp add: dropWhile_eq_Cons_conv)
  ultimately show ?thesis using d(2) by blast
qed

lemma take_pointer_None: "take_pointer es tag r = (None, es') \<Longrightarrow> es' = es"
  by (auto simp: take_pointer_def split: list.splits option.splits)

lemma take_pointer_ok:
  assumes "take_pointer es tag r = (t, es')" "dir_ok src es"
  shows "dir_ok src es' \<and> length es' + size_of t \<le> length es"
proof (cases t)
  case None
  then show ?thesis using take_pointer_None[of es tag r es'] assms by auto
next
  case (Some off)
  then show ?thesis using take_pointer_split[of es tag r off es'] assms by auto
qed

lemma retain_not_ok: "dir_ok src es \<Longrightarrow> dir_ok src (retain_not T es) \<and> length (retain_not T es) \<le> length es"
  by (auto simp: retain_not_def)

lemma parse_exif_ifd_ok:
  assumes "parse_exif_ifd tiff r off = Some (es, interop)"
  shows "dir_ok tiff es \<and> length es + size_of interop \<le> MAX_IFD_ENTRIES
    \<and> (\<forall>ds. interop = Some ds \<longrightarrow> dir_ok tiff ds \<and> length ds \<le> MAX_IFD_ENTRIES)"
proof -
  obtain es0 n where p1: "parse_ifd tiff off r = Some (es0, n)" using assms by (auto simp: parse_exif_ifd_def bind_Some)
  obtain t es1 where p2: "take_pointer es0 TAG_INTEROP_IFD r = (t, es1)" by (cases "take_pointer es0 TAG_INTEROP_IFD r")
  have "interop = Option.bind t (\<lambda>off. Option.bind (parse_ifd tiff off r) (\<lambda>(es, _). Some es))"
    "es = (if t \<noteq> None then retain_not {TAG_INTEROP_IFD} es1 else es1)"
    using assms p1 p2 by (auto simp: parse_exif_ifd_def)
  note p = p1 p2 this
  have "dir_ok tiff es1 \<and> length es1 + size_of t \<le> MAX_IFD_ENTRIES"
    using take_pointer_ok[OF p(2)] parse_ifd_ok[OF p(1)] by fastforce
  then have "dir_ok tiff es \<and> length es + size_of t \<le> MAX_IFD_ENTRIES"
    using retain_not_ok[of es1 tiff "{TAG_INTEROP_IFD}"] p(4) by auto
  moreover have "size_of interop \<le> (size_of t :: nat)" using p(3) by (cases t) auto
  moreover have "\<forall>ds. interop = Some ds \<longrightarrow> dir_ok tiff ds \<and> length ds \<le> MAX_IFD_ENTRIES"
    using p(3) parse_ifd_ok[of tiff _ r] by (fastforce simp: bind_Some)
  ultimately show ?thesis by (meson add_left_mono le_trans)
qed

lemma with_tag_Some: "with_tag t es = Some e \<Longrightarrow> e \<in> set es \<and> en_tag e = t"
  by (auto simp: with_tag_def find_Some_iff in_set_conv_nth)

lemma two_removed:
  assumes "e \<in> set es" "f \<in> set es" "en_tag e = a" "en_tag f = b" "a \<noteq> b"
  shows "length (retain_not {a, b} es) + 2 \<le> length es"
proof -
  have "{e, f} \<subseteq> set (filter (\<lambda>e. en_tag e \<in> {a, b}) es)" "card {e, f} = 2" using assms by (auto simp: card_insert_if)
  then have "2 \<le> length (filter (\<lambda>e. en_tag e \<in> {a, b}) es)"
    by (metis card_length card_mono finite_set le_trans)
  then show ?thesis using sum_length_filter_compl[of "\<lambda>e. en_tag e \<in> {a, b}" es] by (simp add: retain_not_def)
qed

lemma parse_ifd1_ok:
  assumes "parse_ifd1 tiff r off = Some (es, thumb)"
  shows "dir_ok tiff es \<and> length es + 2 * size_of thumb \<le> MAX_IFD_ENTRIES
    \<and> (\<forall>t. thumb = Some t \<longrightarrow> (\<exists>a. a + length t \<le> length tiff \<and> t = take (length t) (drop a tiff)))"
proof -
  obtain es0 n where p: "parse_ifd tiff off r = Some (es0, n)" "es = retain_not {TAG_THUMB_OFFSET, TAG_THUMB_LENGTH} es0"
    "thumb = Option.bind (Option.bind (with_tag TAG_THUMB_OFFSET es0) (\<lambda>e. read_uint e r)) (\<lambda>a.
        Option.bind (Option.bind (with_tag TAG_THUMB_LENGTH es0) (\<lambda>e. read_uint e r)) (\<lambda>n.
        Option.bind (checked_add usize_max a n) (\<lambda>fin. slice_get tiff a fin)))"
    using assms by (auto simp: parse_ifd1_def bind_Some Let_def split: if_splits)
  note ok = parse_ifd_ok[OF p(1)]
  have "length es + 2 * size_of thumb \<le> length es0"
  proof (cases thumb)
    case None
    then show ?thesis using p(2) retain_not_ok[of es0 tiff] ok by simp
  next
    case (Some t)
    then obtain e f where "with_tag TAG_THUMB_OFFSET es0 = Some e" "with_tag TAG_THUMB_LENGTH es0 = Some f"
      using p(3) by (auto simp: bind_Some)
    then show ?thesis using two_removed[of e es0 f] p(2) Some by (auto dest!: with_tag_Some)
  qed
  moreover have "\<exists>a. a + length t \<le> length tiff \<and> t = take (length t) (drop a tiff)" if "thumb = Some t" for t
    using that p(3) by (auto simp: bind_Some slice_get_Some)
  ultimately show ?thesis using ok p(2) retain_not_ok[of es0 tiff] by auto
qed

text \<open>What the parser reads before it follows any pointer, and what it makes of it.\<close>

lemma parse_parts:
  assumes "parse bs = Some x"
  obtains r off ifd0 nxt te es1 tg es2 where
    "order_of (tiff_of bs) = Some r" "rd32 (tiff_of bs) 4 r = Some off" "parse_ifd (tiff_of bs) off r = Some (ifd0, nxt)"
    "take_pointer ifd0 TAG_EXIF_IFD r = (te, es1)" "take_pointer es1 TAG_GPS_IFD r = (tg, es2)"
    "x = \<lparr> ex_order = r, ex_prefix = had_prefix bs,
       ex_ifd0 = (let es = (if te \<noteq> None then retain_not {TAG_EXIF_IFD} es2 else es2)
                  in if tg \<noteq> None then retain_not {TAG_GPS_IFD} es else es),
       ex_exif = map_option fst (Option.bind te (parse_exif_ifd (tiff_of bs) r)),
       ex_gps = Option.bind tg (\<lambda>off. Option.bind (parse_ifd (tiff_of bs) off r) (\<lambda>(es, _). Some es)),
       ex_interop = Option.bind (Option.bind te (parse_exif_ifd (tiff_of bs) r)) snd,
       ex_ifd1 = map_option fst (parse_ifd1 (tiff_of bs) r nxt),
       ex_thumb = Option.bind (parse_ifd1 (tiff_of bs) r nxt) snd, ex_text = TextAscii \<rparr>"
proof -
  obtain r off ifd0 nxt where p: "order_of (tiff_of bs) = Some r" "rd32 (tiff_of bs) 4 r = Some off"
    "parse_ifd (tiff_of bs) off r = Some (ifd0, nxt)" "length (tiff_of bs) \<ge> TIFF_HEADER_SIZE" "rd16 (tiff_of bs) 2 r = Some 42"
    using assms by (auto simp: parse_def Let_def bind_Some split: if_splits)
  obtain te es1 where te: "take_pointer ifd0 TAG_EXIF_IFD r = (te, es1)" by (cases "take_pointer ifd0 TAG_EXIF_IFD r")
  obtain tg es2 where tg: "take_pointer es1 TAG_GPS_IFD r = (tg, es2)" by (cases "take_pointer es1 TAG_GPS_IFD r")
  show ?thesis
    by (rule that[OF p(1,2,3) te tg]) (use assms p te tg in \<open>simp add: parse_def Let_def split: if_splits\<close>)
qed

lemma parse_tree_ok:
  assumes "parse bs = Some x"
  shows "tree_ok (tiff_of bs) x
    \<and> (\<forall>t. ex_thumb x = Some t \<longrightarrow> (\<exists>a. a + length t \<le> length (tiff_of bs) \<and> t = take (length t) (drop a (tiff_of bs))))"
  using assms
proof (rule parse_parts)
  fix r off ifd0 nxt te es1 tg es2
  let ?t = "tiff_of bs"
  assume p: "parse_ifd ?t off r = Some (ifd0, nxt)" "take_pointer ifd0 TAG_EXIF_IFD r = (te, es1)"
    "take_pointer es1 TAG_GPS_IFD r = (tg, es2)"
    "x = \<lparr> ex_order = r, ex_prefix = had_prefix bs,
       ex_ifd0 = (let es = (if te \<noteq> None then retain_not {TAG_EXIF_IFD} es2 else es2)
                  in if tg \<noteq> None then retain_not {TAG_GPS_IFD} es else es),
       ex_exif = map_option fst (Option.bind te (parse_exif_ifd ?t r)),
       ex_gps = Option.bind tg (\<lambda>off. Option.bind (parse_ifd ?t off r) (\<lambda>(es, _). Some es)),
       ex_interop = Option.bind (Option.bind te (parse_exif_ifd ?t r)) snd,
       ex_ifd1 = map_option fst (parse_ifd1 ?t r nxt),
       ex_thumb = Option.bind (parse_ifd1 ?t r nxt) snd, ex_text = TextAscii \<rparr>"
  have "dir_ok ?t es1 \<and> length es1 + size_of te \<le> MAX_IFD_ENTRIES"
    using take_pointer_ok[OF p(2)] parse_ifd_ok[OF p(1)] by fastforce
  then have "dir_ok ?t es2 \<and> length es2 + size_of te + size_of tg \<le> MAX_IFD_ENTRIES"
    using take_pointer_ok[OF p(3)] by fastforce
  moreover define es3 where "es3 = (if te \<noteq> None then retain_not {TAG_EXIF_IFD} es2 else es2)"
  ultimately have "dir_ok ?t es3 \<and> length es3 + size_of te + size_of tg \<le> MAX_IFD_ENTRIES"
    using retain_not_ok[of es2 ?t "{TAG_EXIF_IFD}"] by auto
  then have "dir_ok ?t (ex_ifd0 x) \<and> length (ex_ifd0 x) + size_of te + size_of tg \<le> MAX_IFD_ENTRIES"
    using retain_not_ok[of es3 ?t "{TAG_GPS_IFD}"] p(4) by (auto simp: es3_def Let_def)
  moreover have "size_of (ex_exif x) \<le> (size_of te :: nat)" "size_of (ex_gps x) \<le> (size_of tg :: nat)"
    using p(4) by (auto simp: bind_Some)
  ultimately have "dir_ok ?t (ex_ifd0 x) \<and> length (ex_ifd0 x) + size_of (ex_exif x) + size_of (ex_gps x) \<le> MAX_IFD_ENTRIES"
    by linarith
  moreover have "dir_ok ?t es \<and> length es \<le> MAX_IFD_ENTRIES" if "ex_gps x = Some es" for es
    using that p(4) parse_ifd_ok[of ?t _ r] by (fastforce simp: bind_Some)
  moreover have "dir_ok ?t es \<and> length es + size_of (ex_interop x) \<le> MAX_IFD_ENTRIES
      \<and> (\<forall>ds. ex_interop x = Some ds \<longrightarrow> dir_ok ?t ds \<and> length ds \<le> MAX_IFD_ENTRIES)" if e: "ex_exif x = Some es" for es
  proof -
    obtain off ds where "parse_exif_ifd ?t r off = Some (es, ds)" "ex_interop x = ds"
      using e p(4) by (auto simp: bind_Some)
    then show ?thesis using parse_exif_ifd_ok by blast
  qed
  moreover have "ex_exif x \<noteq> None" if "ex_interop x \<noteq> None" using that p(4) by (auto simp: bind_Some)
  moreover have "dir_ok ?t es \<and> length es + 2 * size_of (ex_thumb x) \<le> MAX_IFD_ENTRIES" if "ex_ifd1 x = Some es" for es
    using that p(4) parse_ifd1_ok[of ?t r nxt] by auto
  moreover have "ex_ifd1 x \<noteq> None \<and> (\<forall>t. ex_thumb x = Some t \<longrightarrow>
      (\<exists>a. a + length t \<le> length ?t \<and> t = take (length t) (drop a ?t)))" if "ex_thumb x \<noteq> None"
    using that p(4) parse_ifd1_ok[of ?t r nxt] by (auto simp: bind_Some)
  ultimately show ?thesis unfolding tree_ok_def by blast
qed

text \<open>
  C4: Whatever the blob, the parser (\<open>Exif::parse\<close>, exif.rs) reads only inside it: every value it hands
  out is the slice at its offset, as long as its type and count say, the thumbnail is a slice, no
  directory has more than a thousand entries, counting the pointers that were followed, and an
  interoperability directory or a thumbnail comes with the directory that points to it.
\<close>

theorem exif_parse_sound:
  assumes "parse bs = Some x"
  shows "tree_ok (tiff_of bs) x
    \<and> (\<forall>t. ex_thumb x = Some t \<longrightarrow> (\<exists>a. a + length t \<le> length (tiff_of bs) \<and> t = take (length t) (drop a (tiff_of bs))))"
  by (rule parse_tree_ok[OF assms])

end
