(* ===== verification/Exif_Roundtrip.thy ===== *)
theory Exif_Roundtrip
  imports Exif_Write Exif_Sound "HOL-Library.Multiset"
begin

text \<open>
  The EXIF writer against the EXIF parser: the length that is announced is the length written, and the
  bytes written are parsed back to the same tree.
\<close>

subsection \<open>The area behind a table\<close>

text \<open>A value of more than four bytes that is placed once: each owned one, and each borrowed place.\<close>

definition outside :: "exif_entry \<Rightarrow> bool" where
  "outside e \<longleftrightarrow> length (en_bytes e) > 4"

definition owned_sizes :: "exif_entry list \<Rightarrow> nat" where
  "owned_sizes es = (\<Sum>e\<leftarrow>filter (\<lambda>e. outside e \<and> value_key (en_value e) = None) es. align2 (length (en_bytes e)))"

definition places :: "exif_entry list \<Rightarrow> (nat \<times> nat) set" where
  "places es = {k. \<exists>e\<in>set es. outside e \<and> value_key (en_value e) = Some k}"

lemma places_simps [simp]:
  "places [] = {}"
  "places (e # es) = (if outside e then set_option (value_key (en_value e)) else {}) \<union> places es"
  by (auto simp: places_def)

lemma places_finite [simp]: "finite (places es)"
  by (induction es) auto

lemma value_key_length: "value_key v = Some k \<Longrightarrow> snd k = length (cow_bytes v)"
  by (cases v) auto

lemma ext_size_from_sum:
  "ext_size_from placed es = owned_sizes es + (\<Sum>k\<in>places es - {k. Some k \<in> set placed}. align2 (snd k))"
proof (induction es arbitrary: placed)
  case (Cons e es)
  show ?case
  proof (cases "outside e")
    case False
    then show ?thesis using Cons.IH by (simp add: owned_sizes_def outside_def)
  next
    case True
    show ?thesis
    proof (cases "value_key (en_value e)")
      case None
      have "{k. Some k \<in> set (placed @ [None])} = {k. Some k \<in> set placed}" by auto
      then show ?thesis using True None Cons.IH[of "placed @ [None]"] by (simp add: owned_sizes_def outside_def)
    next
      case (Some k)
      let ?P = "{k. Some k \<in> set placed}"
      have new: "{k'. Some k' \<in> set (placed @ [Some k])} = insert k ?P" by auto
      have k: "align2 (length (en_bytes e)) = align2 (snd k)" using value_key_length[OF Some] by simp
      show ?thesis
      proof (cases "Some k \<in> set placed")
        case True
        then have "places (e # es) - ?P = places es - ?P" using Some by auto
        then show ?thesis using True \<open>outside e\<close> Some Cons.IH[of placed] by (simp add: owned_sizes_def outside_def)
      next
        case False
        then have "places (e # es) - ?P = insert k (places es - insert k ?P)" using Some \<open>outside e\<close> by auto
        then show ?thesis
          using False \<open>outside e\<close> Some Cons.IH[of "placed @ [Some k]"] k unfolding new
          by (simp add: owned_sizes_def outside_def)
      qed
    qed
  qed
qed (simp add: owned_sizes_def)

text \<open>So the order of the entries does not matter.\<close>

lemma ext_size_mset: "mset es = mset fs \<Longrightarrow> ext_size es = ext_size fs"
proof -
  assume m: "mset es = mset fs"
  then have "owned_sizes es = owned_sizes fs"
    by (simp add: owned_sizes_def flip: sum_mset_sum_list)
  moreover have "places es = places fs" using mset_eq_setD[OF m] by (simp add: places_def)
  ultimately show ?thesis by (simp add: ext_size_def ext_size_from_sum)
qed

fun reals :: "item list \<Rightarrow> exif_entry list" where
  "reals [] = []"
| "reals (Real e # its) = e # reals its"
| "reals (Ptr t v # its) = reals its"

lemma find_placed_None: "find_placed k placed = None \<longleftrightarrow> k = None \<or> k \<notin> set (map fst placed)"
  by (induction k placed rule: find_placed.induct) auto

text \<open>What an entry adds to the area and where it lies there.\<close>

definition placing :: "exif_entry \<Rightarrow> byte list \<Rightarrow> ((nat \<times> nat) option \<times> nat) list
    \<Rightarrow> nat \<times> byte list \<times> ((nat \<times> nat) option \<times> nat) list" where
  "placing e ext placed = (case find_placed (value_key (en_value e)) placed of
     Some off \<Rightarrow> (off, ext, placed)
   | None \<Rightarrow> (length ext, (let x = ext @ en_bytes e in if length x mod 2 = 1 then x @ [0] else x),
       placed @ [(value_key (en_value e), length ext)]))"

definition entry_head :: "byte_order \<Rightarrow> exif_entry \<Rightarrow> byte list" where
  "entry_head r e = uint_bytes r 2 (en_tag e) @ uint_bytes r 2 (en_kind e) @ uint_bytes r 4 (en_count e)"

lemma write_items_inside: "\<not> outside e \<Longrightarrow> write_items r base (Real e # its) ext placed =
    (case write_items r base its ext placed of (table, ext) \<Rightarrow>
      (entry_head r e @ (en_bytes e @ replicate (4 - length (en_bytes e)) 0) @ table, ext))"
  by (simp add: outside_def entry_head_def Let_def split: prod.split)

lemma write_items_outside: "outside e \<Longrightarrow> placing e ext placed = (off, ext1, placed1) \<Longrightarrow>
    write_items r base (Real e # its) ext placed =
      (case write_items r base its ext1 placed1 of (table, ext) \<Rightarrow> (entry_head r e @ uint_bytes r 4 (base + off) @ table, ext))"
  by (simp add: outside_def entry_head_def placing_def Let_def split: prod.split option.splits if_splits)

lemma placing_length:
  assumes "placing e ext placed = (off, ext1, placed1)" "even (length ext)" "outside e"
  shows "even (length ext1) \<and> length ext1 + ext_size_from (map fst placed1) es = length ext + ext_size_from (map fst placed) (e # es)"
proof (cases "find_placed (value_key (en_value e)) placed")
  case (Some off)
  moreover have "value_key (en_value e) \<noteq> None \<and> value_key (en_value e) \<in> set (map fst placed)"
    using Some find_placed_None[of "value_key (en_value e)" placed] by auto
  ultimately show ?thesis using assms by (auto simp: placing_def outside_def)
next
  case None
  have new: "\<not> (value_key (en_value e) \<noteq> None \<and> value_key (en_value e) \<in> set (map fst placed))"
    using None find_placed_None[of "value_key (en_value e)" placed] by auto
  have "length ext1 = length ext + align2 (length (en_bytes e))" "placed1 = placed @ [(value_key (en_value e), length ext)]"
    using assms(1,2) None by (auto simp: placing_def Let_def align2_def mod2_eq_if)
  moreover have "even (align2 n)" for n by (simp add: align2_def)
  ultimately show ?thesis using assms(2,3) new by (auto simp: outside_def Let_def)
qed

lemma write_items_length:
  assumes "write_items r base its ext placed = (table, ext')" "even (length ext)"
  shows "length table = 12 * length its \<and> length ext' = length ext + ext_size_from (map fst placed) (reals its)"
  using assms
proof (induction its arbitrary: ext placed table)
  case (Cons it its)
  show ?case
  proof (cases it)
    case (Ptr t v)
    then show ?thesis using Cons by (auto split: prod.splits)
  next
    case (Real e)
    show ?thesis
    proof (cases "outside e")
      case False
      then show ?thesis
        using Cons Real by (auto simp: write_items_inside entry_head_def outside_def simp del: write_items.simps split: prod.splits)
    next
      case True
      obtain off ext1 placed1 where p: "placing e ext placed = (off, ext1, placed1)" by (cases "placing e ext placed")
      obtain t1 where "write_items r base its ext1 placed1 = (t1, ext')" "length table = 12 + length t1"
        using Cons.prems(1) Real write_items_outside[OF True p]
        by (auto simp: entry_head_def simp del: write_items.simps split: prod.splits)
      then show ?thesis using Cons.IH placing_length[OF p Cons.prems(2) True, of "reals its"] Real by simp
    qed
  qed
qed simp

subsection \<open>The length announced is the length written\<close>

lemma reals_mset: "mset (reals its) = mset (concat (map (\<lambda>it. case it of Real e \<Rightarrow> [e] | Ptr t v \<Rightarrow> []) its))"
  by (induction its rule: reals.induct) auto

lemma reals_append [simp]: "reals (a @ b) = reals a @ reals b"
  by (induction a rule: reals.induct) auto

lemma reals_map_Real [simp]: "reals (map Real es) = es"
  by (induction es) auto

lemma reals_map_Ptr [simp]: "reals (map (\<lambda>(t, v). Ptr t v) ps) = []"
  by (induction ps) auto

lemma reals_perm: "mset a = mset b \<Longrightarrow> mset (reals a) = mset (reals b)"
  by (simp add: reals_mset mset_concat flip: sum_mset_sum_list)

lemma table_items_length [simp]: "length (table_items es ptrs) = length es + length ptrs"
  by (simp add: table_items_def)

lemma table_items_reals: "mset (reals (table_items es ptrs)) = mset es"
proof -
  have "mset (reals (table_items es ptrs)) = mset (reals (map Real es @ map (\<lambda>(t, v). Ptr t v) ptrs))"
    by (rule reals_perm) (simp add: table_items_def)
  then show ?thesis by simp
qed

lemma write_ifd_length: "length (write_ifd r es ptrs base nxt) = block_size es (length ptrs)"
proof -
  obtain t x where w: "write_items r base (table_items es ptrs) [] [] = (t, x)"
    by (cases "write_items r base (table_items es ptrs) [] []")
  have "ext_size_from [] (reals (table_items es ptrs)) = ext_size es"
    using ext_size_mset[OF table_items_reals] by (simp add: ext_size_def)
  then show ?thesis using write_items_length[OF w] w by (simp add: write_ifd_def block_size_def)
qed

lemma serialized_len_eq: "length (to_bytes x) = serialized_len x"
  by (simp add: to_bytes_def serialized_len_def write_ifd_length Let_def EXIF_PREFIX_def numeral_2_eq_2
      split: option.split byte_order.split)

text \<open>
  C19: The length an EXIF tree announces before it is written (\<open>serialized_len\<close>, exif.rs, which caps the
  growth of a rewrite and sizes the buffer) is exactly the length \<open>to_bytes\<close> writes, for any tree: the
  two computations agree although one visits the entries in file order and the other in tag order, with
  shared values placed once.
\<close>

theorem serialized_len_exact: "length (to_bytes x) = serialized_len x"
  by (rule serialized_len_eq)

subsection \<open>Reading back what was written\<close>

definition plain :: "exif_entry \<Rightarrow> nat \<times> nat \<times> nat \<times> byte list" where
  "plain e = (en_tag e, en_kind e, en_count e, en_bytes e)"

lemma drop_part:
  assumes "drop i t = a @ z"
  shows "drop (i + length a) t = z"
proof -
  have "drop (length a) (drop i t) = z" using assms by simp
  then show ?thesis by (simp add: add.commute)
qed

lemma drop_bound:
  assumes "drop i t = a @ z" "a \<noteq> []"
  shows "i + length a \<le> length t"
proof -
  have "length t - i = length a + length z" using arg_cong[OF assms(1), of length] by simp
  moreover have "0 < length a" using assms(2) by simp
  ultimately show ?thesis by linarith
qed

lemma uint_bytes_nonempty [simp]: "0 < k \<Longrightarrow> uint_bytes r k n \<noteq> []"
  using uint_bytes_length[of r k n] by (metis length_0_conv less_irrefl)

lemma rd16_at:
  assumes "drop i t = uint_bytes r 2 n @ z" "n < 2 ^ 16" "length t \<le> u64_max"
  shows "rd16 t i r = Some n"
  using drop_bound[OF assms(1)] assms by (simp add: rd16_Some)

lemma rd32_at:
  assumes "drop i t = uint_bytes r 4 n @ z" "n < 2 ^ 32" "length t \<le> u64_max"
  shows "rd32 t i r = Some n"
  using drop_bound[OF assms(1)] assms by (simp add: rd32_Some)

lemma entry_head_length [simp]: "length (entry_head r e) = 8"
  by (simp add: entry_head_def)

text \<open>The first eight bytes of an entry, and what follows from them.\<close>

lemma resolve_head:
  assumes "drop i t = entry_head r e @ slot @ z" "length slot = 4" "entry_ok src e" "length t \<le> u64_max"
  shows "resolve_entry t i r =
    (if \<not> outside e then Some \<lparr> en_tag = en_tag e, en_kind = en_kind e, en_count = en_count e,
        en_value = Borrowed (i + 8) (take (length (en_bytes e)) slot), en_offset = i + 8 \<rparr>
     else do {
       voff \<leftarrow> rd32 t (i + 8) r;
       fin \<leftarrow> checked_add u64_max voff (length (en_bytes e));
       v \<leftarrow> slice_get t voff fin;
       Some \<lparr> en_tag = en_tag e, en_kind = en_kind e, en_count = en_count e, en_value = Borrowed voff v, en_offset = voff \<rparr> })"
proof -
  have d: "drop i t = uint_bytes r 2 (en_tag e) @ uint_bytes r 2 (en_kind e) @ uint_bytes r 4 (en_count e) @ slot @ z"
    using assms(1) by (simp add: entry_head_def)
  have d2: "drop (i + 2) t = uint_bytes r 2 (en_kind e) @ uint_bytes r 4 (en_count e) @ slot @ z"
    using drop_part[OF d] by simp
  have d4: "drop (i + 4) t = uint_bytes r 4 (en_count e) @ slot @ z"
    using drop_part[OF d2] by (simp add: add.assoc del: add_2_eq_Suc')
  have d8: "drop (i + 8) t = slot @ z" using drop_part[OF d4] by (simp add: add.assoc)
  have ok: "en_tag e < 2 ^ 16" "en_kind e < 2 ^ 16" "en_count e < 2 ^ 32" using assms(3) by (auto simp: entry_ok_def)
  have rd: "rd16 t i r = Some (en_tag e)" "rd16 t (i + 2) r = Some (en_kind e)" "rd32 t (i + 4) r = Some (en_count e)"
    using rd16_at[OF d ok(1) assms(4)] rd16_at[OF d2 ok(2) assms(4)] rd32_at[OF d4 ok(3) assms(4)] by blast+
  obtain n where n: "type_size (en_kind e) = Some n" "length (en_bytes e) = en_count e * n"
    using assms(3) by (auto simp: entry_ok_def split: option.splits)
  have "n \<le> 8" using n(1) by (auto simp: type_size_def split: if_splits)
  then have "en_count e * n \<le> 2 ^ 32 * 8" using ok(3) by (intro mult_le_mono) simp_all
  then have "checked_mul u64_max (en_count e) n = Some (length (en_bytes e))"
    using n(2) unfolding checked_mul_Some by (simp add: u64_max_def)
  moreover have "slice_get t (i + 8) (i + 8 + length (en_bytes e)) = Some (take (length (en_bytes e)) slot)" if "\<not> outside e"
  proof (rule slice_get_at)
    have "drop (i + 8) t = take (length (en_bytes e)) slot @ (drop (length (en_bytes e)) slot @ z)"
      using d8 by (simp add: add.assoc flip: append_assoc)
    then show "drop (i + 8) t = take (length (en_bytes e)) slot @ (drop (length (en_bytes e)) slot @ z)" .
    show "i + 8 + length (en_bytes e) = i + 8 + length (take (length (en_bytes e)) slot)"
      using that assms(2) by (simp add: outside_def)
    show "i + 8 \<le> length t" using drop_bound[OF assms(1)] by (simp add: entry_head_def)
  qed
  ultimately show ?thesis using rd n(1) by (auto simp: resolve_entry_def outside_def bind_assoc split: bind_split)
qed

lemma resolve_inside:
  assumes "drop i t = entry_head r e @ (en_bytes e @ replicate (4 - length (en_bytes e)) 0) @ z" "\<not> outside e"
    "entry_ok src e" "length t \<le> u64_max"
  shows "\<exists>y. resolve_entry t i r = Some y \<and> plain y = plain e"
  using resolve_head[OF assms(1) _ assms(3,4)] assms(2) by (simp add: outside_def plain_def)

lemma resolve_outside:
  assumes "drop i t = entry_head r e @ uint_bytes r 4 p @ z" "outside e" "entry_ok src e" "length t \<le> u64_max"
    "drop p t = en_bytes e @ z'" "p < 2 ^ 32"
  shows "\<exists>y. resolve_entry t i r = Some y \<and> plain y = plain e"
proof -
  have "drop (i + 8) t = uint_bytes r 4 p @ z" using drop_part[OF assms(1)] by simp
  then have "rd32 t (i + 8) r = Some p" using rd32_at assms(4,6) by blast
  moreover have "p + length (en_bytes e) \<le> length t" using drop_bound[OF assms(5)] assms(2) by (fastforce simp: outside_def)
  moreover from this have "slice_get t p (p + length (en_bytes e)) = Some (en_bytes e)"
    using slice_get_at[OF assms(5)] by simp
  moreover have "checked_add u64_max p (length (en_bytes e)) = Some (p + length (en_bytes e))"
    using calculation(2) assms(4) by simp
  ultimately show ?thesis using resolve_head[OF assms(1) _ assms(3,4)] assms(2) by (simp add: plain_def checked_add_def)
qed

text \<open>A pointer is written as an entry of one \<open>LONG\<close>.\<close>

definition ptr_entry :: "byte_order \<Rightarrow> nat \<Rightarrow> nat \<Rightarrow> exif_entry" where
  "ptr_entry r tag v = \<lparr> en_tag = tag, en_kind = TIFF_LONG, en_count = 1, en_value = Owned (uint_bytes r 4 v), en_offset = 0 \<rparr>"

fun item_plain :: "byte_order \<Rightarrow> item \<Rightarrow> nat \<times> nat \<times> nat \<times> byte list" where
  "item_plain r (Real e) = plain e"
| "item_plain r (Ptr tag v) = plain (ptr_entry r tag v)"

fun item_ok :: "byte list \<Rightarrow> item \<Rightarrow> bool" where
  "item_ok src (Real e) \<longleftrightarrow> entry_ok src e"
| "item_ok src (Ptr tag v) \<longleftrightarrow> tag < 2 ^ 16 \<and> v < 2 ^ 32"

text \<open>The places known so far hold the bytes of the source they stand for.\<close>

definition placed_ok :: "byte list \<Rightarrow> byte list \<Rightarrow> ((nat \<times> nat) option \<times> nat) list \<Rightarrow> bool" where
  "placed_ok src ext placed \<longleftrightarrow> (\<forall>(k, off)\<in>set placed. \<forall>p n. k = Some (p, n) \<longrightarrow> off + n \<le> length ext \<and> take n (drop off ext) = take n (drop p src))"

lemma placed_ok_append: "placed_ok src ext placed \<Longrightarrow> placed_ok src (ext @ z) placed"
  by (fastforce simp: placed_ok_def)

lemma find_placed_in: "find_placed k placed = Some off \<Longrightarrow> (k, off) \<in> set placed \<and> k \<noteq> None"
  by (induction k placed rule: find_placed.induct) (auto split: if_splits)

lemma placing_ok:
  assumes "placing e ext placed = (off, ext1, placed1)" "placed_ok src ext placed" "entry_ok src e" "outside e"
  shows "placed_ok src ext1 placed1 \<and> (\<exists>z. ext1 = ext @ z) \<and> off + length (en_bytes e) \<le> length ext1
    \<and> take (length (en_bytes e)) (drop off ext1) = en_bytes e"
proof (cases "find_placed (value_key (en_value e)) placed")
  case (Some off')
  then have eq: "off' = off" "ext1 = ext" "placed1 = placed" using assms(1) by (auto simp: placing_def)
  obtain p bs where v: "en_value e = Borrowed p bs" using find_placed_in[OF Some] by (cases "en_value e") auto
  then show ?thesis using find_placed_in[OF Some] assms(2,3) eq by (fastforce simp: placed_ok_def entry_ok_def)
next
  case None
  then obtain z where eq: "off = length ext" "ext1 = ext @ en_bytes e @ z" "placed1 = placed @ [(value_key (en_value e), length ext)]"
    using assms(1) by (auto simp: placing_def Let_def split: if_splits)
  have "placed_ok src ext1 placed1"
    using placed_ok_append[OF assms(2), of "en_bytes e @ z"] assms(3) eq
    by (cases "en_value e") (auto simp: placed_ok_def entry_ok_def)
  then show ?thesis using eq by simp
qed

lemma write_items_grows: "write_items r base its ext placed = (table, ext') \<Longrightarrow> \<exists>z. ext' = ext @ z"
proof (induction its arbitrary: ext placed table)
  case (Cons it its)
  show ?case
  proof (cases it)
    case (Ptr t v)
    then show ?thesis using Cons by (auto split: prod.splits)
  next
    case (Real e)
    show ?thesis
    proof (cases "outside e")
      case False
      then show ?thesis using Cons Real by (auto simp: write_items_inside simp del: write_items.simps split: prod.splits)
    next
      case True
      obtain off ext1 placed1 where p: "placing e ext placed = (off, ext1, placed1)" by (cases "placing e ext placed")
      then have "\<exists>z. ext1 = ext @ z" by (auto simp: placing_def Let_def split: option.splits if_splits)
      moreover obtain t1 where "write_items r base its ext1 placed1 = (t1, ext')"
        using Cons.prems Real write_items_outside[OF True p] by (auto simp del: write_items.simps split: prod.splits)
      ultimately show ?thesis using Cons.IH by (metis append.assoc)
    qed
  qed
qed simp

text \<open>A table and its area, wherever they lie: each item resolves to what it stands for.\<close>

lemma written_items_parse:
  assumes "write_items r base its ext placed = (table, ext')" "\<forall>it\<in>set its. item_ok src it" "placed_ok src ext placed"
    "drop (s + 12 * i) t = table @ z" "drop base t = ext' @ z'" "base \<le> length t" "length t \<le> u32_max"
  shows "map plain (parse_entries t s r i (length its)) = map (item_plain r) its"
  using assms(1-4)
proof (induction its arbitrary: ext placed table i)
  case (Cons it its)
  have t: "length t \<le> u64_max" using assms(7) by (simp add: u32_le_u64)
  have step: "map plain (parse_entries t s r i (length (it # its))) = map (item_plain r) (it # its)"
    if "drop (s + 12 * i) t = a @ tb @ z" "length a = 12" "\<exists>y. resolve_entry t (s + 12 * i) r = Some y \<and> plain y = item_plain r it"
      "write_items r base its e1 p1 = (tb, ext')" "placed_ok src e1 p1" for a tb e1 p1
  proof -
    have "drop (s + 12 * Suc i) t = tb @ z" using drop_part[OF that(1)] that(2) by (simp add: add.commute add.left_commute)
    then have "map plain (parse_entries t s r (Suc i) (length its)) = map (item_plain r) its"
      using Cons.IH[OF that(4)] Cons.prems(2) that(5) by simp
    moreover have "s + 12 * i + 12 \<le> length t" using drop_bound[OF that(1)] that(2) by (metis list.size(3) zero_neq_numeral)
    ultimately show ?thesis using that(3) t by (auto simp: parse_entries_step simp del: parse_entries.simps(2))
  qed
  show ?case
  proof (cases it)
    case (Ptr tag v)
    obtain tb where tb: "write_items r base its ext placed = (tb, ext')"
      "table = entry_head r (ptr_entry r tag v) @ (uint_bytes r 4 v @ tb)"
      using Cons.prems(1) Ptr by (auto simp: entry_head_def ptr_entry_def split: prod.splits)
    have "entry_ok src (ptr_entry r tag v)" "\<not> outside (ptr_entry r tag v)"
      using Cons.prems(2) Ptr by (auto simp: entry_ok_def ptr_entry_def type_size_def outside_def)
    then have "\<exists>y. resolve_entry t (s + 12 * i) r = Some y \<and> plain y = plain (ptr_entry r tag v)"
      using resolve_inside[of "s + 12 * i" t r "ptr_entry r tag v" "tb @ z" src] Cons.prems(4) tb(2) t
      by (simp add: ptr_entry_def)
    then show ?thesis
      using step[of "entry_head r (ptr_entry r tag v) @ uint_bytes r 4 v" tb, OF _ _ _ tb(1) Cons.prems(3)] Cons.prems(4) tb(2) Ptr
      by simp
  next
    case (Real e)
    then have e: "entry_ok src e" using Cons.prems(2) by simp
    show ?thesis
    proof (cases "outside e")
      case False
      let ?slot = "en_bytes e @ replicate (4 - length (en_bytes e)) 0"
      obtain tb where tb: "write_items r base its ext placed = (tb, ext')" "table = entry_head r e @ ?slot @ tb"
        using Cons.prems(1) Real write_items_inside[OF False] by (auto simp del: write_items.simps split: prod.splits)
      have "\<exists>y. resolve_entry t (s + 12 * i) r = Some y \<and> plain y = plain e"
        by (rule resolve_inside[OF _ False e t]) (use Cons.prems(4) tb(2) in simp)
      then show ?thesis
        using step[of "entry_head r e @ ?slot" tb, OF _ _ _ tb(1) Cons.prems(3)] Cons.prems(4) tb(2) Real False
        by (simp add: outside_def)
    next
      case True
      obtain off ext1 placed1 where p: "placing e ext placed = (off, ext1, placed1)" by (cases "placing e ext placed")
      note ok = placing_ok[OF p Cons.prems(3) e True]
      obtain tb where tb: "write_items r base its ext1 placed1 = (tb, ext')" "table = entry_head r e @ uint_bytes r 4 (base + off) @ tb"
        using Cons.prems(1) Real write_items_outside[OF True p] by (auto simp del: write_items.simps split: prod.splits)
      obtain z1 where z1: "ext' = ext1 @ z1" using write_items_grows[OF tb(1)] by blast
      have "drop off (drop base t) = drop off ext1 @ z1 @ z'" unfolding assms(5) z1 using ok by simp
      then have "drop (base + off) t = drop off ext1 @ z1 @ z'" by (simp add: add.commute)
      moreover have "drop off ext1 = en_bytes e @ drop (length (en_bytes e)) (drop off ext1)"
        using ok by (metis append_take_drop_id)
      ultimately have d: "drop (base + off) t = en_bytes e @ (drop (length (en_bytes e)) (drop off ext1) @ z1 @ z')"
        by (metis append.assoc)
      have "base + off < 2 ^ 32"
        using drop_bound[OF d] True assms(7) by (fastforce simp: outside_def u32_max_def)
      have "\<exists>y. resolve_entry t (s + 12 * i) r = Some y \<and> plain y = plain e"
        by (rule resolve_outside[OF _ True e t d \<open>base + off < 2 ^ 32\<close>]) (use Cons.prems(4) tb(2) in simp)
      then show ?thesis
        using step[of "entry_head r e @ uint_bytes r 4 (base + off)" tb, OF _ _ _ tb(1)] ok Cons.prems(4) tb(2) Real by simp
    qed
  qed
qed simp

subsection \<open>A directory that was written\<close>

lemma written_ifd_parse:
  assumes "drop off t = write_ifd r es ptrs (table_end off (length es + length ptrs)) nxt @ z"
    "dir_ok src es" "\<forall>(tag, v)\<in>set ptrs. tag < 2 ^ 16 \<and> v < 2 ^ 32" "length es + length ptrs \<le> MAX_IFD_ENTRIES"
    "nxt < 2 ^ 32" "length t \<le> u32_max"
  shows "\<exists>xs. parse_ifd t off r = Some (xs, nxt) \<and> map plain xs = map (item_plain r) (table_items es ptrs)"
proof -
  let ?its = "table_items es ptrs" and ?n = "length es + length ptrs" and ?base = "table_end off (length es + length ptrs)"
  have t: "length t \<le> u64_max" using assms(6) by (simp add: u32_le_u64)
  obtain table ext where w: "write_items r ?base ?its [] [] = (table, ext)" by (cases "write_items r ?base ?its [] []")
  have len: "length table = 12 * ?n" using write_items_length[OF w] by simp
  have d0: "drop off t = uint_bytes r 2 ?n @ table @ uint_bytes r 4 nxt @ ext @ z"
    using assms(1) w by (simp add: write_ifd_def)
  have d2: "drop (off + 2) t = table @ uint_bytes r 4 nxt @ ext @ z" using drop_part[OF d0] by simp
  have dn: "drop (off + 2 + 12 * ?n) t = uint_bytes r 4 nxt @ ext @ z" using drop_part[OF d2] len by simp
  have dx: "drop ?base t = ext @ z" using drop_part[OF dn] by (simp add: table_end_def)
  have bound: "?base \<le> length t" using drop_bound[OF dn] by (simp add: table_end_def)
  have "\<forall>it\<in>set ?its. item_ok src it" using assms(2,3) by (auto simp: table_items_def)
  moreover have "placed_ok src [] []" by (simp add: placed_ok_def)
  ultimately have its: "map plain (parse_entries t (off + 2) r 0 ?n) = map (item_plain r) ?its"
    using written_items_parse[OF w _ _ _ dx bound assms(6)] d2 by simp
  have "rd16 t off r = Some ?n" using rd16_at[OF d0 _ t] assms(4) by simp
  moreover have "rd32 t (off + 2 + 12 * ?n) r = Some nxt" using rd32_at[OF dn assms(5) t] .
  moreover have "off + 2 + 12 * ?n \<le> u64_max" using bound t by (simp add: table_end_def)
  ultimately show ?thesis
    using its assms(4) by (simp add: parse_ifd_def checked_add_def mult.commute)
qed

lemma plain_tag: "map plain xs = map (item_plain r) its \<Longrightarrow> map en_tag xs = map item_tag its"
proof (induction xs arbitrary: its)
  case (Cons x xs)
  then obtain it its' where "its = it # its'" "plain x = item_plain r it" "map plain xs = map (item_plain r) its'" by auto
  moreover have "en_tag x = item_tag it" using calculation(2) by (cases it) (auto simp: plain_def ptr_entry_def)
  ultimately show ?case using Cons.IH by simp
qed simp

lemma plain_fst: "fst (plain e) = en_tag e"
  by (simp add: plain_def)

lemma item_plain_fst: "fst (item_plain r it) = item_tag it"
  by (cases it) (simp_all add: plain_def ptr_entry_def)

lemma plain_filter:
  assumes "map plain xs = map (item_plain r) its"
  shows "map plain (retain_not T xs) = map (item_plain r) (filter (\<lambda>it. item_tag it \<notin> T) its)"
proof -
  have "map plain (retain_not T xs) = filter (\<lambda>q. fst q \<notin> T) (map plain xs)"
    by (simp add: retain_not_def filter_map comp_def plain_fst)
  also have "\<dots> = map (item_plain r) (filter (\<lambda>it. item_tag it \<notin> T) its)"
    by (simp add: assms filter_map comp_def item_plain_fst)
  finally show ?thesis .
qed

text \<open>Without the pointers the table is the directory in the order of its tags.\<close>

lemma insort_Real: "insort_key item_tag (Real e) (map Real es) = map Real (insort_key en_tag e es)"
  by (induction es) auto

lemma sort_Real: "sort_key item_tag (map Real es) = map Real (sort_key en_tag es)"
  by (induction es) (simp_all add: insort_Real)

lemma table_items_reals_only:
  assumes "\<forall>e\<in>set es. en_tag e \<notin> T" "\<forall>(tag, v)\<in>set ptrs. tag \<in> T"
  shows "filter (\<lambda>it. item_tag it \<notin> T) (table_items es ptrs) = map Real (sort_key en_tag es)"
proof -
  have "filter (\<lambda>it. item_tag it \<notin> T) (map Real es) = map Real es" using assms(1) by (simp add: filter_id_conv)
  moreover have "filter (\<lambda>it. item_tag it \<notin> T) (map (\<lambda>(t, v). Ptr t v) ptrs) = []"
    using assms(2) by (auto simp: filter_empty_conv)
  ultimately show ?thesis by (simp add: table_items_def filter_sort sort_Real)
qed

lemma table_without_pointers:
  assumes "map plain xs = map (item_plain r) (table_items es ptrs)" "\<forall>e\<in>set es. en_tag e \<notin> T" "\<forall>(tag, v)\<in>set ptrs. tag \<in> T"
  shows "map plain (retain_not T xs) = map plain (sort_key en_tag es)"
  using plain_filter[OF assms(1), of T] table_items_reals_only[OF assms(2,3)] by simp

lemma table_pointer:
  assumes "map plain xs = map (item_plain r) (table_items es ptrs)" "\<forall>e\<in>set es. en_tag e \<noteq> tag" "(tag, v) \<in> set ptrs" "distinct (map fst ptrs)"
  shows "\<exists>a e b. xs = a @ e # b \<and> plain e = plain (ptr_entry r tag v) \<and> (\<forall>f\<in>set a. en_tag f \<noteq> tag)"
proof -
  have "tag \<in> set (map en_tag xs)"
    using plain_tag[OF assms(1)] assms(3) by (force simp: table_items_def)
  then have "\<exists>e\<in>set xs. en_tag e = tag" by auto
  from split_list_first_prop[OF this] obtain a e b where
    x: "xs = a @ e # b" "en_tag e = tag" "\<forall>f\<in>set a. en_tag f \<noteq> tag" by blast
  have "plain e \<in> set (map (item_plain r) (table_items es ptrs))" using arg_cong[OF assms(1), of set] x(1) by force
  then obtain it where it: "it \<in> set (table_items es ptrs)" "plain e = item_plain r it" by auto
  have "item_tag it = tag" using it(2) x(2) item_plain_fst[of r it] plain_fst[of e] by metis
  then obtain v' where v': "it = Ptr tag v'" "(tag, v') \<in> set ptrs" using it(1) assms(2) by (auto simp: table_items_def)
  then have "it = Ptr tag v" using eq_key_imp_eq_value[OF assms(4) v'(2) assms(3)] by simp
  then show ?thesis using it(2) x by auto
qed

text \<open>What taking the pointers out of a table leaves.\<close>

lemma takeWhile_first: "\<forall>f\<in>set a. en_tag f \<noteq> t \<Longrightarrow> en_tag e = t \<Longrightarrow>
    takeWhile (\<lambda>e. en_tag e \<noteq> t) (a @ e # b) = a \<and> dropWhile (\<lambda>e. en_tag e \<noteq> t) (a @ e # b) = e # b"
  by simp

lemma take_pointer_hit:
  assumes "xs = a @ e # b" "plain e = plain (ptr_entry r tag v)" "\<forall>f\<in>set a. en_tag f \<noteq> tag" "v < 2 ^ 32"
  shows "take_pointer xs tag r = (Some v, a @ b)"
proof -
  have e: "en_tag e = tag" "en_bytes e = uint_bytes r 4 v" using assms(2) by (auto simp: plain_def ptr_entry_def)
  have "slice_get (uint_bytes r 4 v) 0 4 = Some (uint_bytes r 4 v)" by (simp add: slice_get_def)
  then show ?thesis using takeWhile_first[OF assms(3) e(1), of b] assms(1,4) e by (simp add: take_pointer_def)
qed

lemma take_pointer_miss: "\<forall>e\<in>set xs. en_tag e \<noteq> tag \<Longrightarrow> take_pointer xs tag r = (None, xs)"
proof -
  assume "\<forall>e\<in>set xs. en_tag e \<noteq> tag"
  then have d: "dropWhile (\<lambda>e. en_tag e \<noteq> tag) xs = []" by simp
  show ?thesis by (simp only: take_pointer_def d list.case)
qed

lemma retain_not_split: "en_tag e \<in> T \<Longrightarrow> retain_not T (a @ e # b) = retain_not T (a @ b)"
  by (simp add: retain_not_def)

lemma retain_not_twice: "retain_not T (retain_not U xs) = retain_not (T \<union> U) xs"
  by (auto simp: retain_not_def conj_commute)

lemma retain_not_id: "\<forall>e\<in>set xs. en_tag e \<notin> T \<Longrightarrow> retain_not T xs = xs"
  by (simp add: retain_not_def filter_id_conv)

lemma table_take_pointer:
  assumes "map plain xs = map (item_plain r) (table_items es ptrs)" "\<forall>e\<in>set es. en_tag e \<noteq> tag" "(tag, v) \<in> set ptrs"
    "distinct (map fst ptrs)" "v < 2 ^ 32"
  shows "\<exists>a e b. xs = a @ e # b \<and> en_tag e = tag \<and> take_pointer xs tag r = (Some v, a @ b)"
proof -
  obtain a e b where x: "xs = a @ e # b" "plain e = plain (ptr_entry r tag v)" "\<forall>f\<in>set a. en_tag f \<noteq> tag"
    using table_pointer[OF assms(1-4)] by blast
  then show ?thesis using take_pointer_hit[OF x assms(5)] by (auto simp: plain_def ptr_entry_def)
qed

lemma table_no_tag:
  assumes "map plain xs = map (item_plain r) (table_items es ptrs)" "\<forall>e\<in>set es. en_tag e \<noteq> tag" "tag \<notin> fst ` set ptrs"
  shows "\<forall>e\<in>set xs. en_tag e \<noteq> tag"
proof -
  have "set (map en_tag xs) = set (map item_tag (table_items es ptrs))" using plain_tag[OF assms(1)] by simp
  also have "\<dots> = en_tag ` set es \<union> fst ` set ptrs"
    by (simp add: table_items_def image_Un image_image case_prod_beta)
  finally have "tag \<notin> set (map en_tag xs)" using assms(2,3) by auto
  then show ?thesis by auto
qed

lemma table_with_tag:
  assumes "map plain xs = map (item_plain r) (table_items es ptrs)" "\<forall>e\<in>set es. en_tag e \<noteq> tag" "(tag, v) \<in> set ptrs"
    "distinct (map fst ptrs)" "v < 2 ^ 32"
  shows "Option.bind (with_tag tag xs) (\<lambda>e. read_uint e r) = Some v"
proof -
  obtain a e b where x: "xs = a @ e # b" "plain e = plain (ptr_entry r tag v)" "\<forall>f\<in>set a. en_tag f \<noteq> tag"
    using table_pointer[OF assms(1-4)] by blast
  have e: "en_tag e = tag" "en_kind e = TIFF_LONG" "en_bytes e = uint_bytes r 4 v"
    using x(2) by (auto simp: plain_def ptr_entry_def)
  have "find (\<lambda>e. en_tag e = tag) a = None" using x(3) by (simp add: find_None_iff)
  then have "with_tag tag xs = Some e" using x(1) e(1) by (induction a arbitrary: xs) (auto simp: with_tag_def)
  moreover have "rd32 (uint_bytes r 4 v) 0 r = Some v" using rd32_at[of 0 _ r v "[]"] assms(5) by (simp add: u64_max_def)
  ultimately show ?thesis using e by (simp add: read_uint_def)
qed

subsection \<open>A tree that was written\<close>

text \<open>What a tree says: its directories up to the order of entries with different tags.\<close>

definition dir_view :: "exif_entry list \<Rightarrow> (nat \<times> nat \<times> nat \<times> byte list) list" where
  "dir_view es = map plain (sort_key en_tag es)"

record tree_view =
  vw_order :: byte_order
  vw_prefix :: bool
  vw_ifd0 :: "(nat \<times> nat \<times> nat \<times> byte list) list"
  vw_exif :: "(nat \<times> nat \<times> nat \<times> byte list) list option"
  vw_interop :: "(nat \<times> nat \<times> nat \<times> byte list) list option"
  vw_gps :: "(nat \<times> nat \<times> nat \<times> byte list) list option"
  vw_ifd1 :: "(nat \<times> nat \<times> nat \<times> byte list) list option"
  vw_thumb :: "byte list option"

definition tree_view_of :: "exif \<Rightarrow> tree_view" where
  "tree_view_of x = \<lparr> vw_order = ex_order x, vw_prefix = ex_prefix x, vw_ifd0 = dir_view (ex_ifd0 x),
     vw_exif = map_option dir_view (ex_exif x), vw_interop = map_option dir_view (ex_interop x),
     vw_gps = map_option dir_view (ex_gps x), vw_ifd1 = map_option dir_view (ex_ifd1 x), vw_thumb = ex_thumb x \<rparr>"

text \<open>The pointers the writer makes up are not entries of the tree as well.\<close>

definition no_pointers :: "exif \<Rightarrow> bool" where
  "no_pointers x \<longleftrightarrow> (\<forall>e\<in>set (ex_ifd0 x). en_tag e \<notin> {TAG_EXIF_IFD, TAG_GPS_IFD})
     \<and> (\<forall>es. ex_exif x = Some es \<longrightarrow> (\<forall>e\<in>set es. en_tag e \<noteq> TAG_INTEROP_IFD))
     \<and> (\<forall>es. ex_ifd1 x = Some es \<longrightarrow> (\<forall>e\<in>set es. en_tag e \<notin> {TAG_THUMB_OFFSET, TAG_THUMB_LENGTH}))"

definition tiff_header :: "byte_order \<Rightarrow> byte list" where
  "tiff_header r = (case r of LittleEndian \<Rightarrow> [0x49, 0x49] | BigEndian \<Rightarrow> [0x4D, 0x4D]) @ uint_bytes r 2 42 @ uint_bytes r 4 TIFF_HEADER_SIZE"

definition ptrs0_of :: "exif \<Rightarrow> (nat \<times> nat) list" where
  "ptrs0_of x = (if ex_exif x \<noteq> None then [(TAG_EXIF_IFD, lo_exif (layout_of x))] else [])
     @ (if ex_gps x \<noteq> None then [(TAG_GPS_IFD, lo_gps (layout_of x))] else [])"

definition ptrs_exif_of :: "exif \<Rightarrow> (nat \<times> nat) list" where
  "ptrs_exif_of x = (if written_interop x \<noteq> None then [(TAG_INTEROP_IFD, lo_interop (layout_of x))] else [])"

definition ptrs1_of :: "exif \<Rightarrow> (nat \<times> nat) list" where
  "ptrs1_of x = (case ex_thumb x of None \<Rightarrow> []
     | Some t \<Rightarrow> [(TAG_THUMB_OFFSET, lo_thumb (layout_of x)), (TAG_THUMB_LENGTH, length t)])"

definition dir_bytes :: "byte_order \<Rightarrow> exif_entry list option \<Rightarrow> (nat \<times> nat) list \<Rightarrow> nat \<Rightarrow> nat \<Rightarrow> byte list" where
  "dir_bytes r d ptrs off nxt = (case d of None \<Rightarrow> []
     | Some es \<Rightarrow> write_ifd r es ptrs (table_end off (length es + length ptrs)) nxt)"

definition tiff_bytes :: "exif \<Rightarrow> byte list" where
  "tiff_bytes x = (let r = ex_order x; lo = layout_of x in
     tiff_header r
     @ dir_bytes r (Some (ex_ifd0 x)) (ptrs0_of x) TIFF_HEADER_SIZE (if ex_ifd1 x \<noteq> None then lo_ifd1 lo else 0)
     @ dir_bytes r (ex_exif x) (ptrs_exif_of x) (lo_exif lo) 0
     @ dir_bytes r (written_interop x) [] (lo_interop lo) 0
     @ dir_bytes r (ex_gps x) [] (lo_gps lo) 0
     @ dir_bytes r (ex_ifd1 x) (ptrs1_of x) (lo_ifd1 lo) 0
     @ (case ex_thumb x of None \<Rightarrow> [] | Some t \<Rightarrow> t))"

lemma to_bytes_parts: "to_bytes x = (if ex_prefix x then EXIF_PREFIX else []) @ tiff_bytes x"
  by (simp add: to_bytes_def tiff_bytes_def tiff_header_def dir_bytes_def ptrs0_of_def ptrs_exif_of_def ptrs1_of_def Let_def
      split: option.split)

lemma dir_bytes_length: "length (dir_bytes r d ptrs off nxt) = block_of d (length ptrs)"
  by (simp add: dir_bytes_def block_of_def write_ifd_length split: option.split)

lemma tiff_header_length [simp]: "length (tiff_header r) = TIFF_HEADER_SIZE"
  by (cases r) (simp_all add: tiff_header_def)

lemma ptrs_lengths:
  "length (ptrs0_of x) = size_of (ex_exif x) + size_of (ex_gps x)"
  "length (ptrs_exif_of x) = size_of (written_interop x)"
  "length (ptrs1_of x) = 2 * size_of (ex_thumb x)"
  by (simp_all add: ptrs0_of_def ptrs_exif_of_def ptrs1_of_def split: option.split)

text \<open>Each part lies where the layout says.\<close>

lemma tiff_parts:
  fixes x defines "r \<equiv> ex_order x" and "lo \<equiv> layout_of x" and "t \<equiv> tiff_bytes x"
  shows "\<exists>z. drop TIFF_HEADER_SIZE t = dir_bytes r (Some (ex_ifd0 x)) (ptrs0_of x) TIFF_HEADER_SIZE (if ex_ifd1 x \<noteq> None then lo_ifd1 lo else 0) @ z"
    and "\<exists>z. drop (lo_exif lo) t = dir_bytes r (ex_exif x) (ptrs_exif_of x) (lo_exif lo) 0 @ z"
    and "\<exists>z. drop (lo_interop lo) t = dir_bytes r (written_interop x) [] (lo_interop lo) 0 @ z"
    and "\<exists>z. drop (lo_gps lo) t = dir_bytes r (ex_gps x) [] (lo_gps lo) 0 @ z"
    and "\<exists>z. drop (lo_ifd1 lo) t = dir_bytes r (ex_ifd1 x) (ptrs1_of x) (lo_ifd1 lo) 0 @ z"
    and "drop (lo_thumb lo) t = (case ex_thumb x of None \<Rightarrow> [] | Some t \<Rightarrow> t)"
proof -
  note sizes = dir_bytes_length ptrs_lengths
  have t: "t = tiff_header r
     @ dir_bytes r (Some (ex_ifd0 x)) (ptrs0_of x) TIFF_HEADER_SIZE (if ex_ifd1 x \<noteq> None then lo_ifd1 lo else 0)
     @ dir_bytes r (ex_exif x) (ptrs_exif_of x) (lo_exif lo) 0
     @ dir_bytes r (written_interop x) [] (lo_interop lo) 0
     @ dir_bytes r (ex_gps x) [] (lo_gps lo) 0
     @ dir_bytes r (ex_ifd1 x) (ptrs1_of x) (lo_ifd1 lo) 0
     @ (case ex_thumb x of None \<Rightarrow> [] | Some t \<Rightarrow> t)"
    by (simp add: t_def tiff_bytes_def Let_def r_def lo_def)
  then have "drop 0 t = tiff_header r
     @ dir_bytes r (Some (ex_ifd0 x)) (ptrs0_of x) TIFF_HEADER_SIZE (if ex_ifd1 x \<noteq> None then lo_ifd1 lo else 0)
     @ dir_bytes r (ex_exif x) (ptrs_exif_of x) (lo_exif lo) 0
     @ dir_bytes r (written_interop x) [] (lo_interop lo) 0
     @ dir_bytes r (ex_gps x) [] (lo_gps lo) 0
     @ dir_bytes r (ex_ifd1 x) (ptrs1_of x) (lo_ifd1 lo) 0
     @ (case ex_thumb x of None \<Rightarrow> [] | Some t \<Rightarrow> t)" by simp
  note d0 = drop_part[OF this, unfolded tiff_header_length add_0]
  note d1 = drop_part[OF d0] and lo = layout_of_def block_of_def Let_def
  have e: "TIFF_HEADER_SIZE + length (dir_bytes r (Some (ex_ifd0 x)) (ptrs0_of x) TIFF_HEADER_SIZE (if ex_ifd1 x \<noteq> None then lo_ifd1 lo else 0)) = lo_exif lo"
    by (simp add: sizes lo_def lo del: add_Suc)
  note d1 = d1[unfolded e]
  have i: "lo_exif lo + length (dir_bytes r (ex_exif x) (ptrs_exif_of x) (lo_exif lo) 0) = lo_interop lo"
    by (simp add: sizes lo_def lo)
  note d2 = drop_part[OF d1, unfolded i]
  have g: "lo_interop lo + length (dir_bytes r (written_interop x) [] (lo_interop lo) 0) = lo_gps lo"
    by (simp add: sizes lo_def lo)
  note d3 = drop_part[OF d2, unfolded g]
  have f: "lo_gps lo + length (dir_bytes r (ex_gps x) [] (lo_gps lo) 0) = lo_ifd1 lo"
    by (simp add: sizes lo_def lo)
  note d4 = drop_part[OF d3, unfolded f]
  have "2 * size_of (ex_thumb x) = (if ex_thumb x \<noteq> None then 2 else 0 :: nat)" by simp
  then have h: "lo_ifd1 lo + length (dir_bytes r (ex_ifd1 x) (ptrs1_of x) (lo_ifd1 lo) 0) = lo_thumb lo"
    by (simp only: sizes lo_def lo layout.simps)
  note d5 = drop_part[OF d4, unfolded h]
  show "\<exists>z. drop TIFF_HEADER_SIZE t = dir_bytes r (Some (ex_ifd0 x)) (ptrs0_of x) TIFF_HEADER_SIZE (if ex_ifd1 x \<noteq> None then lo_ifd1 lo else 0) @ z"
    "\<exists>z. drop (lo_exif lo) t = dir_bytes r (ex_exif x) (ptrs_exif_of x) (lo_exif lo) 0 @ z"
    "\<exists>z. drop (lo_interop lo) t = dir_bytes r (written_interop x) [] (lo_interop lo) 0 @ z"
    "\<exists>z. drop (lo_gps lo) t = dir_bytes r (ex_gps x) [] (lo_gps lo) 0 @ z"
    "\<exists>z. drop (lo_ifd1 lo) t = dir_bytes r (ex_ifd1 x) (ptrs1_of x) (lo_ifd1 lo) 0 @ z"
    "drop (lo_thumb lo) t = (case ex_thumb x of None \<Rightarrow> [] | Some t \<Rightarrow> t)"
    using d0 d1 d2 d3 d4 d5 by blast+
qed

lemma layout_mono:
  "TIFF_HEADER_SIZE \<le> lo_exif (layout_of x)" "lo_exif (layout_of x) \<le> lo_interop (layout_of x)"
  "lo_interop (layout_of x) \<le> lo_gps (layout_of x)" "lo_gps (layout_of x) \<le> lo_ifd1 (layout_of x)"
  "lo_ifd1 (layout_of x) \<le> lo_thumb (layout_of x)"
  by (simp_all add: layout_of_def Let_def)

lemma tiff_length: "length (tiff_bytes x) = lo_thumb (layout_of x) + (case ex_thumb x of None \<Rightarrow> 0 | Some t \<Rightarrow> length t)"
proof -
  have "2 * size_of (ex_thumb x) = (if ex_thumb x \<noteq> None then 2 else 0 :: nat)" by simp
  then have "length (dir_bytes (ex_order x) (ex_ifd1 x) (ptrs1_of x) (lo_ifd1 (layout_of x)) 0)
      = block_of (ex_ifd1 x) (if ex_thumb x \<noteq> None then 2 else 0)" by (simp only: dir_bytes_length ptrs_lengths)
  then show ?thesis
    by (simp add: tiff_bytes_def Let_def dir_bytes_length ptrs_lengths layout_of_def block_of_def split: option.split)
qed

text \<open>A tree the writer can write: it fits 32-bit offsets, and its values are slices of one source.\<close>

definition writable :: "byte list \<Rightarrow> exif \<Rightarrow> bool" where
  "writable src x \<longleftrightarrow> tree_ok src x \<and> no_pointers x \<and> serialized_len x \<le> u32_max"

lemma writableD: assumes "writable src x" shows "tree_ok src x" "no_pointers x" "serialized_len x \<le> u32_max"
  using assms by (simp_all add: writable_def)

lemma t_length: assumes W: "writable src x" shows "length (tiff_bytes x) \<le> u32_max"
  using writableD(3)[OF W] serialized_len_eq[of x] by (simp add: to_bytes_parts split: if_splits)

lemma off_bounds: assumes W: "writable src x" shows "lo_thumb (layout_of x) < 2 ^ 32" "lo_ifd1 (layout_of x) < 2 ^ 32" "lo_gps (layout_of x) < 2 ^ 32" "lo_interop (layout_of x) < 2 ^ 32" "lo_exif (layout_of x) < 2 ^ 32"
proof -
  show "lo_thumb (layout_of x) < 2 ^ 32" using t_length[OF W] tiff_length[of x] by (simp add: u32_max_def split: option.splits)
  with layout_mono[of x] show "lo_ifd1 (layout_of x) < 2 ^ 32" "lo_gps (layout_of x) < 2 ^ 32" "lo_interop (layout_of x) < 2 ^ 32" "lo_exif (layout_of x) < 2 ^ 32"
    by linarith+
qed

lemma thumb_bound: assumes W: "writable src x" shows "ex_thumb x = Some th \<Longrightarrow> length th < 2 ^ 32"
  using t_length[OF W] tiff_length[of x] by (simp add: u32_max_def)

lemma interop_written: assumes W: "writable src x" shows "written_interop x = ex_interop x"
  using writableD(1)[OF W] by (auto simp: written_interop_def tree_ok_def)

lemma dir_parse:
  assumes W: "writable src x" and "\<exists>z. drop off (tiff_bytes x) = dir_bytes (ex_order x) (Some es) ptrs off nxt @ z" "dir_ok src es" "\<forall>(tag, v)\<in>set ptrs. tag < 2 ^ 16 \<and> v < 2 ^ 32"
    "length es + length ptrs \<le> MAX_IFD_ENTRIES" "nxt < 2 ^ 32"
  shows "\<exists>xs. parse_ifd (tiff_bytes x) off (ex_order x) = Some (xs, nxt) \<and> map plain xs = map (item_plain (ex_order x)) (table_items es ptrs)"
  using assms(2) written_ifd_parse[OF _ assms(3-6) t_length[OF W]] by (auto simp: dir_bytes_def)

lemma plain_dir_parse:
  assumes W: "writable src x" and "\<exists>z. drop off (tiff_bytes x) = dir_bytes (ex_order x) (Some es) [] off 0 @ z" "dir_ok src es" "length es \<le> MAX_IFD_ENTRIES"
  shows "\<exists>xs. parse_ifd (tiff_bytes x) off (ex_order x) = Some (xs, 0) \<and> map plain xs = map plain (sort_key en_tag es)"
proof -
  have "map (item_plain (ex_order x)) (table_items es []) = map plain (sort_key en_tag es)" by (simp add: table_items_def sort_Real)
  then show ?thesis using dir_parse[OF W, OF assms(2,3)] assms(4) by simp
qed

lemma interop_parse:
  assumes W: "writable src x"
  shows "ex_interop x = Some ds \<Longrightarrow> \<exists>xs. parse_ifd (tiff_bytes x) (lo_interop (layout_of x)) (ex_order x) = Some (xs, 0) \<and> map plain xs = map plain (sort_key en_tag ds)"
  using plain_dir_parse[OF W] tiff_parts(3)[of x] writableD(1)[OF W] interop_written[OF W] by (simp add: tree_ok_def)

lemma gps_parse:
  assumes W: "writable src x"
  shows "ex_gps x = Some ds \<Longrightarrow> \<exists>xs. parse_ifd (tiff_bytes x) (lo_gps (layout_of x)) (ex_order x) = Some (xs, 0) \<and> map plain xs = map plain (sort_key en_tag ds)"
  using plain_dir_parse[OF W] tiff_parts(4)[of x] writableD(1)[OF W] by (simp add: tree_ok_def)

lemma exif_parse:
  assumes W: "writable src x" and "ex_exif x = Some es"
  shows "\<exists>xs ys. parse_exif_ifd (tiff_bytes x) (ex_order x) (lo_exif (layout_of x)) = Some (xs, ys) \<and> map plain xs = map plain (sort_key en_tag es)
    \<and> map_option (map plain) ys = map_option (\<lambda>ds. map plain (sort_key en_tag ds)) (ex_interop x)"
proof -
  have es: "dir_ok src es" "length es + length (ptrs_exif_of x) \<le> MAX_IFD_ENTRIES" "\<forall>e\<in>set es. en_tag e \<noteq> TAG_INTEROP_IFD"
    using writableD(1,2)[OF W] assms(2) interop_written[OF W] by (auto simp: tree_ok_def no_pointers_def ptrs_lengths)
  have "\<forall>(tag, v)\<in>set (ptrs_exif_of x). tag < 2 ^ 16 \<and> v < 2 ^ 32" using off_bounds[OF W] by (simp add: ptrs_exif_of_def)
  then obtain xs where xs: "parse_ifd (tiff_bytes x) (lo_exif (layout_of x)) (ex_order x) = Some (xs, 0)" "map plain xs = map (item_plain (ex_order x)) (table_items es (ptrs_exif_of x))"
    using dir_parse[OF W tiff_parts(2)[of x, unfolded assms(2)] es(1) _ es(2)] assms(2) by auto
  have clean: "map plain (retain_not {TAG_INTEROP_IFD} xs) = map plain (sort_key en_tag es)"
    by (rule table_without_pointers[OF xs(2)]) (use es(3) in \<open>auto simp: ptrs_exif_of_def\<close>)
  show ?thesis
  proof (cases "ex_interop x")
    case None
    then have "\<forall>e\<in>set xs. en_tag e \<noteq> TAG_INTEROP_IFD"
      using table_no_tag[OF xs(2) es(3)] interop_written[OF W] by (simp add: ptrs_exif_of_def)
    then have "take_pointer xs TAG_INTEROP_IFD (ex_order x) = (None, xs)" "retain_not {TAG_INTEROP_IFD} xs = xs"
      by (auto intro!: take_pointer_miss retain_not_id)
    then show ?thesis using xs(1) clean None by (simp add: parse_exif_ifd_def)
  next
    case (Some ds)
    then have "(TAG_INTEROP_IFD, lo_interop (layout_of x)) \<in> set (ptrs_exif_of x)" "distinct (map fst (ptrs_exif_of x))"
      using interop_written[OF W] by (simp_all add: ptrs_exif_of_def)
    from table_take_pointer[OF xs(2) es(3) this off_bounds(4)[OF W]] obtain a e b where
      p: "xs = a @ e # b" "en_tag e = TAG_INTEROP_IFD" "take_pointer xs TAG_INTEROP_IFD (ex_order x) = (Some (lo_interop (layout_of x)), a @ b)" by blast
    obtain ys where ys: "parse_ifd (tiff_bytes x) (lo_interop (layout_of x)) (ex_order x) = Some (ys, 0)" "map plain ys = map plain (sort_key en_tag ds)"
      using interop_parse[OF W, OF Some] by blast
    have "parse_exif_ifd (tiff_bytes x) (ex_order x) (lo_exif (layout_of x)) = Some (retain_not {TAG_INTEROP_IFD} (a @ b), Some ys)"
      using xs(1) p(3) ys(1) by (simp add: parse_exif_ifd_def)
    moreover have "retain_not {TAG_INTEROP_IFD} (a @ b) = retain_not {TAG_INTEROP_IFD} xs"
      using p(1,2) retain_not_split[of e "{TAG_INTEROP_IFD}" a b] by simp
    ultimately show ?thesis using clean ys(2) Some by simp
  qed
qed

lemma ifd1_parse:
  assumes W: "writable src x" and "ex_ifd1 x = Some es"
  shows "\<exists>xs. parse_ifd1 (tiff_bytes x) (ex_order x) (lo_ifd1 (layout_of x)) = Some (xs, ex_thumb x) \<and> map plain xs = map plain (sort_key en_tag es)"
proof -
  let ?T = "{TAG_THUMB_OFFSET, TAG_THUMB_LENGTH}"
  have es: "dir_ok src es" "length es + length (ptrs1_of x) \<le> MAX_IFD_ENTRIES" "\<forall>e\<in>set es. en_tag e \<notin> ?T"
    "\<forall>e\<in>set es. en_tag e \<noteq> TAG_THUMB_OFFSET" "\<forall>e\<in>set es. en_tag e \<noteq> TAG_THUMB_LENGTH"
    using writableD(1,2)[OF W] assms(2) by (auto simp: tree_ok_def no_pointers_def ptrs_lengths)
  have p1: "\<forall>(tag, v)\<in>set (ptrs1_of x). tag < 2 ^ 16 \<and> v < 2 ^ 32"
  proof (cases "ex_thumb x")
    case (Some th)
    then show ?thesis using off_bounds(1)[OF W] thumb_bound[OF W Some] by (simp add: ptrs1_of_def)
  qed (simp add: ptrs1_of_def)
  have p2: "distinct (map fst (ptrs1_of x))" by (simp add: ptrs1_of_def split: option.split)
  have p3: "\<forall>(tag, v)\<in>set (ptrs1_of x). tag \<in> ?T" by (cases "ex_thumb x") (simp_all add: ptrs1_of_def)
  note ptrs = p1 p2 p3
  obtain xs where xs: "parse_ifd (tiff_bytes x) (lo_ifd1 (layout_of x)) (ex_order x) = Some (xs, 0)" "map plain xs = map (item_plain (ex_order x)) (table_items es (ptrs1_of x))"
    using dir_parse[OF W tiff_parts(5)[of x, unfolded assms(2)] es(1) ptrs(1) es(2)] by auto
  have clean: "map plain (retain_not ?T xs) = map plain (sort_key en_tag es)"
    by (rule table_without_pointers[OF xs(2) es(3) ptrs(3)])
  have "lo_ifd1 (layout_of x) \<noteq> 0" using layout_mono[of x] by simp
  moreover have "Option.bind (Option.bind (with_tag TAG_THUMB_OFFSET xs) (\<lambda>e. read_uint e (ex_order x))) (\<lambda>a.
      Option.bind (Option.bind (with_tag TAG_THUMB_LENGTH xs) (\<lambda>e. read_uint e (ex_order x))) (\<lambda>n.
      Option.bind (checked_add usize_max a n) (\<lambda>fin. slice_get (tiff_bytes x) a fin))) = ex_thumb x"
  proof (cases "ex_thumb x")
    case None
    then have "\<forall>e\<in>set xs. en_tag e \<noteq> TAG_THUMB_OFFSET" using table_no_tag[OF xs(2) es(4)] by (simp add: ptrs1_of_def)
    then have "with_tag TAG_THUMB_OFFSET xs = None" by (simp add: with_tag_def find_None_iff)
    with None show ?thesis by simp
  next
    case (Some th)
    have "(TAG_THUMB_OFFSET, lo_thumb (layout_of x)) \<in> set (ptrs1_of x)" "(TAG_THUMB_LENGTH, length th) \<in> set (ptrs1_of x)"
      using Some by (simp_all add: ptrs1_of_def)
    then have "Option.bind (with_tag TAG_THUMB_OFFSET xs) (\<lambda>e. read_uint e (ex_order x)) = Some (lo_thumb (layout_of x))"
      "Option.bind (with_tag TAG_THUMB_LENGTH xs) (\<lambda>e. read_uint e (ex_order x)) = Some (length th)"
      using table_with_tag[OF xs(2) es(4) _ ptrs(2) off_bounds(1)[OF W]] table_with_tag[OF xs(2) es(5) _ ptrs(2) thumb_bound[OF W, OF Some]]
      by blast+
    moreover have "slice_get (tiff_bytes x) (lo_thumb (layout_of x)) (lo_thumb (layout_of x) + length th) = Some th"
      by (rule slice_get_at[of _ _ _ "[]"]) (use tiff_parts(6)[of x] tiff_length[of x] Some in simp_all)
    moreover have "lo_thumb (layout_of x) + length th \<le> u64_max"
      using t_length[OF W] tiff_length[of x] Some u32_le_u64 by fastforce
    ultimately show ?thesis using Some by (simp add: checked_add_def)
  qed
  ultimately show ?thesis using xs(1) clean by (simp add: parse_ifd1_def)
qed


text \<open>Two pointers taken out of one table.\<close>

lemma take_pointer_retain: "tag \<in> T \<Longrightarrow> retain_not T (snd (take_pointer xs tag r)) = retain_not T xs"
proof -
  assume T: "tag \<in> T"
  show ?thesis
  proof (cases "fst (take_pointer xs tag r)")
    case None
    then show ?thesis using take_pointer_None[of xs tag r "snd (take_pointer xs tag r)"] by (metis prod.collapse)
  next
    case (Some off)
    then obtain a e b where "xs = a @ e # b" "snd (take_pointer xs tag r) = a @ b" "en_tag e = tag"
      using take_pointer_split[of xs tag r off "snd (take_pointer xs tag r)"] by (metis prod.collapse)
    with T show ?thesis using retain_not_split[of e T a b] by simp
  qed
qed

lemma with_tag_first: "\<forall>f\<in>set a. en_tag f \<noteq> tag \<Longrightarrow> en_tag e = tag \<Longrightarrow> with_tag tag (a @ e # b) = Some e"
  unfolding with_tag_def by (induction a) auto

lemma take_pointer_first: "fst (take_pointer xs tag r) = Option.bind (with_tag tag xs) (\<lambda>e. Option.bind (slice_get (en_bytes e) 0 4) (\<lambda>b. Some (uint_of r b)))"
proof (cases "\<exists>e\<in>set xs. en_tag e = tag")
  case False
  then have "with_tag tag xs = None" by (auto simp: with_tag_def find_None_iff)
  then show ?thesis using False take_pointer_miss[of xs tag r] by simp
next
  case True
  from split_list_first_prop[OF this] obtain a e b where x: "xs = a @ e # b" "en_tag e = tag" "\<forall>f\<in>set a. en_tag f \<noteq> tag"
    by blast
  then show ?thesis using with_tag_first[OF x(3,2), of b] takeWhile_first[OF x(3,2), of b]
    by (simp add: take_pointer_def split: option.split)
qed

lemma with_tag_retain: "tag \<notin> T \<Longrightarrow> with_tag tag (retain_not T xs) = with_tag tag xs"
  unfolding with_tag_def retain_not_def by (induction xs) auto

text \<open>So a pointer is found whatever was taken before, and nothing of the two tags is left.\<close>

lemma take_pointer_other:
  assumes "tag \<noteq> tag'"
  shows "fst (take_pointer (snd (take_pointer xs tag r)) tag' r) = fst (take_pointer xs tag' r)"
proof -
  have "with_tag tag' (snd (take_pointer xs tag r)) = with_tag tag' xs"
    using with_tag_retain[of tag' "{tag}" xs] with_tag_retain[of tag' "{tag}" "snd (take_pointer xs tag r)"]
      take_pointer_retain[of tag "{tag}" xs r] assms by simp
  then show ?thesis by (simp add: take_pointer_first)
qed

lemma pointers_gone:
  assumes "take_pointer xs a r = (ta, es1)" "take_pointer es1 b r = (tb, es2)"
    "ta = None \<Longrightarrow> \<forall>e\<in>set xs. en_tag e \<noteq> a" "tb = None \<Longrightarrow> \<forall>e\<in>set xs. en_tag e \<noteq> b"
  shows "(let es = (if ta \<noteq> None then retain_not {a} es2 else es2) in if tb \<noteq> None then retain_not {b} es else es)
    = retain_not {a, b} xs"
proof -
  let ?R = "let es = (if ta \<noteq> None then retain_not {a} es2 else es2) in if tb \<noteq> None then retain_not {b} es else es"
  have sub: "set es2 \<subseteq> set es1" "set es1 \<subseteq> set xs"
    using take_pointer_None[of es1 b r es2] take_pointer_None[of xs a r es1] take_pointer_split[of es1 b r _ es2]
      take_pointer_split[of xs a r _ es1] assms(1,2) by (cases tb; cases ta; fastforce)+
  have "retain_not {a, b} es2 = retain_not {a, b} xs"
    using take_pointer_retain[of b "{a, b}" es1 r] take_pointer_retain[of a "{a, b}" xs r] assms(1,2) by simp
  then have "retain_not {a, b} ?R = retain_not {a, b} xs"
    by (simp add: Let_def retain_not_twice insert_commute)
  moreover have "\<forall>e\<in>set ?R. en_tag e \<notin> {a, b}"
    using assms(3,4) sub by (cases ta; cases tb) (auto simp: Let_def retain_not_def)
  ultimately show ?thesis using retain_not_id by metis
qed

lemma ifd0_parse:
  assumes W: "writable src x"
  shows "\<exists>xs. parse_ifd (tiff_bytes x) TIFF_HEADER_SIZE (ex_order x) = Some (xs, if ex_ifd1 x \<noteq> None then lo_ifd1 (layout_of x) else 0)
    \<and> fst (take_pointer xs TAG_EXIF_IFD (ex_order x)) = (if ex_exif x \<noteq> None then Some (lo_exif (layout_of x)) else None)
    \<and> fst (take_pointer xs TAG_GPS_IFD (ex_order x)) = (if ex_gps x \<noteq> None then Some (lo_gps (layout_of x)) else None)
    \<and> (ex_exif x = None \<longrightarrow> (\<forall>e\<in>set xs. en_tag e \<noteq> TAG_EXIF_IFD)) \<and> (ex_gps x = None \<longrightarrow> (\<forall>e\<in>set xs. en_tag e \<noteq> TAG_GPS_IFD))
    \<and> map plain (retain_not {TAG_EXIF_IFD, TAG_GPS_IFD} xs) = map plain (sort_key en_tag (ex_ifd0 x))"
proof -
  let ?es = "ex_ifd0 x" and ?ps = "ptrs0_of x" and ?r = "ex_order x"
  let ?nxt = "if ex_ifd1 x \<noteq> None then lo_ifd1 (layout_of x) else 0"
  have es: "dir_ok src ?es" "length ?es + length ?ps \<le> MAX_IFD_ENTRIES" "\<forall>e\<in>set ?es. en_tag e \<notin> {TAG_EXIF_IFD, TAG_GPS_IFD}"
    "\<forall>e\<in>set ?es. en_tag e \<noteq> TAG_EXIF_IFD" "\<forall>e\<in>set ?es. en_tag e \<noteq> TAG_GPS_IFD"
    using writableD(1,2)[OF W] by (auto simp: tree_ok_def no_pointers_def ptrs_lengths add.assoc)
  have ps: "\<forall>(tag, v)\<in>set ?ps. tag < 2 ^ 16 \<and> v < 2 ^ 32" "distinct (map fst ?ps)" "\<forall>(tag, v)\<in>set ?ps. tag \<in> {TAG_EXIF_IFD, TAG_GPS_IFD}"
    using off_bounds(3,5)[OF W] by (auto simp: ptrs0_of_def)
  have nxt: "?nxt < 2 ^ 32" using off_bounds(2)[OF W] by simp
  obtain xs where xs: "parse_ifd (tiff_bytes x) TIFF_HEADER_SIZE ?r = Some (xs, ?nxt)" "map plain xs = map (item_plain ?r) (table_items ?es ?ps)"
    using dir_parse[OF W tiff_parts(1)[of x] es(1) ps(1) es(2) nxt] by blast
  have ptr: "fst (take_pointer xs tag ?r) = (if d \<noteq> None then Some v else None) \<and> (d = None \<longrightarrow> (\<forall>e\<in>set xs. en_tag e \<noteq> tag))"
    if "\<forall>e\<in>set ?es. en_tag e \<noteq> tag" "d \<noteq> None \<Longrightarrow> (tag, v) \<in> set ?ps" "d = None \<Longrightarrow> tag \<notin> fst ` set ?ps" "v < 2 ^ 32"
    for tag v and d :: "exif_entry list option"
  proof (cases "d = None")
    case True
    then show ?thesis using table_no_tag[OF xs(2) that(1)] that(3) take_pointer_miss by fastforce
  next
    case False
    then show ?thesis using table_take_pointer[OF xs(2) that(1) that(2)[OF False] ps(2) that(4)] by auto
  qed
  have "map plain (retain_not {TAG_EXIF_IFD, TAG_GPS_IFD} xs) = map plain (sort_key en_tag ?es)"
    by (rule table_without_pointers[OF xs(2) es(3) ps(3)])
  moreover have "fst (take_pointer xs TAG_EXIF_IFD ?r) = (if ex_exif x \<noteq> None then Some (lo_exif (layout_of x)) else None)
      \<and> (ex_exif x = None \<longrightarrow> (\<forall>e\<in>set xs. en_tag e \<noteq> TAG_EXIF_IFD))"
    by (rule ptr[OF es(4) _ _ off_bounds(5)[OF W]]) (auto simp: ptrs0_of_def)
  moreover have "fst (take_pointer xs TAG_GPS_IFD ?r) = (if ex_gps x \<noteq> None then Some (lo_gps (layout_of x)) else None)
      \<and> (ex_gps x = None \<longrightarrow> (\<forall>e\<in>set xs. en_tag e \<noteq> TAG_GPS_IFD))"
    by (rule ptr[OF es(5) _ _ off_bounds(3)[OF W]]) (auto simp: ptrs0_of_def)
  ultimately show ?thesis using xs(1) by (elim conjE) (intro exI[of _ xs] conjI; assumption)
qed

lemma tiff_header_parse:
  "order_of (tiff_bytes x) = Some (ex_order x)" "tiff_of (to_bytes x) = tiff_bytes x" "had_prefix (to_bytes x) = ex_prefix x"
  "rd16 (tiff_bytes x) 2 (ex_order x) = Some 42" "rd32 (tiff_bytes x) 4 (ex_order x) = Some TIFF_HEADER_SIZE"
proof -
  obtain z where z: "tiff_bytes x = tiff_header (ex_order x) @ z" by (simp add: tiff_bytes_def Let_def)
  show "order_of (tiff_bytes x) = Some (ex_order x)"
    by (cases "ex_order x") (simp_all add: z tiff_header_def order_of_def)
  have "take (length EXIF_PREFIX) (tiff_bytes x) \<noteq> EXIF_PREFIX"
    by (cases "ex_order x") (simp_all add: z tiff_header_def EXIF_PREFIX_def)
  then show p: "had_prefix (to_bytes x) = ex_prefix x" by (auto simp: had_prefix_def to_bytes_parts)
  then show "tiff_of (to_bytes x) = tiff_bytes x" by (simp add: tiff_of_def to_bytes_parts)
  have "take 2 (drop 2 (tiff_bytes x)) = uint_bytes (ex_order x) 2 42" "take 4 (drop 4 (tiff_bytes x)) = uint_bytes (ex_order x) 4 8"
    by (cases "ex_order x"; simp add: z tiff_header_def)+
  moreover have "8 \<le> length (tiff_bytes x)" using z by simp
  ultimately show "rd16 (tiff_bytes x) 2 (ex_order x) = Some 42" "rd32 (tiff_bytes x) 4 (ex_order x) = Some TIFF_HEADER_SIZE"
    by (simp_all add: rd16_Some rd32_Some u64_max_def)
qed

lemma dir_view_eq: "map plain ys = map plain (sort_key en_tag es) \<Longrightarrow> dir_view ys = dir_view es"
proof -
  assume e: "map plain ys = map plain (sort_key en_tag es)"
  then have "map fst (map plain ys) = map fst (map plain (sort_key en_tag es))" by simp
  then have "map en_tag ys = map en_tag (sort_key en_tag es)" by (simp add: comp_def plain_fst)
  then have "sorted (map en_tag ys)" by simp
  then have "sort_key en_tag ys = ys" by (rule sort_key_id_if_sorted)
  with e show ?thesis by (simp add: dir_view_def)
qed

lemma written_tree_parse:
  assumes W: "writable src x"
  shows "\<exists>y. parse (to_bytes x) = Some y \<and> tree_view_of y = tree_view_of x"
proof -
  let ?t = "tiff_bytes x" and ?r = "ex_order x" and ?lo = "layout_of x"
  obtain xs where xs: "parse_ifd ?t TIFF_HEADER_SIZE ?r = Some (xs, if ex_ifd1 x \<noteq> None then lo_ifd1 ?lo else 0)"
    "fst (take_pointer xs TAG_EXIF_IFD ?r) = (if ex_exif x \<noteq> None then Some (lo_exif ?lo) else None)"
    "fst (take_pointer xs TAG_GPS_IFD ?r) = (if ex_gps x \<noteq> None then Some (lo_gps ?lo) else None)"
    "ex_exif x = None \<longrightarrow> (\<forall>e\<in>set xs. en_tag e \<noteq> TAG_EXIF_IFD)" "ex_gps x = None \<longrightarrow> (\<forall>e\<in>set xs. en_tag e \<noteq> TAG_GPS_IFD)"
    "map plain (retain_not {TAG_EXIF_IFD, TAG_GPS_IFD} xs) = map plain (sort_key en_tag (ex_ifd0 x))"
    using ifd0_parse[OF W] by (elim exE conjE) (rule that)
  define es1 where "es1 = snd (take_pointer xs TAG_EXIF_IFD ?r)"
  have te: "take_pointer xs TAG_EXIF_IFD ?r = (if ex_exif x \<noteq> None then Some (lo_exif ?lo) else None, es1)"
    unfolding es1_def xs(2)[symmetric] by simp
  define es2 where "es2 = snd (take_pointer es1 TAG_GPS_IFD ?r)"
  have f: "fst (take_pointer es1 TAG_GPS_IFD ?r) = (if ex_gps x \<noteq> None then Some (lo_gps ?lo) else None)"
    using xs(3) take_pointer_other[of TAG_EXIF_IFD TAG_GPS_IFD xs ?r] by (simp add: es1_def)
  have tg: "take_pointer es1 TAG_GPS_IFD ?r = (if ex_gps x \<noteq> None then Some (lo_gps ?lo) else None, es2)"
    by (rule prod_eqI) (simp_all only: f fst_conv snd_conv es2_def)
  define y where "y = \<lparr> ex_order = ?r, ex_prefix = ex_prefix x, ex_ifd0 = retain_not {TAG_EXIF_IFD, TAG_GPS_IFD} xs,
       ex_exif = map_option fst (Option.bind (if ex_exif x \<noteq> None then Some (lo_exif ?lo) else None) (parse_exif_ifd ?t ?r)),
       ex_gps = Option.bind (if ex_gps x \<noteq> None then Some (lo_gps ?lo) else None) (\<lambda>off. Option.bind (parse_ifd ?t off ?r) (\<lambda>(es, _). Some es)),
       ex_interop = Option.bind (Option.bind (if ex_exif x \<noteq> None then Some (lo_exif ?lo) else None) (parse_exif_ifd ?t ?r)) snd,
       ex_ifd1 = map_option fst (parse_ifd1 ?t ?r (if ex_ifd1 x \<noteq> None then lo_ifd1 ?lo else 0)),
       ex_thumb = Option.bind (parse_ifd1 ?t ?r (if ex_ifd1 x \<noteq> None then lo_ifd1 ?lo else 0)) snd, ex_text = TextAscii \<rparr>"
  have len: "\<not> length ?t < TIFF_HEADER_SIZE" by (simp add: tiff_bytes_def Let_def)
  have y0: "(let es = (if (if ex_exif x \<noteq> None then Some (lo_exif ?lo) else None) \<noteq> None then retain_not {TAG_EXIF_IFD} es2 else es2)
      in if (if ex_gps x \<noteq> None then Some (lo_gps ?lo) else None) \<noteq> None then retain_not {TAG_GPS_IFD} es else es)
    = retain_not {TAG_EXIF_IFD, TAG_GPS_IFD} xs"
    by (rule pointers_gone[OF te tg]) (use xs(4,5) in \<open>auto split: if_splits\<close>)
  have p: "parse (to_bytes x) = Some y"
    using tiff_header_parse[of x] len xs(1) te tg y0[unfolded Let_def] unfolding parse_def Let_def y_def
    by (cases "ex_exif x"; cases "ex_gps x") simp_all
  have "map_option dir_view (ex_exif y) = map_option dir_view (ex_exif x) \<and> map_option dir_view (ex_interop y) = map_option dir_view (ex_interop x)"
  proof (cases "ex_exif x")
    case None
    then have "ex_interop x = None" using interop_written[OF W] by (simp add: written_interop_def)
    with None show ?thesis by (simp add: y_def)
  next
    case (Some es)
    obtain ys ds where e: "parse_exif_ifd ?t ?r (lo_exif ?lo) = Some (ys, ds)" "map plain ys = map plain (sort_key en_tag es)"
      "map_option (map plain) ds = map_option (\<lambda>ds. map plain (sort_key en_tag ds)) (ex_interop x)"
      using exif_parse[OF W Some] by blast
    have "map_option dir_view ds = map_option dir_view (ex_interop x)"
      using e(3) by (cases ds; cases "ex_interop x") (auto intro: dir_view_eq)
    then show ?thesis using Some e(1) dir_view_eq[OF e(2)] by (simp add: y_def)
  qed
  moreover have "map_option dir_view (ex_gps y) = map_option dir_view (ex_gps x)"
  proof (cases "ex_gps x")
    case (Some es)
    then show ?thesis using gps_parse[OF W Some] dir_view_eq by (auto simp: y_def)
  qed (simp add: y_def)
  moreover have "map_option dir_view (ex_ifd1 y) = map_option dir_view (ex_ifd1 x) \<and> ex_thumb y = ex_thumb x"
  proof (cases "ex_ifd1 x")
    case None
    then have "ex_thumb x = None" using writableD(1)[OF W] by (simp add: tree_ok_def)
    then show ?thesis using None by (simp add: y_def parse_ifd1_def)
  next
    case (Some es)
    then show ?thesis using ifd1_parse[OF W Some] dir_view_eq by (auto simp: y_def)
  qed
  moreover have "dir_view (ex_ifd0 y) = dir_view (ex_ifd0 x)" using dir_view_eq[OF xs(6)] by (simp add: y_def)
  ultimately have "tree_view_of y = tree_view_of x" by (simp add: tree_view_of_def y_def)
  then show ?thesis using p by blast
qed

text \<open>
  C3: An EXIF tree survives being written and parsed (\<open>to_bytes\<close> and \<open>Exif::parse\<close>, exif.rs): when its
  values are those of one source, its directories hold at most a thousand entries with their pointers,
  it holds no pointer of its own and it fits 32-bit offsets, the bytes written parse to a tree with the
  same byte order, prefix, thumbnail and directories, every entry with its type, count and value, in
  the order of the tags; shared values are written once and still read as each entry's own.
\<close>

theorem exif_roundtrip:
  assumes "writable src x"
  shows "\<exists>y. parse (to_bytes x) = Some y \<and> tree_view_of y = tree_view_of x"
  by (rule written_tree_parse[OF assms])

text \<open>A tree made from scratch, with a copyright of four letters.\<close>

theorem exif_roundtrip_witness:
  "\<exists>y. parse (to_bytes (set_copyright [97, 98, 99, 100] exif_default)) = Some y
     \<and> vw_ifd0 (tree_view_of y) = [(TAG_COPYRIGHT, TIFF_ASCII, 5, [97, 98, 99, 100, 0])]"
proof -
  let ?x = "set_copyright [97, 98, 99, 100] exif_default"
  have x: "ex_ifd0 ?x = [\<lparr> en_tag = TAG_COPYRIGHT, en_kind = TIFF_ASCII, en_count = 5, en_value = Owned [97, 98, 99, 100, 0], en_offset = 0 \<rparr>]"
    "ex_exif ?x = None" "ex_gps ?x = None" "ex_interop ?x = None" "ex_ifd1 ?x = None" "ex_thumb ?x = None" "\<not> ex_prefix ?x"
    by (simp_all add: set_copyright_def exif_default_def exif_new_def set_ifd0_string_def Let_def u32_max_def)
  then have "writable [] ?x"
    by (simp add: writable_def tree_ok_def no_pointers_def serialized_len_def written_interop_def Let_def block_size_def ext_size_def
        align2_def entry_ok_def type_size_def u32_max_def)
  from exif_roundtrip[OF this] show ?thesis
    using x(1) by (auto simp: tree_view_of_def dir_view_def plain_def)
qed

end
