(* ===== verification/Exif_Retain.thy ===== *)
theory Exif_Retain
  imports Exif_Roundtrip
begin

text \<open>
  Retention, end to end: the filter of a policy, and what the parser finds in the blob that \<open>retain\<close>
  returns.
\<close>

subsection \<open>What the filter lets through\<close>

text \<open>The tree holds nothing of a category the policy discards, no stray pointer and no maker note.\<close>

definition kept_dir :: "exif_policy \<Rightarrow> nat set \<Rightarrow> bool" where
  "kept_dir p tags \<longleftrightarrow> (\<forall>tag\<in>tags. tag \<notin> structural_tags \<and> tag \<noteq> TAG_MAKER_NOTE \<and> policy_keeps p (classify tag))"

definition dir_tags :: "exif_entry list option \<Rightarrow> nat set" where
  "dir_tags d = (case d of None \<Rightarrow> {} | Some es \<Rightarrow> en_tag ` set es)"

definition honours :: "exif_policy \<Rightarrow> exif \<Rightarrow> bool" where
  "honours p x \<longleftrightarrow> kept_dir p (dir_tags (Some (ex_ifd0 x))) \<and> kept_dir p (dir_tags (ex_exif x)) \<and> kept_dir p (dir_tags (ex_ifd1 x))
     \<and> (po_gps p = Discard \<longrightarrow> ex_gps x = None) \<and> (po_thumbnail p = Discard \<longrightarrow> ex_ifd1 x = None \<and> ex_thumb x = None)
     \<and> (po_color p = Discard \<longrightarrow> ex_interop x = None)"

lemma kept_dir_mono: "kept_dir p S \<Longrightarrow> T \<subseteq> S \<Longrightarrow> kept_dir p T"
  unfolding kept_dir_def by blast

lemma keep_entry_category:
  assumes "keep_entry p r d e"
  shows "en_tag e \<notin> structural_tags \<and> en_tag e \<noteq> TAG_MAKER_NOTE \<and> policy_keeps p (classify (en_tag e))"
proof -
  have c: "classify TAG_ORIENTATION = COrientation" "classify TAG_COLOR_SPACE = CColor" "classify TAG_GAMMA = CColor"
    "classify TAG_COPYRIGHT = CRights" "classify TAG_ARTIST = CRights" "classify TAG_PHOTOGRAPHER = CRights"
    "classify TAG_IMAGE_EDITOR = CRights"
    by (simp_all add: classify_def)
  show ?thesis using assms c by (auto simp: keep_entry_def Let_def split: if_splits)
qed

lemma option_filter_Some: "option_filter f d = Some y \<longleftrightarrow> d = Some y \<and> f y"
  by (auto simp: option_filter_def split: option.splits)

lemma filtered_fields:
  "ex_order (filtered p x) = ex_order x" "ex_prefix (filtered p x) = ex_prefix x"
  "ex_ifd0 (filtered p x) = filter (keep_entry p (ex_order x) False) (ex_ifd0 x)"
  "ex_gps (filtered p x) = (case po_gps p of Keep \<Rightarrow> ex_gps x | Discard \<Rightarrow> None)"
  "ex_interop (filtered p x) = option_filter (\<lambda>d. d \<noteq> []) (map_option (filter keep_interop)
      (option_filter (\<lambda>_. keeps (po_color p) \<and> ex_exif x \<noteq> None) (ex_interop x)))"
  "ex_exif (filtered p x) = option_filter (\<lambda>d. d \<noteq> [] \<or> ex_interop (filtered p x) \<noteq> None)
      (map_option (filter (keep_entry p (ex_order x) True)) (ex_exif x))"
  "ex_ifd1 (filtered p x) = (case po_thumbnail p of Keep \<Rightarrow> map_option (filter (keep_entry p (ex_order x) False)) (ex_ifd1 x) | Discard \<Rightarrow> None)"
  "ex_thumb (filtered p x) = (case po_thumbnail p of Keep \<Rightarrow> ex_thumb x | Discard \<Rightarrow> None)"
  "ex_text (filtered p x) = ex_text x"
  by (simp_all add: filtered_def Let_def split: prod.split retention.split)

lemma filtered_honours: "honours p (filtered p x)"
proof -
  have "kept_dir p (en_tag ` set (filter (keep_entry p r d) es))" for r d es
    using keep_entry_category by (fastforce simp: kept_dir_def)
  then have "kept_dir p (dir_tags (Some (ex_ifd0 (filtered p x))))" "kept_dir p (dir_tags (ex_exif (filtered p x)))"
    "kept_dir p (dir_tags (ex_ifd1 (filtered p x)))"
    by (auto simp: filtered_fields dir_tags_def option_filter_def split: option.splits retention.splits)
      (auto simp: kept_dir_def)
  then show ?thesis by (simp add: honours_def filtered_fields option_filter_def keeps_def split: option.split)
qed

text \<open>Filtering is a projection: what one policy let through it lets through again.\<close>

lemma option_map_filter_idem: "map_option (filter f) (map_option (filter f) d) = map_option (filter f) d"
  by (cases d) simp_all

lemma filtered_idempotent_eq: "filtered p (filtered p x) = filtered p x"
proof -
  let ?y = "filtered p x"
  have interop: "ex_interop (filtered p ?y) = ex_interop ?y"
    by (auto simp: filtered_fields(5,6) option_filter_def split: option.splits)
  have "ex_exif (filtered p ?y) = ex_exif ?y"
    using interop by (auto simp: filtered_fields(1) filtered_fields(6)[of p ?y] filtered_fields(6)[of p x] option_filter_def
        split: option.splits)
  then show ?thesis
    using interop by (intro exif.equality) (auto simp: filtered_fields(1-4,7-9) option_map_filter_idem split: retention.split)
qed

text \<open>
  C20: Filtering an EXIF tree under a policy (\<open>Exif::filtered\<close>, exif.rs) leaves no entry of a discarded
  category in the primary, the Exif and the thumbnail directory, no stray pointer, no maker note, and no
  GPS directory, thumbnail or interoperability directory that the policy discards; and it is a
  projection: filtering again changes nothing.
\<close>

theorem filtered_honours_policy: "honours p (filtered p x) \<and> filtered p (filtered p x) = filtered p x"
  using filtered_honours filtered_idempotent_eq by simp

subsection \<open>The filtered tree can be written\<close>

lemma dir_ok_filter: "dir_ok src es \<Longrightarrow> dir_ok src (filter f es)"
  by simp

lemma filtered_tree_ok:
  assumes "tree_ok src x"
  shows "tree_ok src (filtered p x)"
proof -
  let ?y = "filtered p x"
  have le: "size_of (ex_exif ?y) \<le> (size_of (ex_exif x) :: nat)" "size_of (ex_gps ?y) \<le> (size_of (ex_gps x) :: nat)"
    "size_of (ex_interop ?y) \<le> (size_of (ex_interop x) :: nat)" "size_of (ex_thumb ?y) \<le> (size_of (ex_thumb x) :: nat)"
    by (auto simp: filtered_fields(4-8) option_filter_def split: option.splits retention.splits)
  have f: "length (filter f es) \<le> length es" for f :: "exif_entry \<Rightarrow> bool" and es by simp
  have b: "dir_ok src (ex_ifd0 x)" "length (ex_ifd0 x) + size_of (ex_exif x) + size_of (ex_gps x) \<le> MAX_IFD_ENTRIES"
    using assms unfolding tree_ok_def by blast+
  have "length (ex_ifd0 ?y) \<le> length (ex_ifd0 x)" by (simp add: filtered_fields(3))
  then have "length (ex_ifd0 ?y) + size_of (ex_exif ?y) + size_of (ex_gps ?y) \<le> MAX_IFD_ENTRIES"
    using b(2) le(1,2) by linarith
  moreover have "dir_ok src (ex_ifd0 ?y)" using b(1) by (simp add: filtered_fields(3))
  moreover have "dir_ok src es \<and> length es + size_of (ex_interop ?y) \<le> MAX_IFD_ENTRIES" if e: "ex_exif ?y = Some es" for es
  proof -
    obtain ds where ds: "ex_exif x = Some ds" "es = filter (keep_entry p (ex_order x) True) ds"
      using e by (auto simp: filtered_fields(6) option_filter_Some)
    then have d: "dir_ok src ds" "length ds + size_of (ex_interop x) \<le> MAX_IFD_ENTRIES" using assms unfolding tree_ok_def by blast+
    then have "length es + size_of (ex_interop ?y) \<le> MAX_IFD_ENTRIES" unfolding ds(2) using d(2) le(3) f[of "keep_entry p (ex_order x) True" ds] by linarith
    then show ?thesis using d(1) ds(2) by simp
  qed
  moreover have "dir_ok src es \<and> length es \<le> MAX_IFD_ENTRIES \<and> ex_exif ?y \<noteq> None" if e: "ex_interop ?y = Some es" for es
  proof -
    obtain ds where ds: "ex_interop x = Some ds" "es = filter keep_interop ds" "ex_exif x \<noteq> None"
      using e by (auto simp: filtered_fields(5) option_filter_Some)
    then have "dir_ok src ds \<and> length ds \<le> MAX_IFD_ENTRIES" using assms by (simp add: tree_ok_def)
    moreover have "ex_exif ?y \<noteq> None" using ds(3) e by (auto simp: filtered_fields(6) option_filter_def)
    ultimately show ?thesis using ds(2) order_trans[OF f[of keep_interop ds]] by simp
  qed
  moreover have "dir_ok src es \<and> length es \<le> MAX_IFD_ENTRIES" if "ex_gps ?y = Some es" for es
    using that assms by (simp add: tree_ok_def filtered_fields(4) split: retention.splits)
  moreover have "dir_ok src es \<and> length es + 2 * size_of (ex_thumb ?y) \<le> MAX_IFD_ENTRIES" if e: "ex_ifd1 ?y = Some es" for es
  proof -
    obtain ds where ds: "ex_ifd1 x = Some ds" "es = filter (keep_entry p (ex_order x) False) ds"
      using e by (auto simp: filtered_fields(7) split: retention.splits)
    then have d: "dir_ok src ds" "length ds + 2 * size_of (ex_thumb x) \<le> MAX_IFD_ENTRIES" using assms unfolding tree_ok_def by blast+
    then have "length es + 2 * size_of (ex_thumb ?y) \<le> MAX_IFD_ENTRIES" unfolding ds(2) using d(2) le(4) f[of "keep_entry p (ex_order x) False" ds] by linarith
    then show ?thesis using d(1) ds(2) by simp
  qed
  moreover have "ex_ifd1 ?y \<noteq> None" if "ex_thumb ?y \<noteq> None"
    using that assms by (auto simp: tree_ok_def filtered_fields(7,8) split: retention.splits)
  ultimately show ?thesis unfolding tree_ok_def by blast
qed

lemma honours_no_pointers: "honours p x \<Longrightarrow> no_pointers x"
  by (fastforce simp: honours_def kept_dir_def dir_tags_def no_pointers_def)

subsection \<open>The orientation written into the filtered tree\<close>

lemma update_tag_set: "update_tag tag f es = Some es' \<Longrightarrow> length es' = length es \<and> set es' \<subseteq> set es \<union> f ` {e\<in>set es. en_tag e = tag}"
proof (induction es arbitrary: es')
  case (Cons e es)
  show ?case
  proof (cases "en_tag e = tag")
    case False
    then obtain z where "update_tag tag f es = Some z" "es' = e # z" using Cons.prems by auto
    then show ?thesis using Cons.IH[of z] by auto
  qed (use Cons.prems in auto)
qed simp

definition with_value :: "nat \<Rightarrow> byte_order \<Rightarrow> exif_entry \<Rightarrow> exif_entry" where
  "with_value v r e = (case int_bytes (en_kind e) v r of Some value \<Rightarrow> e\<lparr>en_value := value, en_count := 1\<rparr> | None \<Rightarrow> e)"

lemma set_orientation_tag_fields:
  "set_orientation_tag v x = x\<lparr>ex_ifd0 := (case update_tag TAG_ORIENTATION (with_value v (ex_order x)) (ex_ifd0 x) of
     Some es \<Rightarrow> es | None \<Rightarrow> ex_ifd0 x)\<rparr>"
  by (simp add: set_orientation_tag_def with_value_def[abs_def] Let_def)

lemma with_value_ok: "entry_ok src e \<Longrightarrow> entry_ok src (with_value v r e) \<and> en_tag (with_value v r e) = en_tag e"
  by (cases "en_kind e = TIFF_SHORT"; cases "en_kind e = TIFF_LONG") (simp_all add: with_value_def int_bytes_def entry_ok_def type_size_def)

lemma with_value_tag [simp]: "en_tag (with_value v r e) = en_tag e"
  by (simp add: with_value_def split: option.split)

lemma set_orientation_tag_ok:
  assumes "tree_ok src x" "honours p x"
  shows "tree_ok src (set_orientation_tag v x) \<and> honours p (set_orientation_tag v x)"
proof (cases "update_tag TAG_ORIENTATION (with_value v (ex_order x)) (ex_ifd0 x)")
  case None
  then show ?thesis using assms by (simp add: set_orientation_tag_fields)
next
  case (Some es)
  have "dir_ok src (ex_ifd0 x)" using assms(1) by (simp add: tree_ok_def)
  moreover have e: "\<exists>f\<in>set (ex_ifd0 x). e = f \<or> e = with_value v (ex_order x) f" if "e \<in> set es" for e
    using update_tag_set[OF Some] that by auto
  ultimately have "dir_ok src es" using with_value_ok by blast
  moreover have "length es = length (ex_ifd0 x)" using update_tag_set[OF Some] by simp
  moreover have "en_tag ` set es \<subseteq> en_tag ` set (ex_ifd0 x)" using e by fastforce
  then have "kept_dir p (dir_tags (Some es))"
    using assms(2) kept_dir_mono[of p "dir_tags (Some (ex_ifd0 x))"] by (simp add: honours_def dir_tags_def)
  moreover have "set_orientation_tag v x = x\<lparr>ex_ifd0 := es\<rparr>" using Some by (simp add: set_orientation_tag_fields)
  ultimately show ?thesis using assms unfolding tree_ok_def honours_def by (elim conjE) (intro conjI; simp)
qed

subsection \<open>Retention\<close>

text \<open>Two trees of one view hold the same tags.\<close>

lemma dir_view_tags: "dir_view es = dir_view fs \<Longrightarrow> en_tag ` set es = en_tag ` set fs"
proof -
  assume "dir_view es = dir_view fs"
  then have "fst ` set (dir_view es) = fst ` set (dir_view fs)" by simp
  then show ?thesis by (simp add: dir_view_def image_image plain_fst)
qed

lemma view_tags: "map_option dir_view d = map_option dir_view d' \<Longrightarrow> dir_tags d = dir_tags d'"
  by (cases d; cases d') (auto simp: dir_tags_def dest: dir_view_tags)

lemma honours_view:
  assumes "tree_view_of y = tree_view_of x" "honours p x"
  shows "honours p y"
proof -
  have v: "map_option dir_view (Some (ex_ifd0 y)) = map_option dir_view (Some (ex_ifd0 x))"
    "map_option dir_view (ex_exif y) = map_option dir_view (ex_exif x)" "map_option dir_view (ex_gps y) = map_option dir_view (ex_gps x)"
    "map_option dir_view (ex_interop y) = map_option dir_view (ex_interop x)" "map_option dir_view (ex_ifd1 y) = map_option dir_view (ex_ifd1 x)"
    "ex_thumb y = ex_thumb x"
    using assms(1) by (simp_all add: tree_view_of_def)
  have "ex_gps y = None \<longleftrightarrow> ex_gps x = None" "ex_interop y = None \<longleftrightarrow> ex_interop x = None" "ex_ifd1 y = None \<longleftrightarrow> ex_ifd1 x = None"
    using v(3-5) by (metis map_option_is_None)+
  then show ?thesis using assms(2) view_tags[OF v(1)] view_tags[OF v(2)] view_tags[OF v(5)] v(6) by (simp add: honours_def)
qed

text \<open>The tree that a rewrite writes.\<close>

definition pruned :: "('o \<Rightarrow> nat) \<Rightarrow> exif_policy \<Rightarrow> 'o option \<Rightarrow> exif \<Rightarrow> exif" where
  "pruned to_exif p want x = (case want of None \<Rightarrow> filtered p x | Some v \<Rightarrow> set_orientation_tag (to_exif v) (filtered p x))"

lemma pruned_ok:
  assumes "tree_ok src x"
  shows "tree_ok src (pruned to_exif p want x) \<and> honours p (pruned to_exif p want x)"
  using filtered_tree_ok[OF assms, of p] filtered_honours[of p x] set_orientation_tag_ok[of src "filtered p x" p]
  by (simp add: pruned_def split: option.split)

lemma retain_rewrites:
  assumes "retain_reconciled from_exif to_exif src p want = Some z" "\<not> keeps_everything p"
  shows "\<exists>x. parse src = Some x \<and> z = Rewritten (to_bytes (pruned to_exif p want x)) \<and> \<not> tree_is_empty (pruned to_exif p want x)
    \<and> serialized_len (pruned to_exif p want x) \<le> min (2 * length src + 1024) u32_max"
  using assms
  by (auto simp: retain_reconciled_def pruned_def Let_def saturating_add_def saturating_mul_def min_def
      split: if_splits option.splits)

text \<open>
  C2: \<open>retain\<close> (exif.rs) never leaks: under a policy that discards something, whatever it returns for a
  hostile or honest blob is a rewritten blob, at most twice the source and a kilobyte long, that the
  parser reads back as exactly the filtered tree, with the wanted orientation in place, and so with no
  entry of a discarded category in the primary, Exif or thumbnail directory, no GPS directory, thumbnail
  or maker note that the policy discards.
\<close>

theorem retain_never_leaks:
  assumes "retain_reconciled from_exif to_exif src p want = Some z" "\<not> keeps_everything p"
  shows "\<exists>bs x y. z = Rewritten bs \<and> length bs \<le> 2 * length src + 1024 \<and> parse src = Some x \<and> parse bs = Some y
    \<and> tree_view_of y = tree_view_of (pruned to_exif p want x) \<and> honours p y"
proof -
  let ?y = "pruned to_exif p want"
  obtain x where x: "parse src = Some x" "z = Rewritten (to_bytes (?y x))"
    "serialized_len (?y x) \<le> min (2 * length src + 1024) u32_max"
    using retain_rewrites[OF assms] by blast
  have ok: "tree_ok (tiff_of src) (?y x)" "honours p (?y x)" using pruned_ok parse_tree_ok[OF x(1)] by blast+
  then have "writable (tiff_of src) (?y x)" using honours_no_pointers x(3) by (simp add: writable_def)
  then obtain y where "parse (to_bytes (?y x)) = Some y" "tree_view_of y = tree_view_of (?y x)"
    using written_tree_parse by blast
  moreover have "length (to_bytes (?y x)) \<le> 2 * length src + 1024" using x(3) serialized_len_eq[of "?y x"] by simp
  ultimately show ?thesis using x(1,2) honours_view ok(2) by blast
qed

text \<open>A little-endian blob of three entries: an orientation, a camera make and a copyright of five bytes.\<close>

definition sample_blob :: "byte list" where
  "sample_blob = [0x49, 0x49, 42, 0, 8, 0, 0, 0, 3, 0,
     0x12, 1, 3, 0, 1, 0, 0, 0, 6, 0, 0, 0,
     0x0F, 1, 2, 0, 4, 0, 0, 0, 65, 66, 67, 0,
     0x98, 0x82, 2, 0, 5, 0, 0, 0, 50, 0, 0, 0,
     0, 0, 0, 0, 97, 98, 99, 100, 0]"

lemmas exif_eval = rd16_def rd32_def slice_get_def uint_of_def checked_add_def checked_mul_def u64_max_def u32_max_def type_size_def

definition sample_entries :: "exif_entry list" where
  "sample_entries = [\<lparr> en_tag = TAG_ORIENTATION, en_kind = TIFF_SHORT, en_count = 1, en_value = Borrowed 18 [6, 0], en_offset = 18 \<rparr>,
     \<lparr> en_tag = TAG_MAKE, en_kind = TIFF_ASCII, en_count = 4, en_value = Borrowed 30 [65, 66, 67, 0], en_offset = 30 \<rparr>,
     \<lparr> en_tag = TAG_COPYRIGHT, en_kind = TIFF_ASCII, en_count = 5, en_value = Borrowed 50 [97, 98, 99, 100, 0], en_offset = 50 \<rparr>]"

lemma sample_table: "parse_ifd sample_blob 8 LittleEndian = Some (sample_entries, 0)"
proof -
  have "resolve_entry sample_blob 10 LittleEndian = Some (sample_entries ! 0)"
    "resolve_entry sample_blob 22 LittleEndian = Some (sample_entries ! 1)"
    "resolve_entry sample_blob 34 LittleEndian = Some (sample_entries ! 2)"
    by (simp_all add: resolve_entry_def exif_eval sample_blob_def sample_entries_def)
  then have "parse_entries sample_blob 10 LittleEndian 0 (Suc (Suc (Suc 0))) = sample_entries"
    by (simp add: parse_entries_step u64_max_def sample_blob_def sample_entries_def del: parse_entries.simps(2))
  moreover have "rd16 sample_blob 8 LittleEndian = Some 3" "rd32 sample_blob 46 LittleEndian = Some 0"
    by (simp_all add: exif_eval sample_blob_def)
  ultimately show ?thesis by (simp add: parse_ifd_def checked_add_def u64_max_def numeral_3_eq_3)
qed

lemma sample_parse: "parse sample_blob = Some \<lparr> ex_order = LittleEndian, ex_prefix = False, ex_ifd0 = sample_entries,
    ex_exif = None, ex_gps = None, ex_interop = None, ex_ifd1 = None, ex_thumb = None, ex_text = TextAscii \<rparr>"
proof -
  have "tiff_of sample_blob = sample_blob" "\<not> had_prefix sample_blob" "order_of sample_blob = Some LittleEndian"
    "rd16 sample_blob 2 LittleEndian = Some 42" "rd32 sample_blob 4 LittleEndian = Some 8" "length sample_blob = 55"
    by (simp_all add: tiff_of_def had_prefix_def EXIF_PREFIX_def order_of_def exif_eval sample_blob_def)
  then show ?thesis using sample_table
    by (simp add: parse_def Let_def parse_ifd1_def take_pointer_def sample_entries_def)
qed

definition sample_tree :: exif where
  "sample_tree = \<lparr> ex_order = LittleEndian, ex_prefix = False, ex_ifd0 = sample_entries,
     ex_exif = None, ex_gps = None, ex_interop = None, ex_ifd1 = None, ex_thumb = None, ex_text = TextAscii \<rparr>"

lemma sample_filtered: "filtered ATTRIBUTED_ORIENTATION sample_tree = sample_tree\<lparr>ex_ifd0 := [sample_entries ! 0, sample_entries ! 2]\<rparr>"
  by (simp add: filtered_def sample_tree_def Let_def option_filter_def sample_entries_def keep_entry_def read_uint_def exif_eval
      ATTRIBUTED_ORIENTATION_def DISCARD_ALL_def keeps_def classify_def)

lemma sample_size: "serialized_len (sample_tree\<lparr>ex_ifd0 := [sample_entries ! 0, sample_entries ! 2]\<rparr>) = 44"
  by (simp add: serialized_len_def sample_tree_def Let_def written_interop_def block_size_def ext_size_def sample_entries_def
      align2_def)

lemma sample_retained:
  "retain_reconciled Some id sample_blob ATTRIBUTED_ORIENTATION None
    = Some (Rewritten (to_bytes (sample_tree\<lparr>ex_ifd0 := [sample_entries ! 0, sample_entries ! 2]\<rparr>)))"
  using sample_parse sample_filtered sample_size
  by (simp add: retain_reconciled_def Let_def sample_tree_def tree_is_empty_def keeps_everything_def keeps_def
      discards_everything_def ATTRIBUTED_ORIENTATION_def DISCARD_ALL_def sample_blob_def saturating_add_def saturating_mul_def
      u64_max_def u32_max_def)

theorem retain_never_leaks_witness:
  "\<exists>bs y. retain_reconciled Some id sample_blob ATTRIBUTED_ORIENTATION None = Some (Rewritten bs)
     \<and> parse bs = Some y \<and> honours ATTRIBUTED_ORIENTATION y \<and> length bs \<le> 1134"
proof -
  have "\<not> keeps_everything ATTRIBUTED_ORIENTATION"
    by (simp add: keeps_everything_def keeps_def ATTRIBUTED_ORIENTATION_def DISCARD_ALL_def)
  from retain_never_leaks[OF sample_retained this] show ?thesis
    using sample_retained by (auto simp: sample_blob_def)
qed

theorem exif_parse_sound_witness:
  "tree_ok (tiff_of sample_blob) sample_tree \<and> ex_ifd0 sample_tree = sample_entries"
  using exif_parse_sound[OF sample_parse] by (simp add: sample_tree_def)

end
