(* ===== verification/Exif_Patch.thy ===== *)
theory Exif_Patch
  imports Exif_Retain
begin

text \<open>
  The orientation patch: \<open>set_orientation\<close> of exif.rs overwrites a number inside one entry
  of the first directory and leaves every other byte. What the parser makes of the patched blob, however
  the blob's directories and values overlap.
\<close>

declare parse_entries.simps(2) [simp del]

subsection \<open>Reading beside the patched bytes\<close>

text \<open>\<open>t'\<close> is \<open>t\<close> with \<open>n\<close> bytes at \<open>a\<close> replaced.\<close>

definition same_but :: "nat \<Rightarrow> nat \<Rightarrow> byte list \<Rightarrow> byte list \<Rightarrow> bool" where
  "same_but a n t t' \<longleftrightarrow> length t' = length t \<and> take a t' = take a t \<and> drop (a + n) t' = drop (a + n) t"

lemma same_but_patch: "a + length p \<le> length t \<Longrightarrow> same_but a (length p) t (patch_at t a p)"
  by (simp add: same_but_def patch_at_def)

lemma same_but_piece:
  assumes "same_but a n t t'" "p + k \<le> a \<or> a + n \<le> p"
  shows "take k (drop p t') = take k (drop p t)"
proof (cases "p + k \<le> a")
  case True
  have "take k (drop p u) = drop p (take (p + k) (take a u))" for u :: "byte list"
    using True by (simp add: take_drop add.commute min_absorb1)
  then show ?thesis using assms(1) unfolding same_but_def by metis
next
  case False
  then have "drop p u = drop (p - (a + n)) (drop (a + n) u)" for u :: "byte list" using assms(2) by simp
  then show ?thesis using assms(1) unfolding same_but_def by metis
qed

lemma rd_if:
  "rd16 d off r = (if off + 2 \<le> u64_max \<and> off + 2 \<le> length d then Some (uint_of r (take 2 (drop off d))) else None)"
  "rd32 d off r = (if off + 4 \<le> u64_max \<and> off + 4 \<le> length d then Some (uint_of r (take 4 (drop off d))) else None)"
  by (cases "rd16 d off r", use rd16_Some[of d off r] in auto) (cases "rd32 d off r", use rd32_Some[of d off r] in auto)

lemma same_but_rd:
  assumes "same_but a n t t'"
  shows "p + 2 \<le> a \<or> a + n \<le> p \<Longrightarrow> rd16 t' p r = rd16 t p r" "p + 4 \<le> a \<or> a + n \<le> p \<Longrightarrow> rd32 t' p r = rd32 t p r"
  using assms same_but_piece[OF assms, of p 2] same_but_piece[OF assms, of p 4]
  by (auto simp: rd_if same_but_def)

subsection \<open>Entries that are read again\<close>

text \<open>The entry \<open>e\<close>, with its value read from \<open>t'\<close> at the same place.\<close>

definition reread :: "byte list \<Rightarrow> exif_entry \<Rightarrow> exif_entry" where
  "reread t' e = e\<lparr> en_value := Borrowed (en_offset e) (take (length (en_bytes e)) (drop (en_offset e) t')) \<rparr>"

lemma reread_simps [simp]: "en_tag (reread t' e) = en_tag e" "en_kind (reread t' e) = en_kind e"
  "en_count (reread t' e) = en_count e" "en_offset (reread t' e) = en_offset e"
  by (simp_all add: reread_def)

lemma map_bind: "map_option f (Option.bind x g) = Option.bind x (\<lambda>z. map_option f (g z))"
  by (cases x) simp_all

lemma slice_reread: "length t' = length t \<Longrightarrow> slice_get t' p q = map_option (\<lambda>v. take (length v) (drop p t')) (slice_get t p q)"
  by (auto simp: slice_get_def)

lemma resolve_reread:
  assumes "length t' = length t"
    and "rd16 t' e r = rd16 t e r" "rd16 t' (e + 2) r = rd16 t (e + 2) r" "rd32 t' (e + 4) r = rd32 t (e + 4) r"
    and "\<And>x. resolve_entry t e r = Some x \<Longrightarrow> length (en_bytes x) > 4 \<Longrightarrow> rd32 t' (e + 8) r = rd32 t (e + 8) r"
    and "resolve_entry t e r = None \<Longrightarrow> rd32 t' (e + 8) r = rd32 t (e + 8) r"
  shows "resolve_entry t' e r = map_option (reread t') (resolve_entry t e r)"
proof -
  have r8: "rd32 t' (e + 8) r = rd32 t (e + 8) r"
    if "rd16 t (e + 2) r = Some kind" "rd32 t (e + 4) r = Some c" "type_size kind = Some n" "checked_mul usize_max c n = Some b"
      "4 < b" for kind c n b
    using assms(5,6) that by (cases "resolve_entry t e r") (auto simp: resolve_entry_def bind_Some slice_get_Some split: if_splits)
  let ?field = "\<lambda>d n. if n \<le> 4 then do { v \<leftarrow> slice_get d (e + 8) (e + 8 + n); Some (v, e + 8) }
      else do { voff \<leftarrow> rd32 d (e + 8) r; fin \<leftarrow> checked_add usize_max voff n; v \<leftarrow> slice_get d voff fin; Some (v, voff) }"
  let ?again = "\<lambda>(v, p). (take (length v) (drop p t'), p)"
  have v: "?field t' n = map_option ?again (?field t n)" if "4 < n \<longrightarrow> rd32 t' (e + 8) r = rd32 t (e + 8) r" for n
    using that by (auto simp: slice_reread[OF assms(1)] map_bind bind_map_option o_def)
  show ?thesis
  proof (cases "\<exists>tag kind c n b. rd16 t e r = Some tag \<and> rd16 t (e + 2) r = Some kind \<and> rd32 t (e + 4) r = Some c
      \<and> type_size kind = Some n \<and> checked_mul usize_max c n = Some b")
    case True
    then obtain tag kind c n b where g: "rd16 t e r = Some tag" "rd16 t (e + 2) r = Some kind" "rd32 t (e + 4) r = Some c"
      "type_size kind = Some n" "checked_mul usize_max c n = Some b" by blast
    have "?field t' b = map_option ?again (?field t b)" using v r8[OF g(2-5)] by blast
    then show ?thesis
      unfolding resolve_entry_def assms(2-4) g Option.bind.bind_lunit by (cases "?field t b") (auto simp: reread_def)
  next
    case False
    then show ?thesis unfolding resolve_entry_def assms(2-4) by (auto split: bind_split)
  qed
qed

text \<open>The table is read again entry by entry.\<close>

lemma parse_entries_reread:
  assumes "length t' = length t"
    and "\<And>j. i \<le> j \<Longrightarrow> j < i + k \<Longrightarrow> s + 12 * j + 12 \<le> length t \<Longrightarrow>
      resolve_entry t' (s + 12 * j) r = map_option (reread t') (resolve_entry t (s + 12 * j) r)"
  shows "parse_entries t' s r i k = map (reread t') (parse_entries t s r i k)"
  using assms(2)
proof (induction k arbitrary: i)
  case (Suc k)
  have "parse_entries t' s r (Suc i) k = map (reread t') (parse_entries t s r (Suc i) k)"
    by (rule Suc.IH) (use Suc.prems in auto)
  then show ?case using Suc.prems[of i] assms(1) by (simp add: parse_entries_step split: option.split)
qed simp

lemma parse_entries_member:
  assumes "e \<in> set (parse_entries t s r i k)"
  shows "\<exists>j. s + 12 * j + 12 \<le> length t \<and> resolve_entry t (s + 12 * j) r = Some e"
  using assms by (induction k arbitrary: i) (auto simp: parse_entries_step split: if_splits option.splits)

subsection \<open>What only looks at tags and lengths\<close>

lemma take_pointer_reread:
  assumes "\<And>e. e \<in> set es \<Longrightarrow> length (en_bytes (f e)) = length (en_bytes e)" "\<And>e. en_tag (f e) = en_tag e"
  shows "snd (take_pointer (map f es) tag r) = map f (snd (take_pointer es tag r))
    \<and> (fst (take_pointer (map f es) tag r) = None \<longleftrightarrow> fst (take_pointer es tag r) = None)"
proof (cases "dropWhile (\<lambda>e. en_tag e \<noteq> tag) es")
  case Nil
  then have "dropWhile (\<lambda>e. en_tag e \<noteq> tag) (map f es) = []" by (simp add: dropWhile_map o_def assms(2))
  with Nil show ?thesis by (simp add: take_pointer_def del: dropWhile_eq_Nil_conv)
next
  case (Cons e b)
  then have "e \<in> set es" by (metis list.set_intros(1) set_dropWhileD)
  with Cons assms show ?thesis
    by (auto simp: take_pointer_def dropWhile_map takeWhile_map o_def slice_get_def)
qed

lemma with_tag_reread: "(\<And>e. en_tag (f e) = en_tag e) \<Longrightarrow> with_tag tag (map f es) = map_option f (with_tag tag es)"
  by (induction es) (auto simp: with_tag_def)

lemma retain_not_reread: "(\<And>e. en_tag (f e) = en_tag e) \<Longrightarrow> retain_not T (map f es) = map f (retain_not T es)"
  by (simp add: retain_not_def filter_map o_def)

subsection \<open>The first directory\<close>

definition first_dir :: "byte_order \<Rightarrow> exif_entry list \<Rightarrow> exif_entry list" where
  "first_dir r ifd0 =
     (let (te, es1) = take_pointer ifd0 TAG_EXIF_IFD r; (tg, es2) = take_pointer es1 TAG_GPS_IFD r;
          es = (if te \<noteq> None then retain_not {TAG_EXIF_IFD} es2 else es2)
      in if tg \<noteq> None then retain_not {TAG_GPS_IFD} es else es)"

lemma take_pointer_subset: "set (snd (take_pointer es tag r)) \<subseteq> set es"
proof (cases "take_pointer es tag r")
  case (Pair taken fs)
  then show ?thesis
    using take_pointer_split[of es tag r _ fs] take_pointer_None[of es tag r fs] by (cases taken) fastforce+
qed

lemma first_dir_subset: "set (first_dir r es) \<subseteq> set es"
  using take_pointer_subset[of es TAG_EXIF_IFD r] take_pointer_subset[of "snd (take_pointer es TAG_EXIF_IFD r)" TAG_GPS_IFD r]
  by (auto simp: first_dir_def Let_def case_prod_beta retain_not_def)

lemma first_dir_reread:
  assumes "\<And>e. e \<in> set es \<Longrightarrow> length (en_bytes (f e)) = length (en_bytes e)" "\<And>e. en_tag (f e) = en_tag e"
  shows "first_dir r (map f es) = map f (first_dir r es)"
proof -
  note sub = take_pointer_subset[of es TAG_EXIF_IFD r]
  have 1: "snd (take_pointer (map f es) TAG_EXIF_IFD r) = map f (snd (take_pointer es TAG_EXIF_IFD r))"
    "fst (take_pointer (map f es) TAG_EXIF_IFD r) = None \<longleftrightarrow> fst (take_pointer es TAG_EXIF_IFD r) = None"
    using take_pointer_reread[of es f, OF assms] by blast+
  have 2: "snd (take_pointer (map f (snd (take_pointer es TAG_EXIF_IFD r))) TAG_GPS_IFD r) =
      map f (snd (take_pointer (snd (take_pointer es TAG_EXIF_IFD r)) TAG_GPS_IFD r))"
    "fst (take_pointer (map f (snd (take_pointer es TAG_EXIF_IFD r))) TAG_GPS_IFD r) = None \<longleftrightarrow>
      fst (take_pointer (snd (take_pointer es TAG_EXIF_IFD r)) TAG_GPS_IFD r) = None"
    using take_pointer_reread[of "snd (take_pointer es TAG_EXIF_IFD r)" f, OF _ assms(2)] assms(1) sub by blast+
  show ?thesis
    by (simp add: first_dir_def case_prod_beta Let_def 1 2 retain_not_reread[of f, OF assms(2)] del: not_None_eq)
qed

text \<open>What the parser reads on the way to the first directory decides whether it returns a tree.\<close>

lemma parse_first_dir:
  assumes "order_of (tiff_of bs) = Some r" "rd16 (tiff_of bs) 2 r = Some 42" "rd32 (tiff_of bs) 4 r = Some off"
    "parse_ifd (tiff_of bs) off r = Some (ifd0, nxt)"
  shows "\<exists>x. parse bs = Some x \<and> ex_order x = r \<and> ex_prefix x = had_prefix bs \<and> ex_ifd0 x = first_dir r ifd0"
proof -
  have "length (tiff_of bs) \<ge> TIFF_HEADER_SIZE" using assms(3) by (simp add: rd32_Some)
  with assms show ?thesis by (simp add: parse_def first_dir_def Let_def case_prod_beta)
qed

lemma parse_entries_offset:
  assumes "e \<in> set (parse_entries t s r i k)" "length (en_bytes e) \<le> 4"
  shows "\<exists>j. en_offset e = s + 12 * j + 8 \<and> s + 12 * j + 12 \<le> length t \<and> resolve_entry t (s + 12 * j) r = Some e"
proof -
  obtain j where j: "s + 12 * j + 12 \<le> length t" "resolve_entry t (s + 12 * j) r = Some e"
    using parse_entries_member[OF assms(1)] by blast
  then have "en_offset e = s + 12 * j + 8"
    using assms(2) by (auto simp: resolve_entry_def bind_Some slice_get_Some split: if_splits)
  with j show ?thesis by blast
qed

lemma resolve_value: "resolve_entry t p r = Some e \<Longrightarrow> reread t e = e"
  by (auto simp: resolve_entry_def bind_Some slice_get_Some reread_def split: if_splits)

text \<open>A number patched into the value field of one entry: the table is the same, read again.\<close>

lemma parse_entries_patched:
  assumes "same_but (s + 12 * i + 8) n t t'" "n \<le> 4" "resolve_entry t (s + 12 * i) r = Some e" "length (en_bytes e) \<le> 4"
  shows "parse_entries t' s r 0 k = map (reread t') (parse_entries t s r 0 k)"
proof (rule parse_entries_reread)
  show "length t' = length t" using assms(1) by (simp add: same_but_def)
  note rd = same_but_rd[OF assms(1), where r = r]
  show "resolve_entry t' (s + 12 * j) r = map_option (reread t') (resolve_entry t (s + 12 * j) r)" for j
  proof (rule resolve_reread)
    show "length t' = length t" using assms(1) by (simp add: same_but_def)
    have "s + 12 * j + 12 \<le> s + 12 * i + 8 \<or> s + 12 * i + 8 + n \<le> s + 12 * j \<or> i = j" using assms(2) by linarith
    then show "rd16 t' (s + 12 * j) r = rd16 t (s + 12 * j) r" "rd16 t' (s + 12 * j + 2) r = rd16 t (s + 12 * j + 2) r"
      "rd32 t' (s + 12 * j + 4) r = rd32 t (s + 12 * j + 4) r"
      by (auto intro!: rd)
    have other: "rd32 t' (s + 12 * j + 8) r = rd32 t (s + 12 * j + 8) r" if "i \<noteq> j"
      by (rule rd(2)) (use that assms(2) in linarith)
    then show "rd32 t' (s + 12 * j + 8) r = rd32 t (s + 12 * j + 8) r"
      if "resolve_entry t (s + 12 * j) r = Some x" "4 < length (en_bytes x)" for x
      using that assms(3,4) by (cases "i = j") auto
    show "rd32 t' (s + 12 * j + 8) r = rd32 t (s + 12 * j + 8) r" if "resolve_entry t (s + 12 * j) r = None"
      using that other assms(3) by (cases "i = j") auto
  qed
qed

subsection \<open>The patch\<close>

lemma parse_head:
  assumes "parse bs = Some x"
  shows "\<exists>off c. order_of (tiff_of bs) = Some (ex_order x) \<and> rd16 (tiff_of bs) 2 (ex_order x) = Some 42
    \<and> rd32 (tiff_of bs) 4 (ex_order x) = Some off \<and> rd16 (tiff_of bs) off (ex_order x) = Some c \<and> c \<le> MAX_IFD_ENTRIES
    \<and> off + 2 + c * 12 \<le> u64_max \<and> ex_prefix x = had_prefix bs
    \<and> ex_ifd0 x = first_dir (ex_order x) (parse_entries (tiff_of bs) (off + 2) (ex_order x) 0 c)"
proof -
  obtain r off ifd0 nxt where p: "order_of (tiff_of bs) = Some r" "rd16 (tiff_of bs) 2 r = Some 42"
    "rd32 (tiff_of bs) 4 r = Some off" "parse_ifd (tiff_of bs) off r = Some (ifd0, nxt)"
    using assms by (auto simp: parse_def Let_def bind_Some split: if_splits)
  then have "ex_order x = r \<and> ex_prefix x = had_prefix bs \<and> ex_ifd0 x = first_dir r ifd0"
    using parse_first_dir[OF p] assms by auto
  moreover obtain c where "rd16 (tiff_of bs) off r = Some c" "c \<le> MAX_IFD_ENTRIES" "off + 2 + c * 12 \<le> u64_max"
    "ifd0 = parse_entries (tiff_of bs) (off + 2) r 0 c"
    using p(4) by (auto simp: parse_ifd_def bind_Some split: if_splits)
  ultimately show ?thesis using p(1-3) by blast
qed

lemma tiff_patch:
  assumes "10 \<le> a" "a + length p \<le> length (tiff_of bs)"
    and "bs' = patch_at bs ((if had_prefix bs then length EXIF_PREFIX else 0) + a) p"
  shows "had_prefix bs' = had_prefix bs" "tiff_of bs' = patch_at (tiff_of bs) a p" "length bs' = length bs"
proof -
  have len: "length (tiff_of bs) = length bs - (if had_prefix bs then 6 else 0)" "had_prefix bs \<Longrightarrow> 6 \<le> length bs"
    by (auto simp: tiff_of_def EXIF_PREFIX_def had_prefix_def)
  have L: "length EXIF_PREFIX = 6" by (simp add: EXIF_PREFIX_def)
  show same: "had_prefix bs' = had_prefix bs" and "length bs' = length bs"
    using assms len by (auto simp: patch_at_def had_prefix_def EXIF_PREFIX_def split: if_splits)
  show "tiff_of bs' = patch_at (tiff_of bs) a p"
    unfolding tiff_of_def same using assms len by (simp add: patch_at_def L drop_take ac_simps split: if_splits)
qed

lemma same_but_first: "same_but a n t t' \<Longrightarrow> k \<le> a \<Longrightarrow> take k t' = take k t"
  using same_but_piece[of a n t t' 0 k] by simp

text \<open>The number in the value field of an entry of the first directory.\<close>

lemma parse_patched:
  assumes "parse bs = Some x" "e \<in> set (ex_ifd0 x)" "length (en_bytes e) \<le> 4" "length p \<le> 4"
    and "bs' = patch_at bs ((if ex_prefix x then length EXIF_PREFIX else 0) + en_offset e) p"
  shows "10 \<le> en_offset e \<and> en_offset e + 4 \<le> length (tiff_of bs)
    \<and> tiff_of bs' = patch_at (tiff_of bs) (en_offset e) p \<and> length bs' = length bs
    \<and> (\<exists>x'. parse bs' = Some x' \<and> ex_order x' = ex_order x \<and> ex_ifd0 x' = map (reread (tiff_of bs')) (ex_ifd0 x))"
proof -
  let ?t = "tiff_of bs" and ?r = "ex_order x"
  obtain off c where h: "order_of ?t = Some ?r" "rd16 ?t 2 ?r = Some 42" "rd32 ?t 4 ?r = Some off" "rd16 ?t off ?r = Some c"
    "c \<le> MAX_IFD_ENTRIES" "off + 2 + c * 12 \<le> u64_max" "ex_prefix x = had_prefix bs"
    "ex_ifd0 x = first_dir ?r (parse_entries ?t (off + 2) ?r 0 c)"
    using parse_head[OF assms(1)] by (elim exE conjE) (rule that)
  then have "e \<in> set (parse_entries ?t (off + 2) ?r 0 c)" using assms(2) first_dir_subset by auto
  from parse_entries_offset[OF this assms(3)] obtain i where i: "en_offset e = off + 2 + 12 * i + 8"
    "off + 2 + 12 * i + 12 \<le> length ?t" "resolve_entry ?t (off + 2 + 12 * i) ?r = Some e" by blast
  have place: "10 \<le> en_offset e" "en_offset e + 4 \<le> length ?t" using i by simp_all
  have "bs' = patch_at bs ((if had_prefix bs then length EXIF_PREFIX else 0) + en_offset e) p" using assms(5) h(7) by simp
  note t' = tiff_patch[OF place(1) _ this]
  have same: "same_but (en_offset e) (length p) ?t (tiff_of bs')" using t'(2) place assms(4) same_but_patch by simp
  note rd = same_but_rd[OF same, where r = ?r]
  have "order_of (tiff_of bs') = order_of ?t" using same_but_first[OF same, of 2] place by (simp add: order_of_def)
  then have "order_of (tiff_of bs') = Some ?r" using h(1) by simp
  moreover have "rd16 (tiff_of bs') 2 ?r = Some 42" "rd32 (tiff_of bs') 4 ?r = Some off" "rd16 (tiff_of bs') off ?r = Some c"
    using rd(1)[of 2] rd(2)[of 4] rd(1)[of off] h place i(1) by simp_all
  moreover have "\<exists>nxt. parse_ifd (tiff_of bs') off ?r = Some (parse_entries (tiff_of bs') (off + 2) ?r 0 c, nxt)"
    using calculation(4) h(5,6) by (simp add: parse_ifd_def checked_add_def)
  moreover have "parse_entries (tiff_of bs') (off + 2) ?r 0 c = map (reread (tiff_of bs')) (parse_entries ?t (off + 2) ?r 0 c)"
    using parse_entries_patched[OF same[unfolded i(1)] assms(4) i(3) assms(3)] .
  ultimately obtain x' where "parse bs' = Some x'" "ex_order x' = ?r"
    "ex_ifd0 x' = first_dir ?r (map (reread (tiff_of bs')) (parse_entries ?t (off + 2) ?r 0 c))"
    using parse_first_dir by metis
  moreover have "length (en_bytes (reread (tiff_of bs') f)) = length (en_bytes f)"
    if "f \<in> set (parse_entries ?t (off + 2) ?r 0 c)" for f
    using parse_entries_member[OF that] same by (auto simp: resolve_entry_def bind_Some slice_get_Some reread_def same_but_def split: if_splits)
  ultimately have "\<exists>x'. parse bs' = Some x' \<and> ex_order x' = ?r \<and> ex_ifd0 x' = map (reread (tiff_of bs')) (ex_ifd0 x)"
    using first_dir_reread[of "parse_entries ?t (off + 2) ?r 0 c" "reread (tiff_of bs')" ?r] h(8) by simp
  then show ?thesis using place t' assms(4) by simp
qed

lemma inline_room:
  assumes "parse bs = Some x" "e \<in> set (ex_ifd0 x)" "length (en_bytes e) \<le> 4"
  shows "(if ex_prefix x then length EXIF_PREFIX else 0) + en_offset e + 4 \<le> length bs"
  using parse_patched[OF assms, of "[]"] parse_head[OF assms(1)] by (auto simp: tiff_of_def had_prefix_def)

lemma first_dir_value: "parse bs = Some x \<Longrightarrow> f \<in> set (ex_ifd0 x) \<Longrightarrow> reread (tiff_of bs) f = f"
  using parse_head[of bs x] first_dir_subset parse_entries_member resolve_value by (metis subsetD)

lemma reread_beside:
  assumes "parse bs = Some x" "f \<in> set (ex_ifd0 x)" "same_but a n (tiff_of bs) t'"
    and "en_offset f + length (en_bytes f) \<le> a \<or> a + n \<le> en_offset f"
  shows "reread t' f = f"
  using same_but_piece[OF assms(3,4)] first_dir_value[OF assms(1,2)] by (simp add: reread_def)

lemma reread_number:
  assumes "en_kind e \<in> {TIFF_SHORT, TIFF_LONG}" "type_size (en_kind e) = Some n" "length (en_bytes e) = en_count e * n" "v \<le> 255"
    and "drop (en_offset e) t' = uint_bytes r n v @ z"
  shows "read_uint (reread t' e) r = (if en_count e = 0 then None else Some v)"
proof -
  have "en_bytes (reread t' e) = take (en_count e * n) (uint_bytes r n v @ z)" using assms(3,5) by (simp add: reread_def)
  moreover have "n = (if en_kind e = TIFF_SHORT then 2 else 4)" using assms(1,2) by (auto simp: type_size_def)
  ultimately show ?thesis using assms(1,4) unfolding read_uint_def reread_simps by (auto simp: rd_if min_def width_eval)
qed

lemma patch_inline:
  assumes "parse bs = Some x" "e \<in> set (ex_ifd0 x)" "length bs \<le> usize_max"
  shows "patch_inline_int bs x e v =
    (if en_kind e \<in> {TIFF_SHORT, TIFF_LONG} \<and> length (en_bytes e) \<le> 4
     then Some (patch_at bs ((if ex_prefix x then length EXIF_PREFIX else 0) + en_offset e)
       (uint_bytes (ex_order x) (if en_kind e = TIFF_SHORT then 2 else 4) v))
     else None)"
proof -
  have "entry_ok (tiff_of bs) e" using parse_tree_ok[OF assms(1)] assms(2) by (auto simp: tree_ok_def)
  then have size: "en_kind e = TIFF_SHORT \<Longrightarrow> length (en_bytes e) = en_count e * 2"
    "en_kind e = TIFF_LONG \<Longrightarrow> length (en_bytes e) = en_count e * 4" "en_count e < 2 ^ 32"
    by (auto simp: entry_ok_def type_size_def split: if_splits)
  note room = inline_room[OF assms(1,2)]
  have sat: "saturating_mul usize_max (en_count e) n = en_count e * n" if "n \<le> 4" for n
  proof -
    have "en_count e * n \<le> 2 ^ 32 * 4" by (rule mult_le_mono) (use size(3) that in simp_all)
    then show ?thesis by (simp add: saturating_mul_def width_eval)
  qed
  show ?thesis
  proof (cases "en_kind e \<in> {TIFF_SHORT, TIFF_LONG} \<and> length (en_bytes e) \<le> 4")
    case True
    then show ?thesis using room size assms(3) by (auto simp: patch_inline_int_def sat slice_get_def checked_add_def)
  next
    case False
    then show ?thesis using size by (auto simp: patch_inline_int_def sat split: bind_split)
  qed
qed

text \<open>
  C21: Patching the orientation (\<open>set_orientation\<close>, exif.rs). It succeeds exactly when the first orientation
  entry of the first directory is an inline number; then only that number's bytes change, the patched
  blob parses, its first directory has the same entries at the same places, every entry whose value lies
  beside the number keeps it, and the orientation read back is the one written. An entry that announces
  no number at all is patched too, and still has no orientation afterwards.
\<close>

theorem patch_orientation_exact:
  assumes "parse bs = Some x" "with_tag TAG_ORIENTATION (ex_ifd0 x) = Some e" "length bs \<le> usize_max" "v \<le> 255"
  shows "case patch_orientation bs v of
      None \<Rightarrow> en_kind e \<notin> {TIFF_SHORT, TIFF_LONG} \<or> 4 < length (en_bytes e)
    | Some bs' \<Rightarrow> en_kind e \<in> {TIFF_SHORT, TIFF_LONG} \<and> length (en_bytes e) \<le> 4 \<and> (\<exists>x' n. parse bs' = Some x'
        \<and> type_size (en_kind e) = Some n
        \<and> same_but ((if ex_prefix x then length EXIF_PREFIX else 0) + en_offset e) n bs bs'
        \<and> ex_ifd0 x' = map (reread (tiff_of bs')) (ex_ifd0 x)
        \<and> (\<forall>f\<in>set (ex_ifd0 x). en_offset f + length (en_bytes f) \<le> en_offset e \<or> en_offset e + n \<le> en_offset f
             \<longrightarrow> f \<in> set (ex_ifd0 x'))
        \<and> exif_orientation from_exif x' = (if en_count e = 0 then None else from_exif v))"
proof -
  let ?n = "if en_kind e = TIFF_SHORT then 2 else 4" and ?r = "ex_order x"
  have e: "e \<in> set (ex_ifd0 x)" using with_tag_Some[OF assms(2)] by simp
  then have "entry_ok (tiff_of bs) e" using parse_tree_ok[OF assms(1)] by (auto simp: tree_ok_def)
  then have size: "type_size (en_kind e) = Some m \<Longrightarrow> length (en_bytes e) = en_count e * m" for m by (simp add: entry_ok_def)
  have P: "patch_orientation bs v = patch_inline_int bs x e v"
    by (simp add: patch_orientation_def set_orientation_with_def assms(1,2))
  show ?thesis
  proof (cases "patch_orientation bs v")
    case None
    then show ?thesis using P patch_inline[OF assms(1) e assms(3), of v] by (auto split: if_splits)
  next
    case (Some bs')
    then have k: "en_kind e \<in> {TIFF_SHORT, TIFF_LONG}" "length (en_bytes e) \<le> 4"
      "bs' = patch_at bs ((if ex_prefix x then length EXIF_PREFIX else 0) + en_offset e) (uint_bytes ?r ?n v)"
      using P patch_inline[OF assms(1) e assms(3), of v] by (auto split: if_splits)
    then have n: "type_size (en_kind e) = Some ?n" by (auto simp: type_size_def)
    have "length (uint_bytes ?r ?n v) \<le> 4" by simp
    note pp = parse_patched[OF assms(1) e k(2) this k(3)]
    then obtain x' where x': "parse bs' = Some x'" "ex_order x' = ?r" "ex_ifd0 x' = map (reread (tiff_of bs')) (ex_ifd0 x)"
      by blast
    have "same_but ((if ex_prefix x then length EXIF_PREFIX else 0) + en_offset e) ?n bs bs'"
      using same_but_patch[of "(if ex_prefix x then length EXIF_PREFIX else 0) + en_offset e" "uint_bytes ?r ?n v" bs]
        inline_room[OF assms(1) e k(2)] k(3) by (auto split: if_splits)
    moreover have "same_but (en_offset e) ?n (tiff_of bs) (tiff_of bs')"
      using pp same_but_patch[of "en_offset e" "uint_bytes ?r ?n v" "tiff_of bs"] by (auto split: if_splits)
    then have "\<forall>f\<in>set (ex_ifd0 x). en_offset f + length (en_bytes f) \<le> en_offset e \<or> en_offset e + ?n \<le> en_offset f
        \<longrightarrow> f \<in> set (ex_ifd0 x')"
      using x'(3) reread_beside[OF assms(1)] by force
    moreover have "read_uint (reread (tiff_of bs') e) ?r = (if en_count e = 0 then None else Some v)"
      by (rule reread_number[OF k(1) n size[OF n] assms(4)]) (use pp in \<open>simp add: patch_at_def\<close>)
    then have "exif_orientation from_exif x' = (if en_count e = 0 then None else from_exif v)"
      using x' assms(4) by (auto simp: exif_orientation_def with_tag_reread assms(2) try_into_def)
    ultimately show ?thesis using Some k n x' by auto
  qed
qed

theorem patch_orientation_exact_witness:
  "\<exists>x'. parse (patch_at sample_blob 18 [3, 0]) = Some x' \<and> exif_orientation Some x' = Some 3 \<and> sample_entries ! 1 \<in> set (ex_ifd0 x')"
proof -
  have tag: "with_tag TAG_ORIENTATION (ex_ifd0 sample_tree) = Some (sample_entries ! 0)"
    by (simp add: sample_tree_def sample_entries_def with_tag_def)
  have parsed: "parse sample_blob = Some sample_tree" using sample_parse by (simp add: sample_tree_def)
  have patch: "patch_orientation sample_blob 3 = Some (patch_at sample_blob 18 [3, 0])"
    using patch_inline[OF parsed, of "sample_entries ! 0" 3] tag
    by (simp add: patch_orientation_def set_orientation_with_def parsed)
      (simp add: sample_tree_def sample_entries_def sample_blob_def width_eval uint_bytes_def numeral_2_eq_2)
  show ?thesis
    using patch_orientation_exact[OF parsed tag, of 3 Some] patch
    by (auto simp: sample_blob_def width_eval sample_tree_def sample_entries_def type_size_def)
qed

end
