(* ===== verification/Spec2Isabelle.thy ===== *)
theory Spec2Isabelle
  imports Prelude Resource_Limits Timing Quantizer Inventory Inventory_Coverage Output_Stream Storage
    Byte_Source Buffered_Source Incremental Admission Input_Window Slice_Driver Read_At_Driver
    Stream_Pump Media_Packet Media_Staging Media_Track Media_Output
    Frames Media_Session Toy_Codec Media_Container Toy_Container Toy_File
    Endian Exif Exif_Write Exif_Sound Exif_Roundtrip Exif_Retain Exif_Patch
begin

text \<open>
  A model of the core of zencodec, the shared contract crate of the zen image codecs, and of
  zencodec-io, the drivers that run a codec over real input.

  The program. \<open>src/src\<close> defines what codecs and applications agree on: resource limits, media
  time, structural inventories of encoded files, streaming output, storage admission, byte
  sources, and the step-by-step decoding protocol. \<open>src/zencodec-io/src\<close> implements the driver
  side of that protocol: it buffers sources, plans reads, owns the input window, and serves the
  requests of a decoder. A driver offers an \<open>Input\<close> (bytes at an offset); the decoder consumes
  a prefix and reports rows, metadata, completion, or \<open>Need\<close> with a list of requests; the
  driver fetches what is asked for, from a slice, a file or a stream, and offers again.

  Theories, in the order of their dependencies.
  \<^item> \<open>Prelude\<close>: results as sums (\<open>Ok\<close>, \<open>Err\<close>), the checked, saturating and wrapping arithmetic
    of the code's unsigned integers, and \<open>width_eval\<close>, the facts that evaluate it.
  \<^item> \<open>Resource_Limits\<close> (limits.rs): every cap of \<open>ResourceLimits\<close>, its builders and checks, in the order in
    which the code makes them. Exactness of \<open>check_image_info\<close>, of the errors it reports, the
    bounds of the preset for untrusted input, and exactly which images over a cap are let through
    by the total-pixel product that wraps.
  \<^item> \<open>Timing\<close> (time.rs, animation.rs): timebases, timestamps and durations over 128-bit
    intermediate values, which are written out. Exactness of differences, rounding of
    \<open>rescale\<close>, round trips, the order of instants; differences are exact where they fit 128 bits,
    and every pair that does not fit is answered in reverse order.
  \<^item> \<open>Quantizer\<close> (animation.rs): the carried remainder of \<open>DurationQuantizer\<close>. Its sums never
    drift from the exact time, and its arithmetic never overflows.
  \<^item> \<open>Inventory\<close>, \<open>Inventory_Coverage\<close> (inventory.rs): the part table with its parent links,
    \<open>validate\<close>, \<open>fill_gaps\<close> and \<open>try_children\<close>, with allocation failures as an argument.
    Validation accepts exactly the inventories in which the levels are disjoint and cover what they must;
    filling completes a map and is atomic.
  \<^item> \<open>Output_Stream\<close> (output_buffer.rs, output_patch.rs): \<open>OutputBuffer\<close> refines a byte queue
    (the locale \<open>byte_stream\<close>), compaction is bounded, and \<open>OutputFinish\<close> is all or nothing.
  \<^item> \<open>Storage\<close> (storage.rs): the budget's two counters as single atomic steps of many threads;
    in every interleaving they stay within the budget.
  \<^item> \<open>Byte_Source\<close> (source.rs, file.rs, read_at_reader.rs): access patterns, positional sources
    and the operations the trait derives; the locales \<open>positional_source\<close> and
    \<open>sequential_reader\<close>, the second given by the first.
  \<^item> \<open>Buffered_Source\<close> (buffered.rs): \<open>BufferedReadAt\<close> over a reader whose faults, short reads and
    interruptions are data; under every policy it returns the stream's own bytes.
  \<^item> \<open>Incremental\<close> (incremental.rs, control.rs): \<open>Fused\<close>, mandatory suspension and the sink
    guard around an arbitrary decoder, whose step is a program that calls the sink.
  \<^item> \<open>Admission\<close> (admission.rs, drive.rs): the limits of a driver, the choice of a request, the
    plan of a batch of range reads and its storage; the relation \<open>merging\<close> is the
    specification that both merging loops meet.
  \<^item> \<open>Input_Window\<close> (window.rs): the driver's buffer and \<open>check_need\<close>; its invariant \<open>holds\<close> says
    that the window shows a piece of the file.
  \<^item> \<open>Slice_Driver\<close> (stepper.rs, drive.rs): \<open>SliceCursor\<close> and \<open>drive_from_slice\<close>.
  \<^item> \<open>Read_At_Driver\<close> (stepper.rs, drive.rs): \<open>ReadAtCursor\<close> with its cache of fetched ranges, and
    \<open>drive_from_read_at\<close>, over the locale \<open>read_at_source\<close>, interpreted on the slice and the
    file sources. Here the components meet: admission plans the reads, the window keeps them, the
    protocol check guards them, and the source answers.
  \<^item> \<open>Stream_Pump\<close> (stepper.rs, pump.rs): \<open>ReadCursor\<close> over a sequential stream, and
    \<open>pump_read_to_sink\<close>; serving a request reads and skips exactly what it names.
  \<^item> \<open>Media_Packet\<close>, \<open>Media_Staging\<close> (zencodec-media packet.rs, limits.rs, staging.rs): packets with their
    payloads and side data, and the memory and disk stores that hold them until they are replayed.
    Staging refines a queue of packets, whatever faults the scratch file has: a take that fails
    after it popped an entry from disk loses that entry, and the histories account for it.
  \<^item> \<open>Media_Track\<close>, \<open>Media_Output\<close> (zencodec-media track.rs, session.rs, container.rs, output.rs; zencodec-io
    destination.rs): tracks, the session vocabulary, and the driver that moves a muxer's bytes to a
    writer. A finished output is what the muxer would have made in memory; a failure reports how
    much arrived.
  \<^item> \<open>Frames\<close>, \<open>Media_Session\<close>, \<open>Toy_Codec\<close> (src/src frame.rs, frame_storage.rs; zencodec-media session.rs;
    zencodec-media-testkit toy.rs): decoded frames, codec sessions with their fused and erased forms,
    and the pumps. The locale \<open>session\<close> is the protocol, interpreted on the reference codec's decoder
    and encoder; pumps deliver everything over it, and fusing makes it hold after failures too.
  \<^item> \<open>Media_Container\<close>, \<open>Toy_Container\<close>, \<open>Toy_File\<close> (zencodec-media container.rs; zencodec-media-testkit
    toy.rs): the vocabulary of containers, the reference demuxer over a slice, and the reference muxer
    run through the output driver. What the muxer writes, the demuxer reads back packet by packet;
    the demuxer's two \<open>expect\<close>s are shown not to fire before a call failed (\<open>toy_step_expects\<close>).
  \<^item> \<open>Endian\<close>: the bytes of machine integers in either order, which the container and EXIF share.
  \<^item> \<open>Exif\<close>, \<open>Exif_Write\<close> (src/src exif.rs): the EXIF blob as a TIFF tree, its bounded parser and
    readers; policies, edits, the filter, the announced length and the writer. \<open>Exif_Sound\<close>: \<open>tree_ok\<close>, the
    bounds of every parsed tree. \<open>Exif_Roundtrip\<close>: the announced length is the written one, and parsing a
    written tree gives the tree back. \<open>Exif_Retain\<close>: what a policy discards is in no
    field of the filtered tree, and the blob that a caller retains reads back within the policy. \<open>Exif_Patch\<close>: the in-place patch of the
    orientation changes its bytes only, and the directory reads as before.

  Conventions. A panic is a value: \<open>None\<close> of a \<open>run\<close>, or \<open>Panics\<close> of an \<open>ending\<close>. A loop that might
  not end is a \<open>partial_function (option)\<close>, and \<open>None\<close> is its not returning; where the code
  always returns this is proved. \<open>read_batches\<close> takes as fuel the number of buffers left, each
  batch taking at least one. Allocation, decoders, sinks, readers and the operating system are
  arguments; what is relied on of them is a named hypothesis or a law of a locale. A \<open>usize\<close> has 64
  bits. Counters of statistics are unbounded. Four places are simpler than the code, and their texts say
  how: \<open>accounted_copy\<close> keeps the charge of a payload it replaces to the end of the call,
  \<open>reader_read\<close> is about sources whose own errors are not interruptions, \<open>toy_accept\<close> multiplies picture sizes without
  wrapping, and the reference demuxer's \<open>expect\<close>s answer an error.

  In the EXIF theories an orientation is its EXIF number, and the value of an entry remembers where
  in the blob it lay, or that it is owned, which is what sharing an offset means to the writer.

  Not modelled: pixel descriptors and buffers (the zenpixels package), pulses (the how_far
  package) beyond their answers, texts of errors, the lossy decoding of copyright and artist texts to
  UTF-8, forwarding implementations for boxes, asynchronous drivers, and the components listed as such
  in the manifest. The gain-map formats are left out because they compute in floating point. What a
  continuation would take next: staged encoding and the container adapters of zencodec-media, the
  bounded input store of zencodec-coroutine, the operation policy, and the inspector of zenmeta.
\<close>

end
